(* ===== verification/Prelude.thy ===== *)
theory Prelude
  imports Main "HOL-Library.Word" "HOL-Library.Monad_Syntax"
begin

text \<open>
  The vocabulary every component shares: C array objects as lists with checked access, C's
  truncating integer division and its conversions to a fixed width, and the collections of
  simplification rules of the development.

  A value of type \<open>'a option\<close> is the result of a piece of C code: \<open>None\<close> stands for
  undefined behaviour (an access outside the array object, a call on a null pointer, a signed
  division by zero, the conversion of a value that does not fit), \<open>Some\<close> for a defined run.
  The platform is the one the Makefile targets: Linux on x86-64 with gcc (8-bit signed
  \<open>char\<close>, 32-bit \<open>int\<close>, 64-bit \<open>long\<close>).
\<close>

named_theorems cmem \<open>rewrite rules for checked memory access\<close>
named_theorems carith \<open>rewrite rules for C integer arithmetic\<close>
named_theorems cfmt \<open>rewrite rules for formatted text\<close>

type_synonym mem = "char list"

abbreviation NUL :: char where "NUL \<equiv> CHR 0x00"
abbreviation NL :: char where "NL \<equiv> CHR 0x0A"
abbreviation CR :: char where "CR \<equiv> CHR 0x0D"
abbreviation TAB :: char where "TAB \<equiv> CHR 0x09"
abbreviation SPC :: char where "SPC \<equiv> CHR 0x20"
abbreviation DQ :: char where "DQ \<equiv> CHR 0x22"

section \<open>Array objects\<close>

definition rd :: "'a list \<Rightarrow> int \<Rightarrow> 'a option" where
  "rd m i = (if 0 \<le> i \<and> i < int (length m) then Some (m ! nat i) else None)"

definition wr :: "'a list \<Rightarrow> int \<Rightarrow> 'a \<Rightarrow> 'a list option" where
  "wr m i x = (if 0 \<le> i \<and> i < int (length m) then Some (m[nat i := x]) else None)"

lemma rd_nat [cmem]: "i < length m \<Longrightarrow> rd m (int i) = Some (m ! i)"
  by (simp add: rd_def)

lemma rd_neg [cmem]: "i < 0 \<Longrightarrow> rd m i = None"
  by (simp add: rd_def)

lemma rd_beyond [cmem]: "int (length m) \<le> i \<Longrightarrow> rd m i = None"
  by (simp add: rd_def)

lemma wr_nat [cmem]: "i < length m \<Longrightarrow> wr m (int i) x = Some (m[i := x])"
  by (simp add: wr_def)

lemma wr_beyond [cmem]: "int (length m) \<le> i \<Longrightarrow> wr m i x = None"
  by (simp add: wr_def)

lemma rd_Some_iff: "rd m i = Some x \<longleftrightarrow> 0 \<le> i \<and> i < int (length m) \<and> m ! nat i = x"
  by (auto simp: rd_def)

lemma wr_Some_iff: "wr m i x = Some m' \<longleftrightarrow> 0 \<le> i \<and> i < int (length m) \<and> m' = m[nat i := x]"
  by (auto simp: wr_def)

lemma wr_length: "wr m i x = Some m' \<Longrightarrow> length m' = length m"
  by (auto simp: wr_Some_iff)

lemma rd_append_left [cmem]: "i < length xs \<Longrightarrow> rd (xs @ ys) (int i) = Some (xs ! i)"
  by (simp add: rd_def nth_append)

lemma rd_append_right [cmem]: "rd (xs @ y # ys) (int (length xs)) = Some y"
  by (simp add: rd_def)

lemma wr_append_right [cmem]: "wr (xs @ y # ys) (int (length xs)) x = Some (xs @ x # ys)"
  by (simp add: wr_def)

section \<open>C strings inside array objects\<close>

text \<open>The C string that starts at an offset: the characters up to the first NUL, which must
  lie inside the object.\<close>

definition cstr :: "mem \<Rightarrow> nat \<Rightarrow> string option" where
  "cstr m i = (if i \<le> length m \<and> NUL \<in> set (drop i m)
               then Some (takeWhile (\<lambda>c. c \<noteq> NUL) (drop i m)) else None)"

definition nul_free :: "string \<Rightarrow> bool" where
  "nul_free s \<longleftrightarrow> NUL \<notin> set s"

lemma nul_free_simps [simp]:
  "nul_free []"
  "nul_free (c # s) \<longleftrightarrow> c \<noteq> NUL \<and> nul_free s"
  "nul_free (s @ t) \<longleftrightarrow> nul_free s \<and> nul_free t"
  by (auto simp: nul_free_def)

lemma nul_free_take [intro]: "nul_free s \<Longrightarrow> nul_free (take n s)"
  by (auto simp: nul_free_def dest: in_set_takeD)

lemma nul_free_takeWhile [simp]: "nul_free (takeWhile (\<lambda>c. c \<noteq> NUL) s)"
  by (auto simp: nul_free_def dest: set_takeWhileD)

lemma takeWhile_nul_free: "nul_free s \<Longrightarrow> takeWhile (\<lambda>c. c \<noteq> NUL) (s @ NUL # r) = s"
  by (induction s) auto

lemma takeWhile_nul_free_id: "nul_free s \<Longrightarrow> takeWhile (\<lambda>c. c \<noteq> NUL) s = s"
  by (induction s) auto

lemma cstr_append [cmem]: "nul_free s \<Longrightarrow> cstr (pre @ s @ NUL # post) (length pre) = Some s"
  by (simp add: cstr_def takeWhile_nul_free)

lemma cstr_start [cmem]: "nul_free s \<Longrightarrow> cstr (s @ NUL # post) 0 = Some s"
  using cstr_append [of s "[]" post] by simp

lemma cstr_nul_free: "cstr m i = Some s \<Longrightarrow> nul_free s"
  by (auto simp: cstr_def split: if_splits)

text \<open>A string of an array object splits the object around it.\<close>

lemma cstr_split:
  assumes "cstr m i = Some s"
  obtains pre post where "m = pre @ s @ NUL # post" "length pre = i" "nul_free s"
proof -
  let ?d = "drop i m"
  from assms have i: "i \<le> length m" and nul: "NUL \<in> set ?d"
    and s: "s = takeWhile (\<lambda>c. c \<noteq> NUL) ?d"
    by (auto simp: cstr_def split: if_splits)
  from nul have ne: "dropWhile (\<lambda>c. c \<noteq> NUL) ?d \<noteq> []" by (auto simp: dropWhile_eq_Nil_conv)
  then have "hd (dropWhile (\<lambda>c. c \<noteq> NUL) ?d) = NUL" using hd_dropWhile by blast
  with ne obtain post where "dropWhile (\<lambda>c. c \<noteq> NUL) ?d = NUL # post"
    by (metis list.collapse)
  then have "?d = s @ NUL # post" using s by (metis takeWhile_dropWhile_id)
  then have "m = take i m @ s @ NUL # post" by (metis append_take_drop_id)
  moreover have "length (take i m) = i" using i by simp
  ultimately show thesis using that s nul_free_takeWhile by blast
qed

section \<open>C integers\<close>

text \<open>Division and remainder truncate towards zero.\<close>

definition cdiv :: "int \<Rightarrow> int \<Rightarrow> int" where
  "cdiv a b = sgn a * sgn b * (\<bar>a\<bar> div \<bar>b\<bar>)"

definition cmod :: "int \<Rightarrow> int \<Rightarrow> int" where
  "cmod a b = a - b * cdiv a b"

lemma cdiv_nonneg [carith]: "0 \<le> a \<Longrightarrow> 0 < b \<Longrightarrow> cdiv a b = a div b"
  by (cases "a = 0") (simp_all add: cdiv_def)

lemma cmod_nonneg [carith]: "0 \<le> a \<Longrightarrow> 0 < b \<Longrightarrow> cmod a b = a mod b"
  by (simp add: cmod_def cdiv_nonneg minus_mult_div_eq_mod)

lemma cdiv_cmod: "b * cdiv a b + cmod a b = a"
  by (simp add: cmod_def)

lemma cmod_abs_bound: "0 < b \<Longrightarrow> \<bar>cmod a b\<bar> < b"
proof (cases "a \<ge> 0")
  case True
  assume "0 < b"
  with True show ?thesis by (simp add: cmod_nonneg)
next
  case False
  assume b: "0 < b"
  with False have "cmod a b = - ((- a) mod b)"
    by (simp add: cmod_def cdiv_def minus_mult_div_eq_mod [symmetric])
  with b show ?thesis by simp
qed

text \<open>Conversion to a signed type of the given width keeps the low bits.\<close>

definition to_signed :: "nat \<Rightarrow> int \<Rightarrow> int" where
  "to_signed w x = (x + 2 ^ (w - 1)) mod 2 ^ w - 2 ^ (w - 1)"

abbreviation to_i32 :: "int \<Rightarrow> int" where "to_i32 \<equiv> to_signed 32"
abbreviation to_i64 :: "int \<Rightarrow> int" where "to_i64 \<equiv> to_signed 64"

lemma to_i32_id [carith]: "- (2 ^ 31) \<le> x \<Longrightarrow> x < 2 ^ 31 \<Longrightarrow> to_i32 x = x"
  by (simp add: to_signed_def)

lemma to_i32_range: "- (2 ^ 31) \<le> to_i32 x \<and> to_i32 x < 2 ^ 31"
proof -
  have "0 \<le> (x + 2 ^ 31) mod 2 ^ 32" "(x + 2 ^ 31) mod 2 ^ 32 < 2 ^ 32" by simp_all
  then show ?thesis by (simp add: to_signed_def)
qed

end
