(* ===== verification/CLib.thy ===== *)
theory CLib
  imports Prelude
begin

text \<open>
  The functions of the C standard library that the program calls, on strings without NUL
  (\<open>string\<close>) where the code uses a pointer to a string, and on array objects
  (\<open>mem\<close> with an offset) where the code depends on the layout: classification and
  comparison, decimal and hexadecimal output, \<open>strtol\<close>-style input, line input,
  \<open>strsep\<close> and \<open>strtok_r\<close>. The lemmas are the round trips and bounds the components use.
\<close>

section \<open>Character classes and comparison\<close>

definition isspace :: "char \<Rightarrow> bool" where
  "isspace c \<longleftrightarrow> c \<in> {SPC, TAB, NL, CHR 0x0B, CHR 0x0C, CR}"

definition isdigit :: "char \<Rightarrow> bool" where
  "isdigit c \<longleftrightarrow> 48 \<le> (of_char c :: nat) \<and> (of_char c :: nat) \<le> 57"

text \<open>\<open>strncmp(s, lit, strlen(lit)) == 0\<close>.\<close>

definition starts :: "string \<Rightarrow> string \<Rightarrow> bool" where
  "starts lit s \<longleftrightarrow> take (length lit) s = lit"

lemma starts_append [simp]: "starts lit (lit @ s)"
  by (simp add: starts_def)

lemma starts_iff: "starts lit s \<longleftrightarrow> (\<exists>r. s = lit @ r)"
  by (auto simp: starts_def) (metis append_take_drop_id)

text \<open>\<open>strstr(hay, needle)\<close>: the offset of the first occurrence.\<close>

fun strstr :: "string \<Rightarrow> string \<Rightarrow> nat option" where
  "strstr [] needle = (if needle = [] then Some 0 else None)"
| "strstr (c # hay) needle =
     (if starts needle (c # hay) then Some 0 else map_option Suc (strstr hay needle))"

lemma strstr_None: "strstr hay needle = None \<longleftrightarrow> \<not> (\<exists>pre post. hay = pre @ needle @ post)"
proof (induction hay)
  case Nil
  show ?case by auto
next
  case (Cons c hay)
  show ?case
  proof (cases "starts needle (c # hay)")
    case True
    then obtain r where r: "c # hay = needle @ r" by (auto simp: starts_iff)
    then have "c # hay = [] @ needle @ r" by simp
    with True show ?thesis by (metis option.distinct(1) strstr.simps(2))
  next
    case False
    have "(\<exists>pre post. c # hay = pre @ needle @ post) \<longleftrightarrow> (\<exists>pre post. hay = pre @ needle @ post)"
    proof
      assume "\<exists>pre post. c # hay = pre @ needle @ post"
      then obtain pre post where e: "c # hay = pre @ needle @ post" by blast
      with False have "pre \<noteq> []" by (auto simp: starts_iff)
      with e show "\<exists>pre post. hay = pre @ needle @ post"
        by (metis append_Cons list.exhaust list.inject)
    next
      assume "\<exists>pre post. hay = pre @ needle @ post"
      then obtain pre post where "hay = pre @ needle @ post" by blast
      then have "c # hay = (c # pre) @ needle @ post" by simp
      then show "\<exists>pre post. c # hay = pre @ needle @ post" by blast
    qed
    with False Cons.IH show ?thesis by simp
  qed
qed

lemma strstr_Some: "strstr hay needle = Some k \<Longrightarrow> k \<le> length hay \<and> starts needle (drop k hay)"
  by (induction hay arbitrary: k) (auto simp: starts_def split: if_splits)

text \<open>\<open>snprintf(buf, n, "%s", s)\<close> stores at most \<open>n - 1\<close> characters.\<close>

definition snprintf_s :: "nat \<Rightarrow> string \<Rightarrow> string" where
  "snprintf_s n s = take (n - 1) s"

lemma snprintf_s_length: "0 < n \<Longrightarrow> length (snprintf_s n s) < n"
  by (simp add: snprintf_s_def)

lemma snprintf_s_id [simp]: "length s < n \<Longrightarrow> snprintf_s n s = s"
  by (simp add: snprintf_s_def)

lemma snprintf_s_nul_free [simp]: "nul_free s \<Longrightarrow> nul_free (snprintf_s n s)"
  by (auto simp: snprintf_s_def)

text \<open>\<open>sprintf(buf, ...)\<close> into an array of \<open>n\<close> bytes is undefined when the text does not fit;
  \<open>strncpy(buf, s, n)\<close> stores at most \<open>n\<close> characters (and no terminator when it stores \<open>n\<close>).\<close>

definition sprintf_s :: "nat \<Rightarrow> string \<Rightarrow> string option" where
  "sprintf_s n s = (if length s < n then Some s else None)"

definition strncpy_s :: "nat \<Rightarrow> string \<Rightarrow> string" where
  "strncpy_s n s = take n s"

lemma sprintf_s_fits [simp]: "length s < n \<Longrightarrow> sprintf_s n s = Some s"
  by (simp add: sprintf_s_def)

lemma sprintf_s_None: "sprintf_s n s = None \<longleftrightarrow> n \<le> length s"
  by (simp add: sprintf_s_def)

lemma strncpy_s_id [simp]: "length s \<le> n \<Longrightarrow> strncpy_s n s = s"
  by (simp add: strncpy_s_def)

section \<open>Decimal and hexadecimal output\<close>

definition digit :: "nat \<Rightarrow> char" where
  "digit n = char_of (48 + n)"

fun show_nat :: "nat \<Rightarrow> string" where
  "show_nat n = (if n < 10 then [digit n] else show_nat (n div 10) @ [digit (n mod 10)])"

declare show_nat.simps [simp del]

text \<open>\<open>%d\<close> (and \<open>%ld\<close>), \<open>%02d\<close>, and a right-aligned field such as \<open>%4ld\<close>.\<close>

definition fmt_d :: "int \<Rightarrow> string" where
  "fmt_d i = (if i < 0 then ''-'' @ show_nat (nat (- i)) else show_nat (nat i))"

definition pad_left :: "char \<Rightarrow> nat \<Rightarrow> string \<Rightarrow> string" where
  "pad_left c w s = replicate (w - length s) c @ s"

definition fmt_0d :: "nat \<Rightarrow> int \<Rightarrow> string" where
  "fmt_0d w i = (if i < 0 then ''-'' @ pad_left (CHR ''0'') (w - 1) (show_nat (nat (- i)))
                 else pad_left (CHR ''0'') w (show_nat (nat i)))"

definition fmt_wd :: "nat \<Rightarrow> int \<Rightarrow> string" where
  "fmt_wd w i = pad_left SPC w (fmt_d i)"

text \<open>\<open>%02x\<close> of a byte.\<close>

definition hexdigit :: "nat \<Rightarrow> char" where
  "hexdigit n = (if n < 10 then char_of (48 + n) else char_of (87 + n))"

definition fmt_02x :: "8 word \<Rightarrow> string" where
  "fmt_02x b = [hexdigit (unat b div 16), hexdigit (unat b mod 16)]"

lemma digit_of_char: "n < 10 \<Longrightarrow> of_char (digit n) = 48 + n"
  by (simp add: digit_def)

lemma isdigit_digit [simp]: "n < 10 \<Longrightarrow> isdigit (digit n)"
  by (simp add: isdigit_def digit_of_char)

lemma show_nat_nonempty [simp]: "show_nat n \<noteq> []"
  by (subst show_nat.simps) simp

lemma show_nat_digits: "\<forall>c \<in> set (show_nat n). isdigit c"
proof (induction n rule: show_nat.induct)
  case (1 n)
  then show ?case by (subst show_nat.simps) auto
qed

lemma isdigit_not_NUL: "isdigit c \<Longrightarrow> c \<noteq> NUL"
  by (auto simp: isdigit_def)

lemma show_nat_nul_free [simp]: "nul_free (show_nat n)"
  using show_nat_digits isdigit_not_NUL by (auto simp: nul_free_def)

lemma fmt_d_nul_free [simp]: "nul_free (fmt_d i)"
  by (simp add: fmt_d_def)

lemma pad_left_nul_free [simp]: "c \<noteq> NUL \<Longrightarrow> nul_free s \<Longrightarrow> nul_free (pad_left c w s)"
  by (auto simp: pad_left_def nul_free_def)

lemma fmt_0d_nul_free [simp]: "nul_free (fmt_0d w i)"
  by (simp add: fmt_0d_def)

lemma length_pad_left: "length (pad_left c w s) = max w (length s)"
  by (simp add: pad_left_def)

section \<open>Integer input\<close>

definition digit_val :: "char \<Rightarrow> nat" where
  "digit_val c = of_char c - 48"

fun digits_val :: "nat \<Rightarrow> string \<Rightarrow> nat" where
  "digits_val acc [] = acc"
| "digits_val acc (c # cs) = digits_val (10 * acc + digit_val c) cs"

text \<open>
  The common core of \<open>strtol\<close>, \<open>strtoull\<close>, \<open>atoi\<close> and \<open>sscanf\<close> with \<open>%d\<close>: leading
  blanks are skipped, a sign is optional, and the longest run of digits is converted. The
  three outcomes are the ones \<open>sscanf\<close> distinguishes.
\<close>

datatype scan = Scan_Eof | Scan_Fail | Scan_Ok int string

definition scan_digits :: "int \<Rightarrow> string \<Rightarrow> scan" where
  "scan_digits sign s =
     (let ds = takeWhile isdigit s in
      if ds = [] then Scan_Fail
      else Scan_Ok (sign * int (digits_val 0 ds)) (dropWhile isdigit s))"

definition scan_int :: "string \<Rightarrow> scan" where
  "scan_int s =
     (case dropWhile isspace s of
        [] \<Rightarrow> Scan_Eof
      | c # cs \<Rightarrow>
          if c = CHR ''-'' then scan_digits (- 1) cs
          else if c = CHR ''+'' then scan_digits 1 cs
          else scan_digits 1 (c # cs))"

definition clamp_i64 :: "int \<Rightarrow> int" where
  "clamp_i64 x = max (- (2 ^ 63)) (min (2 ^ 63 - 1) x)"

definition strtol :: "string \<Rightarrow> int" where
  "strtol s = (case scan_int s of Scan_Ok n _ \<Rightarrow> clamp_i64 n | _ \<Rightarrow> 0)"

text \<open>\<open>atoi\<close> is \<open>strtol\<close> converted to \<open>int\<close>, \<open>atoll\<close> is \<open>strtol\<close> at 64 bits.\<close>

definition atoi :: "string \<Rightarrow> int" where
  "atoi s = to_i32 (strtol s)"

definition atoll :: "string \<Rightarrow> int" where
  "atoll s = strtol s"

text \<open>\<open>strtoull\<close>: the magnitude saturates, a minus sign negates modulo \<open>2 ^ 64\<close>.\<close>

definition strtoull :: "string \<Rightarrow> 64 word" where
  "strtoull s = (case scan_int s of
       Scan_Ok n _ \<Rightarrow> (if \<bar>n\<bar> \<ge> 2 ^ 64 then - 1 else word_of_int n)
     | _ \<Rightarrow> 0)"

lemma digits_val_append: "digits_val acc (s @ [c]) = 10 * digits_val acc s + digit_val c"
  by (induction s arbitrary: acc) auto

lemma digit_val_digit: "n < 10 \<Longrightarrow> digit_val (digit n) = n"
  by (simp add: digit_val_def digit_of_char)

lemma digits_val_show_nat: "digits_val 0 (show_nat n) = n"
proof (induction n rule: show_nat.induct)
  case (1 n)
  show ?case
  proof (cases "n < 10")
    case True
    then show ?thesis by (subst show_nat.simps) (simp add: digit_val_digit)
  next
    case False
    with 1 have "digits_val 0 (show_nat (n div 10)) = n div 10" by simp
    with False show ?thesis
      by (subst show_nat.simps) (simp add: digits_val_append digit_val_digit)
  qed
qed

lemma takeWhile_show_nat:
  "(\<forall>c r'. r = c # r' \<longrightarrow> \<not> isdigit c) \<Longrightarrow> takeWhile isdigit (show_nat n @ r) = show_nat n"
  using show_nat_digits [of n] by (cases r) (auto simp: takeWhile_append)

lemma dropWhile_show_nat:
  "(\<forall>c r'. r = c # r' \<longrightarrow> \<not> isdigit c) \<Longrightarrow> dropWhile isdigit (show_nat n @ r) = r"
  using show_nat_digits [of n] by (cases r) (auto simp: dropWhile_append)

lemma show_nat_Cons: "\<exists>c cs. show_nat n = c # cs \<and> isdigit c"
proof -
  obtain c cs where "show_nat n = c # cs" using show_nat_nonempty by (cases "show_nat n") blast+
  moreover then have "isdigit c" using show_nat_digits [of n] by auto
  ultimately show ?thesis by blast
qed

lemma isdigit_not_isspace: "isdigit c \<Longrightarrow> \<not> isspace c"
  by (auto simp: isdigit_def isspace_def)

lemma isdigit_not_sign: "isdigit c \<Longrightarrow> c \<noteq> CHR ''-'' \<and> c \<noteq> CHR ''+''"
  by (auto simp: isdigit_def)

text \<open>Reading back a printed integer gives the integer.\<close>

text \<open>The length of a printed number.\<close>

lemma show_nat_short: "n < 10 ^ k \<Longrightarrow> 0 < k \<Longrightarrow> length (show_nat n) \<le> k"
proof (induction k arbitrary: n)
  case (Suc k)
  show ?case
  proof (cases "n < 10")
    case True
    then show ?thesis by (simp add: show_nat.simps)
  next
    case False
    then have "0 < k" using Suc.prems(1) by (cases k) auto
    moreover have "n div 10 < 10 ^ k" using Suc.prems(1) by (simp add: less_mult_imp_div_less mult.commute)
    ultimately have "length (show_nat (n div 10)) \<le> k" using Suc.IH by blast
    with False show ?thesis by (subst show_nat.simps) simp
  qed
qed simp

lemma fmt_d_short: "- (2 ^ 31) \<le> i \<Longrightarrow> i < 2 ^ 31 \<Longrightarrow> length (fmt_d i) \<le> 11"
proof -
  assume i: "- (2 ^ 31) \<le> i" "i < 2 ^ 31"
  then have "nat i < 10 ^ 10" "nat (- i) < 10 ^ 10" by simp_all
  then have "length (show_nat (nat i)) \<le> 10" "length (show_nat (nat (- i))) \<le> 10"
    by (auto intro: show_nat_short)
  then show ?thesis by (simp add: fmt_d_def)
qed

lemma scan_int_fmt_d:
  assumes r: "\<forall>c r'. r = c # r' \<longrightarrow> \<not> isdigit c"
  shows "scan_int (fmt_d i @ r) = Scan_Ok i r"
proof (cases "i < 0")
  case True
  then have "fmt_d i @ r = CHR ''-'' # (show_nat (nat (- i)) @ r)" by (simp add: fmt_d_def)
  then have "scan_int (fmt_d i @ r) = scan_digits (- 1) (show_nat (nat (- i)) @ r)"
    by (simp add: scan_int_def isspace_def)
  also have "\<dots> = Scan_Ok i r"
    using True by (simp add: scan_digits_def takeWhile_show_nat [OF r] dropWhile_show_nat [OF r]
      digits_val_show_nat)
  finally show ?thesis .
next
  case False
  obtain c cs where c: "show_nat (nat i) = c # cs" "isdigit c" using show_nat_Cons by blast
  then have "scan_int (show_nat (nat i) @ r) = scan_digits 1 (show_nat (nat i) @ r)"
    by (simp add: scan_int_def isdigit_not_isspace isdigit_not_sign)
  also have "\<dots> = Scan_Ok i r"
    using False by (simp add: scan_digits_def takeWhile_show_nat [OF r] dropWhile_show_nat [OF r]
      digits_val_show_nat)
  finally show ?thesis using False by (simp add: fmt_d_def)
qed

lemma strtol_fmt_d: "- (2 ^ 63) \<le> i \<Longrightarrow> i < 2 ^ 63 \<Longrightarrow> strtol (fmt_d i) = i"
  using scan_int_fmt_d [of "[]" i] by (simp add: strtol_def clamp_i64_def)

lemma atoi_fmt_d: "- (2 ^ 31) \<le> i \<Longrightarrow> i < 2 ^ 31 \<Longrightarrow> atoi (fmt_d i) = i"
  by (simp add: atoi_def strtol_fmt_d to_i32_id)

section \<open>Line input\<close>

text \<open>
  \<open>BUFSIZ\<close> of glibc. \<open>fgets(buf, n, fp)\<close> stores the characters up to and including the next
  newline, at most \<open>n - 1\<close> of them; it returns \<open>NULL\<close> when nothing is left to read.
\<close>

definition BUFSIZ :: nat where
  "BUFSIZ = 8192"

fun take_line :: "nat \<Rightarrow> string \<Rightarrow> string" where
  "take_line 0 s = []"
| "take_line (Suc n) [] = []"
| "take_line (Suc n) (c # cs) = c # (if c = NL then [] else take_line n cs)"

definition fgets :: "nat \<Rightarrow> string \<Rightarrow> (string \<times> string) option" where
  "fgets n s = (let l = take_line (n - 1) s in
                if s = [] then None else Some (l, drop (length l) s))"

text \<open>The lines a loop \<open>while (fgets(buf, n, fp) != NULL)\<close> sees.\<close>

function fgets_all :: "nat \<Rightarrow> string \<Rightarrow> string list" where
  "fgets_all n s = (if n \<le> 1 then [] else
     case fgets n s of None \<Rightarrow> [] | Some (l, rest) \<Rightarrow> l # fgets_all n rest)"
  by pat_completeness auto
termination
proof (relation "measure (\<lambda>(n, s). length s)")
  fix n s x l rest
  assume "\<not> n \<le> (1::nat)" and "fgets n s = Some x" and "(l, rest) = x"
  then show "((n, rest), (n, s)) \<in> measure (\<lambda>(n, s). length s)"
    by (cases "n - 1"; cases s) (auto simp: fgets_def Let_def)
qed simp

declare fgets_all.simps [simp del]

lemma take_line_prefix: "take_line n s @ drop (length (take_line n s)) s = s"
  by (induction n s rule: take_line.induct) auto

lemma take_line_length: "length (take_line n s) \<le> n"
  by (induction n s rule: take_line.induct) auto

lemma fgets_concat: "fgets n s = Some (l, rest) \<Longrightarrow> l @ rest = s"
  by (auto simp: fgets_def Let_def take_line_prefix split: if_splits)

text \<open>No character of the input is lost or duplicated by the loop.\<close>

lemma fgets_all_concat: "1 < n \<Longrightarrow> concat (fgets_all n s) = s"
proof (induction n s rule: fgets_all.induct)
  case (1 n s)
  show ?case
  proof (cases "fgets n s")
    case None
    then have "s = []" by (simp add: fgets_def Let_def split: if_splits)
    with None show ?thesis by (subst fgets_all.simps) simp
  next
    case (Some p)
    obtain l rest where p: "p = (l, rest)" by fastforce
    with Some have "fgets_all n s = l # fgets_all n rest" using "1.prems"
      by (subst fgets_all.simps) simp
    moreover have "concat (fgets_all n rest) = rest" using 1 Some p by simp
    ultimately show ?thesis using fgets_concat Some p by fastforce
  qed
qed

lemma fgets_all_Nil [simp]: "fgets_all n [] = []"
  by (subst fgets_all.simps) (simp add: fgets_def)

lemma fgets_all_length: "1 < n \<Longrightarrow> l \<in> set (fgets_all n s) \<Longrightarrow> length l < n"
proof (induction n s rule: fgets_all.induct)
  case (1 n s)
  obtain l' r where f: "fgets n s = Some (l', r)" "l = l' \<or> l \<in> set (fgets_all n r)"
  proof (cases "fgets n s")
    case None
    then have "fgets_all n s = []" using "1.prems"(1) by (subst fgets_all.simps) simp
    with "1.prems"(2) show ?thesis by simp
  next
    case (Some x)
    obtain l' r where x: "x = (l', r)" by fastforce
    with Some have "fgets_all n s = l' # fgets_all n r"
      using "1.prems"(1) by (subst fgets_all.simps) simp
    with Some x "1.prems"(2) that [of l' r] show ?thesis by simp
  qed
  have "length l' < n"
    using f(1) take_line_length [of "n - 1" s] "1.prems"(1) by (auto simp: fgets_def Let_def split: if_splits)
  with f 1 show ?case by auto
qed

lemma take_line_newline:
  "NL \<notin> set l \<Longrightarrow> length l < n \<Longrightarrow> take_line n (l @ NL # rest) = l @ [NL]"
proof (induction l arbitrary: n)
  case Nil
  then show ?case by (cases n) auto
next
  case (Cons c l)
  then show ?case by (cases n) auto
qed

text \<open>A text of lines that fit the buffer is read line by line.\<close>

lemma fgets_all_lines:
  assumes "1 < n"
  shows "\<forall>l \<in> set ls. NL \<notin> set l \<and> length l + 1 < n \<Longrightarrow>
    fgets_all n (concat (map (\<lambda>l. l @ [NL]) ls)) = map (\<lambda>l. l @ [NL]) ls"
proof (induction ls)
  case Nil
  then show ?case by simp
next
  case (Cons l ls)
  let ?rest = "concat (map (\<lambda>l. l @ [NL]) ls)"
  have "take_line (n - 1) (l @ NL # ?rest) = l @ [NL]"
    using Cons.prems by (intro take_line_newline) auto
  then have "fgets n (l @ NL # ?rest) = Some (l @ [NL], ?rest)"
    by (simp add: fgets_def)
  then have "fgets_all n (l @ NL # ?rest) = (l @ [NL]) # fgets_all n ?rest"
    using assms by (subst fgets_all.simps) simp
  with Cons show ?case by simp
qed

section \<open>Splitting strings in place\<close>

text \<open>
  \<open>strsep(&p, "|")\<close>: \<open>p\<close> is an offset or \<open>NULL\<close>. The next delimiter is overwritten
  with NUL and \<open>p\<close> advanced past it, or set to \<open>NULL\<close> when the string has no more delimiter.
\<close>

fun index_of :: "char \<Rightarrow> string \<Rightarrow> nat option" where
  "index_of d [] = None"
| "index_of d (c # cs) = (if c = d then Some 0 else map_option Suc (index_of d cs))"

definition strsep :: "char \<Rightarrow> mem \<Rightarrow> nat \<Rightarrow> (mem \<times> nat option) option" where
  "strsep d m p = do {
     s \<leftarrow> cstr m p;
     (case index_of d s of
        None \<Rightarrow> Some (m, None)
      | Some k \<Rightarrow> Some (m[p + k := NUL], Some (p + k + 1)))
   }"

text \<open>
  \<open>strtok_r(str, ",", &save)\<close> with a one-character delimiter: \<open>p\<close> is where the scan
  starts (\<open>str\<close>, or the saved position when \<open>str\<close> is \<open>NULL\<close>). The result is the object,
  the offset of the token (\<open>None\<close>: \<open>NULL\<close> is returned) and the new saved position.
\<close>

definition strtok_r :: "char \<Rightarrow> mem \<Rightarrow> nat \<Rightarrow> (mem \<times> nat option \<times> nat) option" where
  "strtok_r d m p = do {
     s \<leftarrow> cstr m p;
     let k = length (takeWhile (\<lambda>c. c = d) s);
     let t = drop k s;
     if t = [] then Some (m, None, p + k)
     else (case index_of d t of
             None \<Rightarrow> Some (m, Some (p + k), p + length s)
           | Some j \<Rightarrow> Some (m[p + k + j := NUL], Some (p + k), p + k + j + 1))
   }"

lemma index_of_bound: "index_of d s = Some k \<Longrightarrow> k < length s"
  by (induction s arbitrary: k) (auto split: if_splits)

lemma index_of_Some:
  "index_of d s = Some k \<Longrightarrow> s ! k = d \<and> d \<notin> set (take k s)"
  by (induction s arbitrary: k) (auto split: if_splits)

lemma index_of_None: "index_of d s = None \<longleftrightarrow> d \<notin> set s"
  by (induction s) auto

lemma index_of_append [simp]: "d \<notin> set s \<Longrightarrow> index_of d (s @ d # r) = Some (length s)"
  by (induction s) auto

end
