(* ===== verification/Util.thy ===== *)
theory Util
  imports CLib
begin

text \<open>
  \<open>util.c\<close>: the in-place \<open>trim\<close> that every parser of the program applies to the lines it
  reads. The model works on the array object that contains the string, with a signed cursor,
  so that reads and writes outside the object show up as \<open>None\<close>. The functional result is
  \<open>strip\<close>; the lemmas give it with the frame (what \<open>trim\<close> leaves alone), and the
  exact condition under which the cursor runs below the start of the string.
\<close>

section \<open>The model\<close>

text \<open>The blanks skipped at the front, and those cut at the end.\<close>

definition lead_blank :: "char \<Rightarrow> bool" where
  "lead_blank c \<longleftrightarrow> c = SPC \<or> c = TAB"

definition tail_blank :: "char \<Rightarrow> bool" where
  "tail_blank c \<longleftrightarrow> c = SPC \<or> c = NL \<or> c = CR \<or> c = TAB"

text \<open>\<open>while ((*p == ' ') || (*p == '\t')) { start++; p++; }\<close>\<close>

function skip_lead :: "mem \<Rightarrow> int \<Rightarrow> int option" where
  "skip_lead m p = (case rd m p of
      None \<Rightarrow> None
    | Some c \<Rightarrow> if lead_blank c then skip_lead m (p + 1) else Some p)"
  by pat_completeness auto
termination
  by (relation "measure (\<lambda>(m, p). nat (int (length m) - p))") (auto simp: rd_Some_iff)

text \<open>\<open>while (*p) { *(p - start) = *p; p++; }\<close>\<close>

function shift_down :: "mem \<Rightarrow> int \<Rightarrow> int \<Rightarrow> (mem \<times> int) option" where
  "shift_down m start p = (case rd m p of
      None \<Rightarrow> None
    | Some c \<Rightarrow>
        if c = NUL then Some (m, p)
        else (case wr m (p - start) c of
                None \<Rightarrow> None
              | Some m' \<Rightarrow> shift_down m' start (p + 1)))"
  by pat_completeness auto
termination
  by (relation "measure (\<lambda>(m, start, p). nat (int (length m) - p))")
    (auto simp: rd_Some_iff dest: wr_length)

text \<open>\<open>while (*p) p++;\<close>\<close>

function find_nul :: "mem \<Rightarrow> int \<Rightarrow> int option" where
  "find_nul m p = (case rd m p of
      None \<Rightarrow> None
    | Some c \<Rightarrow> if c = NUL then Some p else find_nul m (p + 1))"
  by pat_completeness auto
termination
  by (relation "measure (\<lambda>(m, p). nat (int (length m) - p))") (auto simp: rd_Some_iff)

text \<open>\<open>while (blank(*p)) { *p = 0; p--; }\<close>\<close>

function cut_tail :: "mem \<Rightarrow> int \<Rightarrow> mem option" where
  "cut_tail m p = (case rd m p of
      None \<Rightarrow> None
    | Some c \<Rightarrow>
        if tail_blank c
        then (case wr m p NUL of None \<Rightarrow> None | Some m' \<Rightarrow> cut_tail m' (p - 1))
        else Some m)"
  by pat_completeness auto
termination
  by (relation "measure (\<lambda>(m, p). nat (p + 1))") (auto simp: rd_Some_iff)

definition trim :: "mem \<Rightarrow> nat \<Rightarrow> mem option" where
  "trim m string = do {
     p \<leftarrow> skip_lead m (int string);
     let start = p - int string;
     (m, p) \<leftarrow> (if start \<noteq> 0
       then do {
         (m, p) \<leftarrow> shift_down m start p;
         m \<leftarrow> wr m (p - start) NUL;
         Some (m, p)
       }
       else do {
         p \<leftarrow> find_nul m p;
         Some (m, p)
       });
     cut_tail m (p - (start + 1))
   }"

declare skip_lead.simps [simp del] shift_down.simps [simp del]
  find_nul.simps [simp del] cut_tail.simps [simp del]

text \<open>\<open>trim\<close> keeps the size of the object.\<close>

lemma shift_down_length: "shift_down m st p = Some (m', p') \<Longrightarrow> length m' = length m"
  by (induction m st p rule: shift_down.induct)
    (subst (asm) (2) shift_down.simps, auto split: option.splits if_splits dest: wr_length)

lemma cut_tail_length: "cut_tail m p = Some m' \<Longrightarrow> length m' = length m"
  by (induction m p rule: cut_tail.induct)
    (subst (asm) (2) cut_tail.simps, auto split: option.splits if_splits dest: wr_length)

lemma trim_length: "trim m i = Some m' \<Longrightarrow> length m' = length m"
  by (auto simp: trim_def Let_def split: bind_splits if_splits
      dest!: cut_tail_length shift_down_length wr_length)

section \<open>The functional result\<close>

definition strip_lead :: "string \<Rightarrow> string" where
  "strip_lead s = dropWhile lead_blank s"

definition strip_tail :: "string \<Rightarrow> string" where
  "strip_tail s = rev (dropWhile tail_blank (rev s))"

definition strip :: "string \<Rightarrow> string" where
  "strip s = strip_tail (strip_lead s)"

text \<open>A string of blanks only, on which the backward loop passes the start of the string.\<close>

definition all_blank :: "string \<Rightarrow> bool" where
  "all_blank s \<longleftrightarrow> list_all tail_blank (strip_lead s)"

lemmas strip_eval = all_blank_def strip_def strip_lead_def strip_tail_def lead_blank_def tail_blank_def

lemma strip_tail_append:
  "\<exists>bs. s = strip_tail s @ bs \<and> list_all tail_blank bs"
proof -
  have "rev s = takeWhile tail_blank (rev s) @ dropWhile tail_blank (rev s)" by simp
  then have "s = strip_tail s @ rev (takeWhile tail_blank (rev s))"
    by (metis rev_append rev_rev_ident strip_tail_def)
  moreover have "list_all tail_blank (rev (takeWhile tail_blank (rev s)))"
    by (auto simp: list_all_iff dest: set_takeWhileD)
  ultimately show ?thesis by blast
qed

lemma strip_tail_last: "strip_tail s \<noteq> [] \<Longrightarrow> \<not> tail_blank (last (strip_tail s))"
  unfolding strip_tail_def by (metis hd_dropWhile last_rev rev_is_Nil_conv)

lemma strip_tail_empty: "strip_tail s = [] \<longleftrightarrow> list_all tail_blank s"
  by (auto simp: strip_tail_def dropWhile_eq_Nil_conv list_all_iff)

lemma strip_empty: "strip s = [] \<longleftrightarrow> all_blank s"
  by (simp add: strip_def all_blank_def strip_tail_empty)

lemma strip_lead_append: "\<exists>bs. s = bs @ strip_lead s \<and> list_all lead_blank bs"
  unfolding strip_lead_def
  by (rule exI [of _ "takeWhile lead_blank s"]) (auto simp: list_all_iff dest: set_takeWhileD)

lemma strip_nul_free [simp]: "nul_free s \<Longrightarrow> nul_free (strip s)"
proof -
  assume "nul_free s"
  moreover have "set (strip s) \<subseteq> set s"
    unfolding strip_def strip_tail_def strip_lead_def
    by (auto dest!: set_dropWhileD)
  ultimately show ?thesis by (auto simp: nul_free_def)
qed

lemma strip_length: "length (strip s) \<le> length s"
  unfolding strip_def strip_tail_def strip_lead_def
  by (metis length_dropWhile_le length_rev le_trans)

lemma strip_idem: "strip (strip s) = strip s"
proof (cases "strip s = []")
  case True
  have "strip [] = []" by (simp add: strip_def strip_lead_def strip_tail_def)
  then show ?thesis by (simp only: True)
next
  case False
  obtain bs where bs: "strip_lead s = strip s @ bs" using strip_tail_append strip_def by metis
  with False have "\<not> lead_blank (hd (strip s))"
    unfolding strip_lead_def by (metis append_is_Nil_conv hd_append2 hd_dropWhile)
  then have l: "strip_lead (strip s) = strip s"
    using False by (cases "strip s") (auto simp: strip_lead_def)
  have "\<not> tail_blank (last (strip s))" using False strip_tail_last strip_def by metis
  then have "strip_tail (strip s) = strip s"
    using False by (cases "strip s" rule: rev_cases) (auto simp: strip_tail_def)
  with l show ?thesis by (simp add: strip_def)
qed

section \<open>The four loops\<close>

lemma skip_lead_run:
  "list_all lead_blank bs \<Longrightarrow> \<not> lead_blank c \<Longrightarrow>
   skip_lead (pre @ bs @ c # post) (int (length pre)) = Some (int (length pre + length bs))"
proof (induction bs arbitrary: pre)
  case Nil
  then show ?case by (subst skip_lead.simps) (simp add: cmem)
next
  case (Cons b bs)
  have "skip_lead (pre @ (b # bs) @ c # post) (int (length pre)) =
    skip_lead ((pre @ [b]) @ bs @ c # post) (int (length (pre @ [b])))"
    using Cons.prems by (subst skip_lead.simps) (simp add: cmem add.commute)
  also have "\<dots> = Some (int (length (pre @ [b]) + length bs))"
    using Cons.prems by (intro Cons.IH) auto
  finally show ?case by simp
qed

lemma find_nul_run:
  "nul_free s \<Longrightarrow>
   find_nul (pre @ s @ NUL # post) (int (length pre)) = Some (int (length pre + length s))"
proof (induction s arbitrary: pre)
  case Nil
  then show ?case by (subst find_nul.simps) (simp add: cmem)
next
  case (Cons c s)
  have "find_nul (pre @ (c # s) @ NUL # post) (int (length pre)) =
    find_nul ((pre @ [c]) @ s @ NUL # post) (int (length (pre @ [c])))"
    using Cons.prems by (subst find_nul.simps) (simp add: cmem add.commute)
  also have "\<dots> = Some (int (length (pre @ [c]) + length s))"
    using Cons.prems by (intro Cons.IH) auto
  finally show ?case by simp
qed

text \<open>Moving \<open>s\<close> down over the gap \<open>g\<close>: the gap ends up behind the copy, overwritten.\<close>

lemma shift_down_run:
  "nul_free s \<Longrightarrow> g \<noteq> [] \<Longrightarrow>
   \<exists>g'. length g' = length g \<and>
     shift_down (pre @ g @ s @ NUL # post) (int (length g)) (int (length pre + length g)) =
       Some (pre @ s @ g' @ NUL # post, int (length pre + length g + length s))"
proof (induction s arbitrary: pre g)
  case Nil
  have "rd ((pre @ g) @ NUL # post) (int (length (pre @ g))) = Some NUL" by (rule rd_append_right)
  then show ?case by (subst shift_down.simps) simp
next
  case (Cons c s)
  obtain b g1 where g: "g = b # g1" using Cons.prems by (cases g) auto
  let ?m = "pre @ g @ (c # s) @ NUL # post"
  let ?m' = "(pre @ [c]) @ (g1 @ [c]) @ s @ NUL # post"
  have r: "rd ?m (int (length pre + length g)) = Some c"
    using rd_append_right [of "pre @ g" c "s @ NUL # post"] by simp
  have w: "wr ?m (int (length pre)) c = Some ?m'"
    using wr_append_right [of pre b "g1 @ (c # s) @ NUL # post" c] by (simp add: g)
  have i: "int (length pre + length g) - int (length g) = int (length pre)" by simp
  have j: "int (length pre + length g) + 1 = int (length (pre @ [c]) + length (g1 @ [c]))"
    "int (length g) = int (length (g1 @ [c]))" by (simp_all add: g)
  have "c \<noteq> NUL" using Cons.prems by simp
  then have "shift_down ?m (int (length g)) (int (length pre + length g)) =
    shift_down ?m' (int (length g)) (int (length pre + length g) + 1)"
    by (subst shift_down.simps) (simp only: r w i option.case if_False)
  then have "shift_down ?m (int (length g)) (int (length pre + length g)) =
    shift_down ?m' (int (length (g1 @ [c]))) (int (length (pre @ [c]) + length (g1 @ [c])))"
    by (simp only: j)
  moreover obtain g' where "length g' = length (g1 @ [c])"
    "shift_down ?m' (int (length (g1 @ [c]))) (int (length (pre @ [c]) + length (g1 @ [c]))) =
       Some ((pre @ [c]) @ s @ g' @ NUL # post,
         int (length (pre @ [c]) + length (g1 @ [c]) + length s))"
    using Cons.IH [of "g1 @ [c]" "pre @ [c]"] Cons.prems by auto
  ultimately show ?case by (intro exI [of _ g']) (simp add: g)
qed

lemma cut_tail_stop:
  "\<not> tail_blank c \<Longrightarrow> cut_tail (pre @ c # post) (int (length pre)) = Some (pre @ c # post)"
  by (subst cut_tail.simps) (simp add: cmem)

lemma cut_tail_run:
  "list_all tail_blank bs \<Longrightarrow>
   cut_tail (pre @ bs @ post) (int (length pre + length bs) - 1) =
     cut_tail (pre @ replicate (length bs) NUL @ post) (int (length pre) - 1)"
proof (induction bs arbitrary: post rule: rev_induct)
  case Nil
  show ?case by simp
next
  case (snoc b bs)
  have "cut_tail (pre @ (bs @ [b]) @ post) (int (length pre + length (bs @ [b])) - 1) =
    cut_tail (pre @ bs @ NUL # post) (int (length pre + length bs) - 1)"
    using snoc.prems rd_append_right [of "pre @ bs" b post] wr_append_right [of "pre @ bs" b post NUL]
    by (subst cut_tail.simps) simp
  also have "\<dots> = cut_tail (pre @ replicate (length bs) NUL @ NUL # post) (int (length pre) - 1)"
    using snoc by simp
  finally show ?case by (simp add: replicate_append_same [symmetric] del: replicate_append_same)
qed

lemma cut_tail_below: "cut_tail m (- 1) = None"
  by (subst cut_tail.simps) (simp add: cmem)

section \<open>trim\<close>

lemma lead_not_NUL: "\<not> lead_blank NUL" by (simp add: lead_blank_def)

text \<open>
  Everything before the backward loop: the string is moved to the start of its place, and
  the bytes it leaves behind are some residue \<open>r\<close>.
\<close>

lemma trim_front:
  assumes s: "nul_free s"
  obtains r where "length r = length s - length (strip_lead s)" "last (NUL # r) = NUL"
    "trim (pre @ s @ NUL # post) (length pre) =
       cut_tail (pre @ strip_lead s @ NUL # r @ post)
         (int (length pre + length (strip_lead s)) - 1)"
proof -
  let ?t = "strip_lead s" and ?m = "pre @ s @ NUL # post"
  obtain bs where bs: "s = bs @ ?t" "list_all lead_blank bs" using strip_lead_append by blast
  have nf: "nul_free ?t" using s bs(1) by (metis nul_free_simps(3))
  have "\<exists>c rest. ?t @ NUL # post = c # rest \<and> \<not> lead_blank c"
  proof (cases ?t)
    case Nil
    then show ?thesis by (simp add: lead_not_NUL)
  next
    case (Cons c t)
    then have "\<not> lead_blank c" unfolding strip_lead_def by (metis hd_dropWhile list.distinct(1) list.sel(1))
    with Cons show ?thesis by simp
  qed
  then obtain c rest where c: "?t @ NUL # post = c # rest" "\<not> lead_blank c" by blast
  have m: "?m = pre @ bs @ ?t @ NUL # post" using bs(1) by (metis append.assoc)
  have sk: "skip_lead ?m (int (length pre)) = Some (int (length pre + length bs))"
    using skip_lead_run [OF bs(2) c(2), of pre rest] m c(1) by simp
  show thesis
  proof (cases "bs = []")
    case True
    then have "s = ?t" using bs(1) by simp
    moreover have "trim ?m (length pre) = cut_tail ?m (int (length pre + length s) - 1)"
      using sk True find_nul_run [OF s, of pre post] by (simp add: trim_def)
    ultimately show ?thesis using that [of "[]"] by simp
  next
    case False
    obtain g' where g': "length g' = length bs"
      "shift_down (pre @ bs @ ?t @ NUL # post) (int (length bs)) (int (length pre + length bs)) =
         Some (pre @ ?t @ g' @ NUL # post, int (length pre + length bs + length ?t))"
      using shift_down_run [OF nf False] by blast
    obtain x g1 where g1: "g' = x # g1" using g'(1) False by (cases g') auto
    have w: "wr (pre @ ?t @ g' @ NUL # post) (int (length pre + length ?t)) NUL =
      Some (pre @ ?t @ NUL # (g1 @ [NUL]) @ post)"
      using wr_append_right [of "pre @ ?t" x "g1 @ NUL # post" NUL] by (simp add: g1)
    have "trim ?m (length pre) = cut_tail (pre @ ?t @ NUL # (g1 @ [NUL]) @ post)
      (int (length pre + length ?t) - 1)"
      using False sk [unfolded m] g'(2) w unfolding m
      by (simp add: trim_def Let_def algebra_simps)
    moreover have "length (g1 @ [NUL]) = length s - length ?t"
      using g'(1) g1 arg_cong [OF bs(1), of length] by simp
    moreover have "last (NUL # g1 @ [NUL]) = NUL" by simp
    ultimately show ?thesis using that by blast
  qed
qed

text \<open>
  A string with something to keep: the result is \<open>strip s\<close>, NUL-terminated at the same
  place, and the object before and after the string is untouched. The old terminator stays
  a NUL.
\<close>

lemma trim_strip:
  assumes s: "nul_free s" and nb: "\<not> all_blank s"
  obtains r where "length r = length s - length (strip s)" "last (NUL # r) = NUL"
    "trim (pre @ s @ NUL # post) (length pre) = Some (pre @ strip s @ NUL # r @ post)"
proof -
  let ?t = "strip_lead s"
  obtain r where r: "length r = length s - length ?t" "last (NUL # r) = NUL"
    "trim (pre @ s @ NUL # post) (length pre) =
       cut_tail (pre @ ?t @ NUL # r @ post) (int (length pre + length ?t) - 1)"
    using trim_front [OF s] by blast
  obtain bs where bs: "?t = strip s @ bs" "list_all tail_blank bs"
    using strip_tail_append strip_def by metis
  have ne: "strip s \<noteq> []" using nb by (simp add: strip_empty)
  then obtain u c where u: "strip s = u @ [c]" by (cases "strip s" rule: rev_cases) auto
  then have c: "\<not> tail_blank c" using ne strip_tail_last strip_def by (metis last_snoc)
  let ?z = "replicate (length bs) NUL"
  have "trim (pre @ s @ NUL # post) (length pre) =
    cut_tail ((pre @ strip s) @ bs @ NUL # r @ post) (int (length (pre @ strip s) + length bs) - 1)"
    by (simp add: r(3) bs(1) add.assoc)
  also have "\<dots> = cut_tail ((pre @ strip s) @ ?z @ NUL # r @ post) (int (length (pre @ strip s)) - 1)"
    by (rule cut_tail_run [OF bs(2)])
  also have "\<dots> = Some ((pre @ strip s) @ ?z @ NUL # r @ post)"
    using cut_tail_stop [OF c, of "pre @ u"] by (simp add: u)
  also have "\<dots> = Some (pre @ strip s @ NUL # (?z @ r) @ post)"
    by (simp add: replicate_app_Cons_same)
  finally have "trim (pre @ s @ NUL # post) (length pre) = Some (pre @ strip s @ NUL # (?z @ r) @ post)" .
  moreover have "length (?z @ r) = length s - length (strip s)"
  proof -
    have "length ?t = length (strip s) + length bs" using bs(1) by simp
    moreover have "length ?t \<le> length s" unfolding strip_lead_def by (rule length_dropWhile_le)
    ultimately show ?thesis using r(1) by simp
  qed
  moreover have "last (NUL # ?z @ r) = NUL" using r(2) by (cases r) (auto simp: last_append)
  ultimately show thesis using that by blast
qed

text \<open>
  A blank string: the backward loop does not stop at the start of the string but goes on
  into whatever precedes it.
\<close>

lemma trim_blank:
  assumes s: "nul_free s" and b: "all_blank s"
  obtains r where "length r = length s" "last (NUL # r) = NUL"
    "trim (pre @ s @ NUL # post) (length pre) = cut_tail (pre @ NUL # r @ post) (int (length pre) - 1)"
proof -
  let ?t = "strip_lead s"
  obtain r where r: "length r = length s - length ?t" "last (NUL # r) = NUL"
    "trim (pre @ s @ NUL # post) (length pre) =
       cut_tail (pre @ ?t @ NUL # r @ post) (int (length pre + length ?t) - 1)"
    using trim_front [OF s] by blast
  let ?z = "replicate (length ?t) NUL"
  have "trim (pre @ s @ NUL # post) (length pre) =
    cut_tail (pre @ ?z @ NUL # r @ post) (int (length pre) - 1)"
    using r(3) cut_tail_run [of ?t pre "NUL # r @ post"] b by (simp add: all_blank_def)
  also have "pre @ ?z @ NUL # r @ post = pre @ NUL # (?z @ r) @ post"
    by (simp add: replicate_app_Cons_same)
  finally have "trim (pre @ s @ NUL # post) (length pre) =
    cut_tail (pre @ NUL # (?z @ r) @ post) (int (length pre) - 1)" .
  moreover have "length (?z @ r) = length s"
    using r(1) length_dropWhile_le [of lead_blank s] by (simp add: strip_lead_def)
  moreover have "last (NUL # ?z @ r) = NUL" using r(2) by (cases r) (auto simp: last_append)
  ultimately show thesis using that by blast
qed

section \<open>What callers rely on\<close>

text \<open>
  The callers trim a line buffer that \<open>fgets\<close> has filled: the string starts at the first
  byte of the object, and only the resulting string is used.
\<close>

definition trim_line :: "string \<Rightarrow> string option" where
  "trim_line l = do { m \<leftarrow> trim (l @ [NUL]) 0; cstr m 0 }"

lemma line_split:
  obtains r where "l @ [NUL] = takeWhile (\<lambda>c. c \<noteq> NUL) l @ NUL # r"
proof -
  have "cstr (l @ [NUL]) 0 = Some (takeWhile (\<lambda>c. c \<noteq> NUL) (l @ [NUL]))" by (simp add: cstr_def)
  then obtain pre post where "l @ [NUL] = pre @ takeWhile (\<lambda>c. c \<noteq> NUL) (l @ [NUL]) @ NUL # post"
    "length pre = 0" by (rule cstr_split)
  moreover have "takeWhile (\<lambda>c. c \<noteq> NUL) (l @ [NUL]) = takeWhile (\<lambda>c. c \<noteq> NUL) l"
    by (induction l) auto
  ultimately show thesis using that by simp
qed

lemma trim_line_eq:
  "trim_line l = (let s = takeWhile (\<lambda>c. c \<noteq> NUL) l in
     if all_blank s then None else Some (strip s))"
proof -
  let ?s = "takeWhile (\<lambda>c. c \<noteq> NUL) l"
  obtain r where l: "l @ [NUL] = ?s @ NUL # r" by (rule line_split)
  show ?thesis
  proof (cases "all_blank ?s")
    case True
    with trim_blank [of ?s "[]" r] have "trim (?s @ NUL # r) 0 = None"
      using cut_tail_below by (metis append_Nil diff_0 int_ops(1) list.size(3) nul_free_takeWhile)
    with True show ?thesis by (simp add: trim_line_def l)
  next
    case False
    obtain r' where "trim (?s @ NUL # r) 0 = Some (strip ?s @ NUL # r' @ r)"
      using trim_strip [OF _ False, of "[]" r] by auto
    with False show ?thesis by (simp add: trim_line_def l cmem)
  qed
qed

lemma trim_line_nul_free: "trim_line l = Some s \<Longrightarrow> nul_free s \<and> s \<noteq> []"
  by (auto simp: trim_line_eq Let_def strip_empty split: if_splits)

section \<open>Properties\<close>

text \<open>C29: \<open>trim\<close> on a string that is not blank leaves the stripped string in its place and
  changes nothing of the object before the string or after its terminator.\<close>

theorem trim_correct:
  assumes "cstr m i = Some s" and "\<not> all_blank s"
  shows "\<exists>m'. trim m i = Some m' \<and> cstr m' i = Some (strip s) \<and> length m' = length m \<and>
    take i m' = take i m \<and> drop (i + length s + 1) m' = drop (i + length s + 1) m"
proof -
  obtain pre post where m: "m = pre @ s @ NUL # post" "length pre = i" "nul_free s"
    using cstr_split [OF assms(1)] .
  obtain r where r: "length r = length s - length (strip s)"
    "trim (pre @ s @ NUL # post) (length pre) = Some (pre @ strip s @ NUL # r @ post)"
    using trim_strip [OF m(3) assms(2)] by blast
  have "nul_free (strip s)" using m(3) by simp
  then have "cstr (pre @ strip s @ NUL # r @ post) i = Some (strip s)"
    using cstr_append m(2) by blast
  moreover have "drop (i + length s + 1) (pre @ strip s @ NUL # r @ post) = post"
    using r(1) strip_length [of s] m(2) by (simp add: Suc_diff_le)
  ultimately show ?thesis using r m strip_length [of s] by auto
qed

theorem trim_correct_witness:
  "\<exists>m'. trim (''[  a b '' @ [NL, NUL] @ ''xyz'') 1 = Some m' \<and> cstr m' 1 = Some ''a b'' \<and>
     length m' = 12 \<and> take 1 m' = ''['' \<and> drop 9 m' = ''xyz''"
proof -
  have "cstr (''[  a b '' @ [NL, NUL] @ ''xyz'') 1 = Some (''  a b '' @ [NL])"
    by (simp add: cstr_def)
  moreover have "\<not> all_blank (''  a b '' @ [NL])"
    by (simp add: all_blank_def strip_lead_def lead_blank_def tail_blank_def)
  ultimately show ?thesis
    using trim_correct [of "''[  a b '' @ [NL, NUL] @ ''xyz''" 1 "''  a b '' @ [NL]"]
    by (simp add: strip_def strip_lead_def strip_tail_def lead_blank_def tail_blank_def
      eval_nat_numeral)
qed

text \<open>C30: \<open>trim\<close> at the start of an array object is defined exactly for the strings that
  are not blank: on a blank or empty line its backward loop reads the byte before the
  object.\<close>

theorem trim_underrun:
  assumes "cstr m 0 = Some s"
  shows "trim m 0 = None \<longleftrightarrow> all_blank s"
proof -
  obtain pre post where "m = pre @ s @ NUL # post" "length pre = 0" "nul_free s"
    using cstr_split [OF assms] .
  then have m: "m = s @ NUL # post" and s: "nul_free s" by simp_all
  show ?thesis
  proof
    assume "trim m 0 = None"
    then show "all_blank s" using trim_strip [OF s, of "[]" post] m by fastforce
  next
    assume "all_blank s"
    then show "trim m 0 = None"
      using trim_blank [OF s, of "[]" post] m cut_tail_below by fastforce
  qed
qed

theorem trim_underrun_witness: "trim [SPC, NL, NUL] 0 = None"
proof -
  have "cstr [SPC, NL, NUL] 0 = Some [SPC, NL]" by (simp add: cstr_def)
  then show ?thesis
    using trim_underrun [of "[SPC, NL, NUL]" "[SPC, NL]"]
    by (simp add: all_blank_def strip_lead_def lead_blank_def tail_blank_def)
qed

end
