(* ===== verification/Float64.thy ===== *)
theory Float64
  imports Complex_Main CLib
begin

text \<open>
  The C type \<open>double\<close> as gcc uses it on x86-64: IEEE 754 binary64, round to nearest, ties to
  even. A finite value is a sign, a mantissa and a binary exponent; the operations compute
  the exact rational result and round it. \<open>round_pos\<close> rounds a positive rational \<open>n / d\<close> to
  a mantissa of a given number of bits; it is used at 53 bits for \<open>double\<close> and at 64 bits for
  the x87 \<open>long double\<close>. The lemmas give the error of a rounding and its monotonicity
  against whole numbers, which is what the components need.
\<close>

section \<open>Rounding to nearest\<close>

fun blen :: "nat \<Rightarrow> nat" where
  "blen n = (if n = 0 then 0 else Suc (blen (n div 2)))"

declare blen.simps [simp del]

text \<open>The integer nearest to \<open>n / d\<close>, the even one of two.\<close>

definition rne :: "nat \<Rightarrow> nat \<Rightarrow> nat" where
  "rne n d = (let q = n div d; r = n mod d in
     if 2 * r > d \<or> (2 * r = d \<and> odd q) then q + 1 else q)"

text \<open>\<open>n / d\<close> divided by \<open>2 ^ t\<close>, as a fraction.\<close>

definition scale :: "nat \<Rightarrow> nat \<Rightarrow> int \<Rightarrow> nat \<times> nat" where
  "scale n d t = (if t \<ge> 0 then (n, d * 2 ^ nat t) else (n * 2 ^ nat (- t), d))"

text \<open>The exponent at which \<open>n / d\<close> has a mantissa of \<open>p\<close> bits, not below \<open>emin\<close>.\<close>

definition round_exp :: "nat \<Rightarrow> int \<Rightarrow> nat \<Rightarrow> nat \<Rightarrow> int" where
  "round_exp p emin n d =
     (let t0 = int (blen n) - int (blen d) - int p;
          (a, b) = scale n d t0;
          t1 = (if a < 2 ^ p * b then t0 else t0 + 1)
      in max t1 emin)"

definition round_pos :: "nat \<Rightarrow> int \<Rightarrow> nat \<Rightarrow> nat \<Rightarrow> nat \<times> int" where
  "round_pos p emin n d =
     (let t = round_exp p emin n d; (a, b) = scale n d t in (rne a b, t))"

section \<open>The type and its operations\<close>

text \<open>\<open>Fin s m e\<close> is \<open>m * 2 ^ e\<close>, negated when \<open>s\<close>.\<close>

datatype f64 = NaN bool | Inf bool | Fin bool nat int

definition f64_round :: "bool \<Rightarrow> nat \<Rightarrow> nat \<Rightarrow> int \<Rightarrow> f64" where
  "f64_round s n d e =
     (if n = 0 then Fin s 0 0
      else let (m, t) = round_pos 53 (- 1074 - e) n d in
        if e + t > 971 \<or> (e + t = 971 \<and> m = 2 ^ 53) then Inf s else Fin s m (e + t))"

definition f64_of_int :: "int \<Rightarrow> f64" where
  "f64_of_int i = f64_round (i < 0) (nat \<bar>i\<bar>) 1 0"

definition f64_ratio :: "nat \<Rightarrow> nat \<Rightarrow> f64" where
  "f64_ratio n d = f64_round False n d 0"

fun fsign :: "f64 \<Rightarrow> bool" where
  "fsign (NaN s) = s"
| "fsign (Inf s) = s"
| "fsign (Fin s m e) = s"

text \<open>The sign of a NaN operand is kept; a NaN produced by SSE arithmetic has its sign bit set.\<close>

fun fmul :: "f64 \<Rightarrow> f64 \<Rightarrow> f64" where
  "fmul (NaN s) y = NaN s"
| "fmul x (NaN s) = NaN s"
| "fmul (Inf s) (Inf s') = Inf (s \<noteq> s')"
| "fmul (Inf s) (Fin s' m e) = (if m = 0 then NaN True else Inf (s \<noteq> s'))"
| "fmul (Fin s m e) (Inf s') = (if m = 0 then NaN True else Inf (s \<noteq> s'))"
| "fmul (Fin s m e) (Fin s' m' e') = f64_round (s \<noteq> s') (m * m') 1 (e + e')"

fun fdiv :: "f64 \<Rightarrow> f64 \<Rightarrow> f64" where
  "fdiv (NaN s) y = NaN s"
| "fdiv x (NaN s) = NaN s"
| "fdiv (Inf s) (Inf s') = NaN True"
| "fdiv (Inf s) (Fin s' m e) = Inf (s \<noteq> s')"
| "fdiv (Fin s m e) (Inf s') = Fin (s \<noteq> s') 0 0"
| "fdiv (Fin s m e) (Fin s' m' e') =
     (if m' = 0 then (if m = 0 then NaN True else Inf (s \<noteq> s'))
      else f64_round (s \<noteq> s') m m' (e - e'))"

definition fin_int :: "bool \<Rightarrow> nat \<Rightarrow> nat \<Rightarrow> int" where
  "fin_int s m k = (if s then - int (m * 2 ^ k) else int (m * 2 ^ k))"

fun fadd :: "f64 \<Rightarrow> f64 \<Rightarrow> f64" where
  "fadd (NaN s) y = NaN s"
| "fadd x (NaN s) = NaN s"
| "fadd (Inf s) (Inf s') = (if s = s' then Inf s else NaN True)"
| "fadd (Inf s) y = Inf s"
| "fadd x (Inf s) = Inf s"
| "fadd (Fin s m e) (Fin s' m' e') =
     (let b = min e e';
          x = fin_int s m (nat (e - b)) + fin_int s' m' (nat (e' - b))
      in if x = 0 then Fin (s \<and> s') 0 0 else f64_round (x < 0) (nat \<bar>x\<bar>) 1 b)"

fun fneg :: "f64 \<Rightarrow> f64" where
  "fneg (NaN s) = NaN (\<not> s)"
| "fneg (Inf s) = Inf (\<not> s)"
| "fneg (Fin s m e) = Fin (\<not> s) m e"

definition fsub :: "f64 \<Rightarrow> f64 \<Rightarrow> f64" where
  "fsub x y = (case y of NaN s \<Rightarrow> (case x of NaN s' \<Rightarrow> NaN s' | _ \<Rightarrow> NaN s) | _ \<Rightarrow> fadd x (fneg y))"

text \<open>Comparison: false whenever an operand is NaN.\<close>

fun flt :: "f64 \<Rightarrow> f64 \<Rightarrow> bool" where
  "flt (NaN s) y = False"
| "flt x (NaN s) = False"
| "flt (Inf s) (Inf s') = (s \<and> \<not> s')"
| "flt (Inf s) (Fin s' m e) = s"
| "flt (Fin s m e) (Inf s') = (\<not> s')"
| "flt (Fin s m e) (Fin s' m' e') =
     (let b = min e e' in fin_int s m (nat (e - b)) < fin_int s' m' (nat (e' - b)))"

fun feq :: "f64 \<Rightarrow> f64 \<Rightarrow> bool" where
  "feq (NaN s) y = False"
| "feq x (NaN s) = False"
| "feq (Inf s) (Inf s') = (s = s')"
| "feq (Inf s) (Fin s' m e) = False"
| "feq (Fin s m e) (Inf s') = False"
| "feq (Fin s m e) (Fin s' m' e') =
     (let b = min e e' in fin_int s m (nat (e - b)) = fin_int s' m' (nat (e' - b)))"

definition fle :: "f64 \<Rightarrow> f64 \<Rightarrow> bool" where
  "fle x y \<longleftrightarrow> flt x y \<or> feq x y"

text \<open>The conversion to an integer type truncates; NaN and infinities have no value.\<close>

fun f64_trunc :: "f64 \<Rightarrow> int option" where
  "f64_trunc (Fin s m e) =
     Some (let q = (if e \<ge> 0 then m * 2 ^ nat e else m div 2 ^ nat (- e))
           in if s then - int q else int q)"
| "f64_trunc x = None"

text \<open>\<open>%.pf\<close>: the exact value rounded to \<open>p\<close> decimals, ties to even.\<close>

definition insert_point :: "nat \<Rightarrow> string \<Rightarrow> string" where
  "insert_point p s = (let s' = pad_left (CHR ''0'') (p + 1) s; k = length s' - p in
     if p = 0 then s' else take k s' @ ''.'' @ drop k s')"

fun fmt_f :: "nat \<Rightarrow> f64 \<Rightarrow> string" where
  "fmt_f p (NaN s) = (if s then ''-nan'' else ''nan'')"
| "fmt_f p (Inf s) = (if s then ''-inf'' else ''inf'')"
| "fmt_f p (Fin s m e) =
     (if s then ''-'' else []) @
     insert_point p (show_nat (let (a, b) = scale (m * 10 ^ p) 1 (- e) in rne a b))"

section \<open>Rounding lemmas\<close>

lemma blen_bounds: "0 < n \<Longrightarrow> 2 ^ (blen n - 1) \<le> n \<and> n < 2 ^ blen n"
proof (induction n rule: blen.induct)
  case (1 n)
  show ?case
  proof (cases "n div 2 = 0")
    case True
    with 1 have "n = 1" by linarith
    then show ?thesis by (simp add: blen.simps)
  next
    case False
    let ?h = "n div 2"
    have IH: "2 ^ (blen ?h - 1) \<le> ?h" "?h < 2 ^ blen ?h" using 1 False by auto
    have b: "blen n = Suc (blen ?h)" using "1.prems" by (subst blen.simps) simp
    have "0 < blen ?h" using False by (subst blen.simps) simp
    then have p: "(2::nat) ^ blen ?h = 2 * 2 ^ (blen ?h - 1)" by (cases "blen ?h") auto
    define P where "P = (2::nat) ^ (blen ?h - 1)"
    have "P \<le> ?h" "?h < 2 * P" using IH p by (simp_all add: P_def)
    then have "2 * P \<le> n" "n < 2 * (2 * P)" by linarith+
    then show ?thesis using b p by (simp add: P_def)
  qed
qed

lemma blen_pos: "0 < n \<Longrightarrow> 0 < blen n"
  by (subst blen.simps) simp

lemma rne_bounds: "0 < d \<Longrightarrow> 2 * n \<le> 2 * (rne n d * d) + d \<and> 2 * (rne n d * d) \<le> 2 * n + d"
proof -
  assume d: "0 < d"
  define q r x where "q = n div d" and "r = n mod d" and "x = q * d"
  have n: "n = x + r" and r: "r < d" using d by (simp_all add: q_def r_def x_def)
  have "rne n d = (if 2 * r > d \<or> (2 * r = d \<and> odd q) then q + 1 else q)"
    by (simp add: rne_def Let_def q_def r_def)
  then have "rne n d * d = (if 2 * r > d \<or> (2 * r = d \<and> odd q) then x + d else x)"
    by (simp add: x_def)
  then show ?thesis using n r by (auto split: if_splits)
qed

text \<open>Rounding never passes a whole number.\<close>

lemma rne_le_whole: "0 < d \<Longrightarrow> n \<le> k * d \<Longrightarrow> rne n d \<le> k"
proof -
  assume d: "0 < d" and n: "n \<le> k * d"
  have "2 * (rne n d * d) \<le> 2 * n + d" using rne_bounds [OF d] by simp
  then have "(2 * rne n d) * d \<le> (2 * k + 1) * d" using n by (simp add: algebra_simps)
  then have "2 * rne n d \<le> 2 * k + 1" using d mult_le_cancel2 by blast
  then show ?thesis by simp
qed

lemma rne_exact: "0 < d \<Longrightarrow> rne (k * d) d = k"
  by (simp add: rne_def)

lemma scale_pos: "0 < d \<Longrightarrow> scale n d t = (a, b) \<Longrightarrow> 0 < b"
  by (auto simp: scale_def split: if_splits)

text \<open>The exponent chosen leaves the scaled fraction with \<open>p\<close> bits, unless it is clamped.\<close>

lemma scale_ge:
  assumes "scale n d t = (a, b)" and "n * 2 ^ i \<ge> k * (d * 2 ^ j)" and "t = int j - int i"
  shows "k * b \<le> a"
proof (cases "t \<ge> 0")
  case True
  then have "j = i + nat t" using assms(3) by simp
  then have "(k * (d * 2 ^ nat t)) * 2 ^ i \<le> n * 2 ^ i" using assms(2) by (simp add: power_add ac_simps)
  then have "k * (d * 2 ^ nat t) \<le> n" by simp
  with True assms(1) show ?thesis by (simp add: scale_def)
next
  case False
  then have "i = j + nat (- t)" using assms(3) by simp
  then have "(k * d) * 2 ^ j \<le> (n * 2 ^ nat (- t)) * 2 ^ j" using assms(2) by (simp add: power_add ac_simps)
  then have "k * d \<le> n * 2 ^ nat (- t)" by simp
  with False assms(1) show ?thesis by (simp add: scale_def)
qed

lemma scale_lt:
  assumes "scale n d t = (a, b)" and "n * 2 ^ i < k * (d * 2 ^ j)" and "t = int j - int i"
  shows "a < k * b"
proof (cases "t \<ge> 0")
  case True
  then have "j = i + nat t" using assms(3) by simp
  then have "n * 2 ^ i < (k * (d * 2 ^ nat t)) * 2 ^ i" using assms(2) by (simp add: power_add ac_simps)
  then have "n < k * (d * 2 ^ nat t)" by simp
  with True assms(1) show ?thesis by (simp add: scale_def)
next
  case False
  then have "i = j + nat (- t)" using assms(3) by simp
  then have "(n * 2 ^ nat (- t)) * 2 ^ j < (k * d) * 2 ^ j" using assms(2) by (simp add: power_add ac_simps)
  then have "n * 2 ^ nat (- t) < k * d" by simp
  with False assms(1) show ?thesis by (simp add: scale_def)
qed

lemma scale_first:
  assumes "0 < n" and "0 < d" and "scale n d (int (blen n) - int (blen d) - int p) = (a, b)" and "0 < p"
  shows "2 ^ (p - 1) * b \<le> a" and "a < 2 ^ (p + 1) * b"
proof -
  have n: "2 ^ (blen n - 1) \<le> n" "n < 2 ^ blen n" and d: "2 ^ (blen d - 1) \<le> d" "d < 2 ^ blen d"
    using blen_bounds assms(1,2) by blast+
  have bn: "0 < blen n" "0 < blen d" using blen_pos assms(1,2) by blast+
  have t: "int (blen n) - int (blen d) - int p = int (blen n) - int (blen d + p)" by simp
  have "2 ^ (p - 1) * (d * 2 ^ blen n) \<le> 2 ^ (p - 1) * (2 ^ blen d * 2 ^ blen n)"
    using d(2) by (simp add: less_imp_le)
  also have "\<dots> = 2 ^ (blen n - 1) * 2 ^ (blen d + p)"
    using bn assms(4) by (simp add: add.commute flip: power_add)
  also have "\<dots> \<le> n * 2 ^ (blen d + p)" using n(1) by simp
  finally show "2 ^ (p - 1) * b \<le> a" by (rule scale_ge [OF assms(3) _ t])
  have "n * 2 ^ (blen d + p) < 2 ^ blen n * 2 ^ (blen d + p)" using n(2) by simp
  also have "\<dots> = 2 ^ (p + 1) * (2 ^ (blen d - 1) * 2 ^ blen n)"
  proof -
    have "blen n + (blen d + p) = (p + 1) + ((blen d - 1) + blen n)" using bn by simp
    then show ?thesis by (simp only: flip: power_add)
  qed
  also have "\<dots> \<le> 2 ^ (p + 1) * (d * 2 ^ blen n)" using d(1) by simp
  finally show "a < 2 ^ (p + 1) * b" by (rule scale_lt [OF assms(3) _ t])
qed

lemma scale_succ:
  assumes "scale n d t = (a, b)" and "scale n d (t + 1) = (a', b')"
  shows "a' * (2 * b) = a * b'"
proof -
  consider "t \<ge> 0" | "t = - 1" | "t < - 1" by linarith
  then show ?thesis
  proof cases
    case 1
    then have "nat (t + 1) = Suc (nat t)" by simp
    with 1 assms show ?thesis by (auto simp: scale_def)
  next
    case 2
    with assms show ?thesis by (auto simp: scale_def)
  next
    case 3
    then have "nat (- t) = Suc (nat (- (t + 1)))" by simp
    with 3 assms show ?thesis by (auto simp: scale_def)
  qed
qed

lemma round_exp_normal:
  assumes "0 < n" and "0 < d" and "0 < p" and "round_exp p emin n d = t" and "emin < t"
    and "scale n d t = (a, b)"
  shows "2 ^ (p - 1) * b \<le> a \<and> a < 2 ^ p * b"
proof -
  define t0 where "t0 = int (blen n) - int (blen d) - int p"
  obtain a0 b0 where s0: "scale n d t0 = (a0, b0)" by fastforce
  have f: "2 ^ (p - 1) * b0 \<le> a0" "a0 < 2 ^ (p + 1) * b0"
    using scale_first [OF assms(1,2) _ assms(3)] s0 t0_def by auto
  have b0: "0 < b0" using scale_pos assms(2) s0 by blast
  have t: "t = (if a0 < 2 ^ p * b0 then t0 else t0 + 1)"
    using assms(4,5) s0 by (auto simp: round_exp_def Let_def t0_def split: if_splits)
  show ?thesis
  proof (cases "a0 < 2 ^ p * b0")
    case True
    with t s0 assms(6) f show ?thesis by auto
  next
    case False
    with t assms(6) have s1: "scale n d (t0 + 1) = (a, b)" by simp
    have e: "a * (2 * b0) = a0 * b" by (rule scale_succ [OF s0 s1])
    have "(2 ^ p * b) * b0 \<le> a0 * b" using False by (simp add: ac_simps not_less)
    then have "(2 ^ p * b) * b0 \<le> (2 * a) * b0" using e by (simp add: ac_simps)
    then have "2 ^ p * b \<le> 2 * a" using b0 by simp
    moreover have "(2::nat) ^ p = 2 * 2 ^ (p - 1)" using assms(3) by (cases p) auto
    moreover have bp: "0 < b" using scale_pos assms(2,6) by blast
    have "a0 * b < (2 ^ (p + 1) * b0) * b" using f(2) bp by simp
    then have "(2 * a) * b0 < (2 * (2 ^ p * b)) * b0" using e by (simp add: ac_simps)
    then have "a < 2 ^ p * b" using b0 by simp
    ultimately show ?thesis by simp
  qed
qed

text \<open>A normal rounding is within half a unit of the last place.\<close>

lemma round_pos_error:
  assumes "0 < n" and "0 < d" and "0 < p" and "round_pos p emin n d = (m, t)" and "emin < t"
  shows "real m * 2 powi t \<le> real n / real d * (1 + 1 / 2 ^ p)"
    and "real n / real d * (1 - 1 / 2 ^ p) \<le> real m * 2 powi t"
    and "2 ^ (p - 1) \<le> m" and "m \<le> 2 ^ p"
proof -
  obtain a b where s: "scale n d t = (a, b)" by fastforce
  have t: "round_exp p emin n d = t" and m: "m = rne a b"
    using assms(4) s by (auto simp: round_pos_def Let_def split: prod.splits)
  have nb: "2 ^ (p - 1) * b \<le> a" "a < 2 ^ p * b"
    using round_exp_normal [OF assms(1-3) t assms(5) s] by auto
  have b: "0 < b" using scale_pos assms(2) s by blast
  have r: "2 * a \<le> 2 * (m * b) + b" "2 * (m * b) \<le> 2 * a + b" using rne_bounds [OF b, of a] m by auto
  have v: "real n / real d = real a / real b * 2 powi t"
  proof (cases "t \<ge> 0")
    case True
    with s assms(2) show ?thesis by (auto simp: scale_def power_int_def)
  next
    case False
    with s assms(2) show ?thesis by (auto simp: scale_def power_int_def field_simps)
  qed
  have p2: "(2::real) ^ p = 2 * 2 ^ (p - 1)" using assms(3) by (cases p) auto
  have br: "0 < real b" using b by simp
  have h: "2 ^ (p - 1) * real b \<le> real a" using nb(1) by (metis of_nat_le_iff of_nat_mult of_nat_numeral of_nat_power)
  have up: "real m * real b \<le> real a + real b / 2" and lo: "real a - real b / 2 \<le> real m * real b"
    using r by (simp_all flip: of_nat_mult of_nat_add)
  have hb: "real b / 2 \<le> real a / 2 ^ p" using h by (simp add: p2 field_simps)
  have "real m * real b \<le> real a + real a / 2 ^ p" using up hb by linarith
  moreover have "real a - real a / 2 ^ p \<le> real m * real b" using lo hb by linarith
  ultimately have "real m * real b \<le> real a * (1 + 1 / 2 ^ p)" "real a * (1 - 1 / 2 ^ p) \<le> real m * real b"
    by (simp_all add: distrib_left right_diff_distrib)
  then have q: "real m \<le> real a / real b * (1 + 1 / 2 ^ p)" "real a / real b * (1 - 1 / 2 ^ p) \<le> real m"
    using br by (simp_all add: field_simps)
  show "real m * 2 powi t \<le> real n / real d * (1 + 1 / 2 ^ p)"
    using mult_right_mono [OF q(1), of "2 powi t"] by (simp add: v ac_simps)
  show "real n / real d * (1 - 1 / 2 ^ p) \<le> real m * 2 powi t"
    using mult_right_mono [OF q(2), of "2 powi t"] by (simp add: v ac_simps)
  have "2 * (2 ^ (p - 1) * b) \<le> 2 * (m * b) + b" using nb(1) r(1) by simp
  then have "(2 * 2 ^ (p - 1)) * b < (2 * m + 2) * b" using b by (simp add: algebra_simps)
  then show "2 ^ (p - 1) \<le> m" by (simp only: mult_less_cancel2) linarith
  show "m \<le> 2 ^ p" using rne_le_whole [OF b] nb(2) m by simp
qed

end
