(* ===== verification/HplCalc.thy ===== *)
theory HplCalc
  imports Float64
begin

text \<open>
  \<open>hpl_calc_pq.c\<close> and \<open>hpl_calc_n.c\<close>: the two helpers that \<open>scripts/tests/hpl\<close> runs to fill
  in the process grid and the problem size of the HPL benchmark. The square roots of both
  programs rest on one interface, \<open>int_sqrt\<close>: a function that returns the whole part of a
  square root. Its lemmas are proved from that contract alone; \<open>isqrt\<close> provides it.
\<close>

section \<open>The interface of an integer square root\<close>

locale int_sqrt =
  fixes sq :: "nat \<Rightarrow> nat"
  assumes sq_le: "sq n * sq n \<le> n"
    and sq_less: "n < (sq n + 1) * (sq n + 1)"
begin

lemma sq_greatest: "k * k \<le> n \<Longrightarrow> k \<le> sq n"
proof (rule ccontr)
  assume k: "k * k \<le> n" and "\<not> k \<le> sq n"
  then have "sq n + 1 \<le> k" by simp
  then have "(sq n + 1) * (sq n + 1) \<le> k * k" by (rule mult_le_mono) fact
  with k sq_less [of n] show False by simp
qed

lemma sq_below: "n < k * k \<Longrightarrow> sq n < k"
proof (rule ccontr)
  assume n: "n < k * k" and "\<not> sq n < k"
  then have "k * k \<le> sq n * sq n" by (intro mult_le_mono) auto
  with n sq_le [of n] show False by simp
qed

lemma sq_square: "sq (k * k) = k"
  by (intro order_antisym sq_greatest le_refl)
    (use sq_below [of "k * k" "k + 1"] in simp)

lemma sq_mono: "m \<le> n \<Longrightarrow> sq m \<le> sq n"
  using sq_le [of m] by (intro sq_greatest) simp

text \<open>The rounded-up square root is the least number whose square reaches \<open>n\<close>.\<close>

lemma ceil_sq:
  assumes "s = (if sq n * sq n = n then sq n else sq n + 1)"
  shows "n \<le> s * s" and "k * k < n \<Longrightarrow> k < s" and "n \<le> k * k \<Longrightarrow> s \<le> k"
proof -
  show "n \<le> s * s" using assms sq_less [of n] by auto
  show "k < s" if "k * k < n"
  proof (rule ccontr)
    assume "\<not> k < s"
    then have "s * s \<le> k * k" by (intro mult_le_mono) auto
    with that \<open>n \<le> s * s\<close> show False by simp
  qed
  show "s \<le> k" if "n \<le> k * k"
  proof -
    have "sq n \<le> k" using sq_mono [OF that] sq_square by simp
    moreover have "sq n \<noteq> k" if "sq n * sq n \<noteq> n"
      using that sq_le [of n] \<open>n \<le> k * k\<close> by auto
    ultimately show ?thesis using assms by auto
  qed
qed

end

text \<open>The square root by its binary digits.\<close>

fun isqrt :: "nat \<Rightarrow> nat" where
  "isqrt n = (if n = 0 then 0
     else let r = 2 * isqrt (n div 4) in if (r + 1) * (r + 1) \<le> n then r + 1 else r)"

declare isqrt.simps [simp del]

lemma isqrt_bounds: "isqrt n * isqrt n \<le> n \<and> n < (isqrt n + 1) * (isqrt n + 1)"
proof (induction n rule: isqrt.induct)
  case (1 n)
  show ?case
  proof (cases "n = 0")
    case True
    then show ?thesis by (simp add: isqrt.simps)
  next
    case False
    define q where "q = isqrt (n div 4)"
    have "q * q \<le> n div 4" "n div 4 < (q + 1) * (q + 1)" using 1 False by (auto simp: q_def)
    then have "4 * (q * q) \<le> n" "n < 4 * ((q + 1) * (q + 1))" by linarith+
    then have "(2 * q) * (2 * q) \<le> n" "n < (2 * q + 2) * (2 * q + 2)" by (simp_all add: algebra_simps)
    moreover have "isqrt n = (if (2 * q + 1) * (2 * q + 1) \<le> n then 2 * q + 1 else 2 * q)"
      using False by (subst isqrt.simps) (simp add: q_def Let_def)
    ultimately show ?thesis by (simp add: numeral_2_eq_2)
  qed
qed

interpretation isqrt: int_sqrt isqrt
  by unfold_locales (use isqrt_bounds in auto)

section \<open>hpl_calc_pq.c\<close>

text \<open>
  \<open>ceil(sqrt(cores))\<close> for an \<open>int\<close>: \<open>sqrt\<close> is correctly rounded and a 31-bit radicand is
  far from the precision of a \<open>double\<close>, so the result is the exact rounded-up root. The root
  of a negative number is NaN, whose conversion to \<open>int\<close> is undefined.
\<close>

definition ceil_sqrt :: "int \<Rightarrow> int option" where
  "ceil_sqrt cores = (if cores < 0 then None
     else let n = nat cores; r = isqrt n in
       Some (int (if r * r = n then r else r + 1)))"

text \<open>\<open>for (p = ceil(sqrt(cores)); p > 1; --p) if (cores % p == 0) break;\<close>\<close>

function pq_loop :: "int \<Rightarrow> int \<Rightarrow> int" where
  "pq_loop cores p =
     (if p > 1 then (if cmod cores p = 0 then p else pq_loop cores (p - 1)) else p)"
  by pat_completeness auto
termination
  by (relation "measure (\<lambda>(cores, p). nat p)") auto

declare pq_loop.simps [simp del]

text \<open>The two numbers printed, \<open>Ps\<close> first. A division by zero traps.\<close>

definition calc_pq :: "int \<Rightarrow> (int \<times> int) option" where
  "calc_pq cores = do {
     s \<leftarrow> ceil_sqrt cores;
     let p = pq_loop cores s;
     if p = 0 then None else do {
       let q = cdiv cores p;
       if p > q then Some (q, p) else Some (p, q)
     }
   }"

text \<open>\<open>main\<close>: \<open>argv[1]\<close> is absent (\<open>None\<close>) or a string; the result is what is printed.\<close>

definition hpl_calc_pq_main :: "string option \<Rightarrow> string option" where
  "hpl_calc_pq_main arg = do {
     a \<leftarrow> arg;
     (ps, qs) \<leftarrow> calc_pq (atoi a);
     Some (fmt_d ps @ ''            Ps'' @ [NL] @ fmt_d qs @ ''            Qs'' @ [NL])
   }"

lemma pq_loop_props:
  assumes "0 < n" and "1 \<le> p"
  shows "1 \<le> pq_loop (int n) (int p) \<and> pq_loop (int n) (int p) \<le> int p \<and>
    pq_loop (int n) (int p) dvd int n \<and>
    (\<forall>d. d dvd n \<and> d \<le> p \<longrightarrow> int d \<le> pq_loop (int n) (int p))"
  using assms(2)
proof (induction p rule: nat_induct_at_least)
  case base
  show ?case by (subst pq_loop.simps, subst pq_loop.simps) (simp add: pq_loop.simps)
next
  case (Suc p)
  show ?case
  proof (cases "Suc p dvd n")
    case True
    then have "cmod (int n) (int (Suc p)) = 0"
      by (simp add: cmod_nonneg flip: of_nat_mod del: of_nat_Suc)
    then have "pq_loop (int n) (int (Suc p)) = int (Suc p)"
      using Suc.hyps by (subst pq_loop.simps) simp
    with True show ?thesis by (auto simp del: of_nat_Suc)
  next
    case False
    then have "cmod (int n) (int (Suc p)) \<noteq> 0"
      by (simp add: cmod_nonneg mod_eq_0_iff_dvd del: of_nat_Suc)
    then have "pq_loop (int n) (int (Suc p)) = pq_loop (int n) (int p)"
      using Suc.hyps by (subst pq_loop.simps) simp
    moreover have "d \<le> p" if "d dvd n" "d \<le> Suc p" for d using that False by (cases "d = Suc p") auto
    ultimately show ?thesis using Suc.IH by auto
  qed
qed

lemma ceil_sqrt_nat:
  "\<exists>s. ceil_sqrt (int n) = Some (int s) \<and> n \<le> s * s \<and>
    (\<forall>k. k * k < n \<longrightarrow> k < s) \<and> (\<forall>k. n \<le> k * k \<longrightarrow> s \<le> k)"
proof -
  define s where "s = (if isqrt n * isqrt n = n then isqrt n else isqrt n + 1)"
  have "ceil_sqrt (int n) = Some (int s)" by (simp add: ceil_sqrt_def Let_def s_def)
  with isqrt.ceil_sq [OF s_def] show ?thesis by blast
qed

text \<open>A divisor below the root found from above is the best one on either side of the root.\<close>

lemma squarest:
  fixes n s p q a b :: nat
  assumes s: "\<And>k. k * k < n \<Longrightarrow> k < s" "\<And>k. n \<le> k * k \<Longrightarrow> s \<le> k"
    and p: "p * q = n" "p \<le> s" "\<And>d. d dvd n \<Longrightarrow> d \<le> s \<Longrightarrow> d \<le> p"
    and ab: "a * b = n" "a \<le> b" "0 < n"
  shows "a \<le> p" and "a \<le> q"
proof -
  have aa: "a * a \<le> n" using ab by auto
  have as: "a \<le> s"
  proof (cases "a * a < n")
    case True
    then show ?thesis using s(1) by force
  next
    case False
    then have "a * a = n" using aa by simp
    show ?thesis
    proof (rule ccontr)
      assume "\<not> a \<le> s"
      then have "s \<le> a - 1" and "0 < a" by auto
      then have "(a - 1) * (a - 1) < n" using \<open>a * a = n\<close> by (cases a) auto
      then show False using s(1) \<open>s \<le> a - 1\<close> by fastforce
    qed
  qed
  show ap: "a \<le> p" using p(3) as ab(1) by (metis dvd_triv_left)
  show "a \<le> q"
  proof (cases "p \<le> q")
    case True
    with ap show ?thesis by simp
  next
    case False
    then have "n \<le> p * p" using p(1) by auto
    then have ps: "p = s" using s(2) p(2) by (simp add: order_antisym)
    show ?thesis
    proof (rule ccontr)
      assume "\<not> a \<le> q"
      then have qa: "q + 1 \<le> a" by simp
      have "0 < s" using p(1) ps ab(3) by (cases s) auto
      then obtain r where r: "s = r + 1" by (cases s) auto
      have rr: "r * r < n" using s(2) [of r] r by force
      have "a \<noteq> s"
      proof
        assume "a = s"
        then have "s * b = s * q" using ab(1) p(1) ps by simp
        then have "b = q" using \<open>0 < s\<close> by simp
        with ab(2) qa show False by simp
      qed
      then have "q + 1 \<le> r" using as qa r by simp
      then have "(r + 1) * (q + 1) \<le> (r + 1) * r" by (rule mult_le_mono2)
      then have "n + (r + 1) \<le> r * r + r" using p(1) ps r by (simp add: algebra_simps)
      with rr show False by simp
    qed
  qed
qed

section \<open>hpl_calc_n.c\<close>

text \<open>
  The macros end in a semicolon: \<open>ram - MEM_RESERVE\<close> subtracts \<open>1024 * 768\<close>, and the product
  with \<open>MEM_PERCENT\<close> is taken in \<open>double\<close> and truncated back to \<open>unsigned long long\<close>. The
  subtraction and the product with 1024 wrap around at 64 bits.
\<close>

definition MEM_PERCENT :: f64 where
  "MEM_PERCENT = f64_ratio 94 100"

definition MEM_RESERVE :: "64 word" where
  "MEM_RESERVE = 1024 * 768"

definition hpl_ram :: "64 word \<Rightarrow> (64 word) option" where
  "hpl_ram ram = do {
     let ram = ram - MEM_RESERVE;
     t \<leftarrow> f64_trunc (fmul (f64_of_int (uint (ram * 1024))) MEM_PERCENT);
     Some (word_of_int t)
   }"

text \<open>
  \<open>sqrtl\<close> of \<open>m * 2 ^ e\<close> at the 64 mantissa bits of the x87 \<open>long double\<close>: the radicand is
  scaled so that its root has 64 bits, and the root is rounded to nearest (it is never
  half way between two integers).
\<close>

definition sqrtl :: "nat \<Rightarrow> int \<Rightarrow> nat \<times> int" where
  "sqrtl m e = (if m = 0 then (0, 0)
     else let k0 = 128 - int (blen m);
              k = (if even (e - k0) then k0 else k0 - 1);
              s = m * 2 ^ nat k; r = isqrt s
          in (if s - r * r > r then r + 1 else r, (e - k) div 2))"

definition ld_trunc :: "nat \<times> int \<Rightarrow> nat" where
  "ld_trunc x = (case x of (m, e) \<Rightarrow> if e \<ge> 0 then m * 2 ^ nat e else m div 2 ^ nat (- e))"

text \<open>\<open>n = (long double) ram / 8\<close> is exact; \<open>divider = (long int) n / 192\<close>.\<close>

definition hpl_n :: "64 word \<Rightarrow> nat" where
  "hpl_n ram =
     (let n = sqrtl (unat ram) (- 3);
          divider = ld_trunc n div 192
      in divider * 192)"

definition hpl_calc_n_main :: "string option \<Rightarrow> string option" where
  "hpl_calc_n_main arg = do {
     a \<leftarrow> arg;
     ram \<leftarrow> hpl_ram (strtoull a);
     Some (show_nat (hpl_n ram) @ [NL])
   }"

lemma blen_le: "0 < k \<Longrightarrow> n < 2 ^ k \<Longrightarrow> blen n \<le> k"
proof (cases "n = 0")
  case True
  then show ?thesis by (simp add: blen.simps)
next
  case False
  assume "n < 2 ^ k"
  moreover have "2 ^ (blen n - 1) \<le> n" using blen_bounds False by blast
  ultimately have "(2::nat) ^ (blen n - 1) < 2 ^ k" by linarith
  then have "blen n - 1 < k" by (rule power_less_imp_less_exp [rotated]) simp
  then show ?thesis by linarith
qed

text \<open>The shape of \<open>sqrtl\<close> on \<open>m / 8\<close>: a root \<open>r\<close>, rounded up or not, over \<open>2 ^ q\<close>.\<close>

lemma sqrtl_shape:
  assumes m: "0 < m" "m < 2 ^ 64"
  obtains k q where "2 * q = k + 3" "k + blen m \<ge> 127" "m * 2 ^ k < 2 ^ 128"
    "ld_trunc (sqrtl m (- 3)) =
      (let s = m * 2 ^ k; r = isqrt s in (if s - r * r > r then r + 1 else r) div 2 ^ q)"
proof -
  have b: "blen m \<le> 64" using blen_le [of 64 m] m by simp
  define k0 where "k0 = 128 - int (blen m)"
  define k where "k = (if even (- 3 - k0) then k0 else k0 - 1)"
  have k: "0 \<le> k" "even (- 3 - k)" "k0 - 1 \<le> k" "k \<le> k0" using b by (auto simp: k_def k0_def)
  obtain q where q: "- 3 - k = - int (2 * q)"
  proof -
    from k(2) obtain z where "- 3 - k = 2 * z" by blast
    moreover then have "z < 0" using k(1) by simp
    ultimately have "- 3 - k = - int (2 * nat (- z))" by simp
    then show thesis by (rule that)
  qed
  have "m * 2 ^ nat k < 2 ^ blen m * 2 ^ nat k" using blen_bounds [OF m(1)] by simp
  also have "\<dots> = 2 ^ (blen m + nat k)" by (simp add: power_add)
  also have "\<dots> \<le> 2 ^ 128" by (rule power_increasing) (use k b in \<open>simp_all add: k0_def\<close>)
  finally have s: "m * 2 ^ nat k < 2 ^ 128" .
  have q2: "2 * q = nat k + 3" using q k(1) by linarith
  have "sqrtl m (- 3) = (let s = m * 2 ^ nat k; r = isqrt s in
      (if s - r * r > r then r + 1 else r, (- 3 - k) div 2))"
    using m by (simp add: sqrtl_def Let_def k_def k0_def)
  moreover have "(- 3 - k) div 2 = - int q" using q by simp
  moreover have "0 < q" using q k(1) by simp
  ultimately have "ld_trunc (sqrtl m (- 3)) =
      (let s = m * 2 ^ nat k; r = isqrt s in (if s - r * r > r then r + 1 else r) div 2 ^ q)"
    by (simp add: ld_trunc_def Let_def)
  moreover have "nat k + blen m \<ge> 127" using k b by (simp add: k0_def)
  ultimately show thesis using that q2 s by blast
qed

lemma radicand: "2 * q = k + 3 \<Longrightarrow> 8 * (m * 2 ^ k) = m * (2 ^ q * 2 ^ q)" for m q k :: nat
proof -
  assume "2 * q = k + 3"
  then have "(2::nat) ^ q * 2 ^ q = 2 ^ (k + 3)" by (simp flip: power_add mult_2)
  then show ?thesis by (simp add: power_add)
qed

text \<open>The truncated root is never too small, and never too large below \<open>2 ^ 63\<close>.\<close>

lemma ld_sqrt_lower:
  assumes "m < 2 ^ 64" and "8 * (j * j) \<le> m"
  shows "j \<le> ld_trunc (sqrtl m (- 3))"
proof (cases "m = 0")
  case True
  with assms show ?thesis by simp
next
  case False
  then obtain k q where kq: "2 * q = k + 3" and t: "ld_trunc (sqrtl m (- 3)) =
      (let s = m * 2 ^ k; r = isqrt s in (if s - r * r > r then r + 1 else r) div 2 ^ q)"
    using sqrtl_shape assms(1) by (metis neq0_conv)
  have "8 * ((j * 2 ^ q) * (j * 2 ^ q)) = (8 * (j * j)) * (2 ^ q * 2 ^ q)" by (simp add: ac_simps)
  also have "\<dots> \<le> m * (2 ^ q * 2 ^ q)" using assms(2) by simp
  also have "\<dots> = 8 * (m * 2 ^ k)" by (rule radicand [OF kq, symmetric])
  finally have "(j * 2 ^ q) * (j * 2 ^ q) \<le> m * 2 ^ k" by linarith
  then have "j * 2 ^ q \<le> isqrt (m * 2 ^ k)" by (rule isqrt.sq_greatest)
  then show ?thesis by (simp add: t Let_def less_eq_div_iff_mult_less_eq)
qed

lemma ld_sqrt_upper:
  assumes "m < 2 ^ 63"
  shows "8 * (ld_trunc (sqrtl m (- 3)) * ld_trunc (sqrtl m (- 3))) \<le> m"
proof (cases "m = 0")
  case True
  then show ?thesis by (simp add: sqrtl_def ld_trunc_def)
next
  case False
  then have "0 < m" and "m < 2 ^ 64" using assms by simp_all
  then obtain k q where kq: "2 * q = k + 3" "k + blen m \<ge> 127" "m * 2 ^ k < 2 ^ 128"
    and t: "ld_trunc (sqrtl m (- 3)) =
      (let s = m * 2 ^ k; r = isqrt s in (if s - r * r > r then r + 1 else r) div 2 ^ q)"
    by (rule sqrtl_shape)
  define s r K where "s = m * 2 ^ k" and "r = isqrt s"
    and "K = (if s - r * r > r then r + 1 else r) div 2 ^ q"
  have K: "ld_trunc (sqrtl m (- 3)) = K" by (simp add: t Let_def K_def r_def s_def)
  have "blen m \<le> 63" using blen_le [of 63 m] assms by simp
  then have k64: "64 \<le> k" using kq(2) by simp
  have rb: "r * r \<le> s" "s < (r + 1) * (r + 1)" using isqrt_bounds [of s] by (auto simp: r_def)
  have r64: "r < 2 ^ 64"
    using isqrt.sq_below [of s "2 ^ 64"] kq(3) by (simp add: r_def s_def)
  have 8: "8 * s = m * (2 ^ q * 2 ^ q)" using radicand [OF kq(1), of m] by (simp add: s_def)
  show ?thesis
  proof (rule ccontr)
    assume "\<not> ?thesis"
    then have "m + 1 \<le> 8 * (K * K)" by (simp add: K)
    then have "(m + 1) * (2 ^ q * 2 ^ q) \<le> (8 * (K * K)) * (2 ^ q * 2 ^ q)" by (rule mult_le_mono1)
    then have "8 * s + 2 ^ q * 2 ^ q \<le> 8 * ((K * 2 ^ q) * (K * 2 ^ q))" using 8 by (simp add: ac_simps)
    moreover have "(2::nat) ^ q * 2 ^ q = 8 * 2 ^ k" using radicand [OF kq(1), of 1] by simp
    ultimately have big: "s + 2 ^ k \<le> (K * 2 ^ q) * (K * 2 ^ q)" by simp
    have Kle: "K * 2 ^ q \<le> (if s - r * r > r then r + 1 else r)" by (simp add: K_def)
    have "\<not> K * 2 ^ q \<le> r"
    proof
      assume "K * 2 ^ q \<le> r"
      then have "(K * 2 ^ q) * (K * 2 ^ q) \<le> r * r" by (intro mult_le_mono)
      moreover have "0 < (2::nat) ^ k" by simp
      ultimately show False using big rb(1) by linarith
    qed
    with Kle have "K * 2 ^ q = r + 1" and up: "s - r * r > r" by (auto split: if_splits)
    with big have "s + 2 ^ k \<le> (r + 1) * (r + 1)" by simp
    with up rb(1) have "2 ^ k \<le> r" by (simp add: algebra_simps)
    moreover have "(2::nat) ^ 64 \<le> 2 ^ k" using k64 by (rule power_increasing) simp
    ultimately show False using r64 by simp
  qed
qed

text \<open>Conversions and products that stay far from overflow round to a normal result.\<close>

lemma f64_round_normal:
  assumes "0 < n" and "n < 2 ^ 128" and "n \<ge> 2 ^ 52" and "e \<in> {- 500..100}"
  obtains m t where "f64_round s n 1 e = Fin s m t"
    "real m * 2 powi t \<le> real n * 2 powi e * (1 + 1 / 2 ^ 53)"
    "real n * 2 powi e * (1 - 1 / 2 ^ 53) \<le> real m * 2 powi t"
    "2 ^ 52 \<le> m" "m \<le> 2 ^ 53" "e - 1 \<le> t" "t \<le> e + 75"
proof -
  obtain m t where mt: "round_pos 53 (- 1074 - e) n 1 = (m, t)" by fastforce
  have b: "blen n \<le> 128" using blen_le [of 128 n] assms(2) by simp
  have "52 < blen n"
  proof (rule ccontr)
    assume "\<not> 52 < blen n"
    then have "(2::nat) ^ blen n \<le> 2 ^ 52" by (intro power_increasing) auto
    with assms(3) blen_bounds [OF assms(1)] show False by simp
  qed
  moreover have "blen 1 = 1" by (simp add: blen.simps)
  moreover have "t \<in> {int (blen n) - int (blen 1) - 53, int (blen n) - int (blen 1) - 53 + 1, - 1074 - e}"
    using mt by (auto simp: round_pos_def round_exp_def Let_def max_def split: prod.splits if_splits)
  ultimately have t: "- 1074 - e < t \<and> t \<le> 75 \<or> t = - 1074 - e" using b assms(4) by auto
  have "t \<ge> int (blen n) - int (blen 1) - 53"
    using mt by (auto simp: round_pos_def round_exp_def Let_def max_def split: prod.splits if_splits)
  then have t': "- 1074 - e < t" "t \<le> 75" using t \<open>52 < blen n\<close> \<open>blen 1 = 1\<close> assms(4) by auto
  have err: "real m * 2 powi t \<le> real n * (1 + 1 / 2 ^ 53)"
    "real n * (1 - 1 / 2 ^ 53) \<le> real m * 2 powi t" "2 ^ 52 \<le> m" "m \<le> 2 ^ 53"
    using round_pos_error [OF assms(1) _ _ mt t'(1)] by auto
  have f: "f64_round s n 1 e = Fin s m (e + t)"
    using assms(1,4) mt t'(2) by (simp add: f64_round_def)
  have pe: "2 powi (e + t) = 2 powi t * (2 powi e :: real)" by (simp add: power_int_add)
  have "real m * 2 powi (e + t) \<le> real n * 2 powi e * (1 + 1 / 2 ^ 53)"
    using mult_right_mono [OF err(1), of "2 powi e"] by (simp add: pe ac_simps)
  moreover have "real n * 2 powi e * (1 - 1 / 2 ^ 53) \<le> real m * 2 powi (e + t)"
    using mult_right_mono [OF err(2), of "2 powi e"] by (simp add: pe ac_simps)
  moreover have "- 1 \<le> t"
    using \<open>t \<ge> int (blen n) - int (blen 1) - 53\<close> \<open>52 < blen n\<close> \<open>blen 1 = 1\<close> by simp
  ultimately show thesis using that [of m "e + t"] f err(3,4) t'(2) by simp
qed

lemma f64_of_int_exact:
  assumes "0 < n" and "n < 2 ^ 53"
  obtains m t where "f64_of_int (int n) = Fin False m t" "real m * 2 powi t = real n"
    "2 ^ 52 \<le> m" "m \<le> 2 ^ 53" "- 53 \<le> t" "t \<le> 0"
proof -
  obtain m t where mt: "round_pos 53 (- 1074) n 1 = (m, t)" by fastforce
  obtain a b where s: "scale n 1 t = (a, b)" by fastforce
  have t: "round_exp 53 (- 1074) n 1 = t" and m: "m = rne a b"
    using mt s by (auto simp: round_pos_def Let_def split: prod.splits)
  have "0 < blen n" using blen_pos assms(1) by blast
  moreover have "blen 1 = 1" by (simp add: blen.simps)
  moreover have "t \<ge> int (blen n) - int (blen 1) - 53"
    using t by (auto simp: round_exp_def Let_def max_def split: prod.splits if_splits)
  ultimately have tl: "- 53 \<le> t" by simp
  have nb: "2 ^ (53 - 1) * b \<le> a" "a < 2 ^ 53 * b"
    using round_exp_normal [OF assms(1) _ _ t _ s] tl by auto
  have t0: "t \<le> 0"
  proof (rule ccontr)
    assume "\<not> t \<le> 0"
    then have "a = n" "b = 2 ^ nat t" "1 \<le> nat t" using s by (auto simp: scale_def)
    moreover then have "(2::nat) ^ 1 \<le> b" using power_increasing [of 1 "nat t" "2::nat"] by simp
    ultimately show False using nb(1) assms(2) by simp
  qed
  then have ab: "a = n * 2 ^ nat (- t)" "b = 1" using s by (auto simp: scale_def split: if_splits)
  then have m': "m = n * 2 ^ nat (- t)" using m rne_exact [of 1 a] by simp
  then have "real m * 2 powi t = real n" using t0 by (auto simp: power_int_def field_simps)
  moreover have "f64_of_int (int n) = Fin False m t"
    using assms(1) mt t0 by (simp add: f64_of_int_def f64_round_def)
  moreover have "2 ^ 52 \<le> m" "m \<le> 2 ^ 53" using nb m' ab by simp_all
  ultimately show thesis using that tl t0 by blast
qed

lemma f64_trunc_floor: "f64_trunc (Fin False m e) = Some \<lfloor>real m * 2 powi e\<rfloor>"
proof (cases "e \<ge> 0")
  case True
  then have "real m * 2 powi e = real (m * 2 ^ nat e)" by (simp add: power_int_def)
  then have "\<lfloor>real m * 2 powi e\<rfloor> = int (m * 2 ^ nat e)" by (simp only: floor_of_nat)
  with True show ?thesis by (simp add: Let_def)
next
  case False
  then have "real m * 2 powi e = real m / real (2 ^ nat (- e))"
    by (simp add: power_int_def field_simps)
  moreover have "\<lfloor>real m / real (2 ^ nat (- e))\<rfloor> = int (m div 2 ^ nat (- e))"
    by (rule floor_divide_of_nat_eq)
  ultimately have "\<lfloor>real m * 2 powi e\<rfloor> = int (m div 2 ^ nat (- e))" by (rule ssubst)
  with False show ?thesis by (simp add: Let_def)
qed

text \<open>\<open>.94\<close> as a \<open>double\<close>: a little less than \<open>94 / 100\<close>.\<close>

lemma MEM_PERCENT_eq: "MEM_PERCENT = Fin False 8466767299456532 (- 53)"
  by (simp add: MEM_PERCENT_def f64_ratio_def f64_round_def round_pos_def round_exp_def scale_def
    rne_def blen.simps Let_def)

lemma percent_product:
  assumes "2 ^ 52 \<le> m" and "m \<le> 2 ^ 53" and "- 53 \<le> t" and "t \<le> 75"
  obtains k where "f64_trunc (fmul (Fin False m t) MEM_PERCENT) = Some (int k)"
    "100 * real k \<le> 94 * (real m * 2 powi t) * (1 + 1 / 2 ^ 53)"
    "94 * (real m * 2 powi t) * (1 - 1 / 2 ^ 51) \<le> 100 * real k + 100"
proof -
  let ?M = "8466767299456532 :: nat" and ?v = "real m * 2 powi t"
  have mm: "0 < m * ?M" "m * ?M < 2 ^ 128" "2 ^ 52 \<le> m * ?M"
    using assms(1,2) by simp_all
  obtain m' t' where r: "f64_round False (m * ?M) 1 (t + - 53) = Fin False m' t'"
    "real m' * 2 powi t' \<le> real (m * ?M) * 2 powi (t + - 53) * (1 + 1 / 2 ^ 53)"
    "real (m * ?M) * 2 powi (t + - 53) * (1 - 1 / 2 ^ 53) \<le> real m' * 2 powi t'"
    by (rule f64_round_normal [OF mm, of "t + - 53" False])
      (use assms(3,4) in simp, rule that, assumption+)
  have p: "real (m * ?M) * 2 powi (t + - 53) = ?v * (real ?M / 2 ^ 53)"
  proof -
    have "2 powi (t + - 53) = 2 powi t * (2 powi (- 53) :: real)" by (rule power_int_add) simp
    moreover have "(2::real) powi (- 53) = 1 / 2 ^ 53" by (simp add: power_int_minus field_simps)
    ultimately show ?thesis by simp
  qed
  define w where "w = real m' * 2 powi t'"
  have v: "0 \<le> ?v" by simp
  have w0: "0 \<le> w" by (simp add: w_def)
  have wu: "w \<le> ?v * (real ?M / 2 ^ 53) * (1 + 1 / 2 ^ 53)"
    and wl: "?v * (real ?M / 2 ^ 53) * (1 - 1 / 2 ^ 53) \<le> w"
    by (rule r(2) [unfolded p, folded w_def]) (rule r(3) [unfolded p, folded w_def])
  have "f64_trunc (fmul (Fin False m t) MEM_PERCENT) = Some \<lfloor>w\<rfloor>"
    using r(1) by (simp add: MEM_PERCENT_eq f64_trunc_floor w_def del: f64_trunc.simps)
  then have k: "f64_trunc (fmul (Fin False m t) MEM_PERCENT) = Some (int (nat \<lfloor>w\<rfloor>))"
    using w0 by simp
  have kw: "real (nat \<lfloor>w\<rfloor>) \<le> w" "w < real (nat \<lfloor>w\<rfloor>) + 1" using w0 by linarith+
  have "?v * (real ?M / 2 ^ 53 * (1 + 1 / 2 ^ 53)) \<le> ?v * (94 / 100 * (1 + 1 / 2 ^ 53))"
    using v by (intro mult_left_mono) simp_all
  then have u: "100 * real (nat \<lfloor>w\<rfloor>) \<le> 94 * ?v * (1 + 1 / 2 ^ 53)"
    using kw(1) wu by (simp add: mult.assoc)
  have "?v * (94 / 100 * (1 - 1 / 2 ^ 51)) \<le> ?v * (real ?M / 2 ^ 53 * (1 - 1 / 2 ^ 53))"
    using v by (intro mult_left_mono) simp_all
  then have "94 * ?v * (1 - 1 / 2 ^ 51) \<le> 100 * real (nat \<lfloor>w\<rfloor>) + 100"
    using kw(2) wl by (simp add: mult.assoc)
  with k u show thesis by (rule that)
qed

lemma hpl_ram_eq:
  assumes "f64_trunc (fmul (f64_of_int (int (unat ((kb - MEM_RESERVE) * 1024)))) MEM_PERCENT) = Some (int k)"
  shows "hpl_ram kb = Some (word_of_nat k)"
  using assms by (simp add: hpl_ram_def Let_def)

text \<open>Below 64 TiB the program works on 94 percent of the memory above the reserve.\<close>

lemma hpl_ram_share:
  assumes kb: "786432 < kb" "kb \<le> 2 ^ 36"
  obtains r where "hpl_ram (word_of_nat kb) = Some (word_of_nat r)" "r < 2 ^ 46"
    "100 * r \<le> 94 * ((kb - 786432) * 1024)" "94 * ((kb - 786432) * 1024) < 100 * r + 200"
proof -
  define X where "X = (kb - 786432) * 1024"
  have X: "0 < X" "X < 2 ^ 46" using kb by (auto simp: X_def)
  have w: "(word_of_nat kb - MEM_RESERVE) * 1024 = (word_of_nat X :: 64 word)"
    using kb(1) by (simp add: X_def MEM_RESERVE_def of_nat_diff)
  have u: "unat ((word_of_nat kb - MEM_RESERVE) * 1024) = X"
    using X by (simp only: w) (simp add: unat_of_nat)
  obtain m t where mt: "f64_of_int (int X) = Fin False m t" "real m * 2 powi t = real X"
    "2 ^ 52 \<le> m" "m \<le> 2 ^ 53" "- 53 \<le> t" "t \<le> 0"
    using f64_of_int_exact [of X] X by auto
  obtain k where k: "f64_trunc (fmul (Fin False m t) MEM_PERCENT) = Some (int k)"
    "100 * real k \<le> 94 * real X * (1 + 1 / 2 ^ 53)"
    "94 * real X * (1 - 1 / 2 ^ 51) \<le> 100 * real k + 100"
    using percent_product [OF mt(3,4,5)] mt(2,6) by auto
  have "hpl_ram (word_of_nat kb) = Some (word_of_nat k)"
    by (rule hpl_ram_eq) (simp only: u mt(1) k(1))
  moreover have "real X < real (2 ^ 46)" using X(2) of_nat_less_iff by blast
  then have xr: "real X < 2 ^ 46" by simp
  have "100 * real k < 94 * real X + 1" using k(2) xr by (simp add: algebra_simps)
  then have "real (100 * k) < real (94 * X + 1)" by simp
  then have ku: "100 * k \<le> 94 * X" unfolding of_nat_less_iff by simp
  moreover have "94 * real X < 100 * real k + 200" using k(3) xr by (simp add: algebra_simps)
  then have "real (94 * X) < real (100 * k + 200)" by simp
  then have "94 * X < 100 * k + 200" unfolding of_nat_less_iff .
  moreover have "k < 2 ^ 46" using ku X(2) by simp
  ultimately show thesis using that by (simp add: X_def)
qed

lemma strtoull_show_nat: "n < 2 ^ 64 \<Longrightarrow> strtoull (show_nat n) = word_of_nat n"
  using scan_int_fmt_d [of "[]" "int n"]
  by (simp add: strtoull_def fmt_d_def)

text \<open>The size printed: the largest multiple of 192 whose matrix of doubles fits.\<close>

lemma hpl_n_bounds:
  assumes "unat r < 2 ^ 63"
  shows "192 dvd hpl_n r \<and> 8 * (hpl_n r * hpl_n r) \<le> unat r \<and>
    unat r < 8 * ((hpl_n r + 192) * (hpl_n r + 192))"
proof -
  define K where "K = ld_trunc (sqrtl (unat r) (- 3))"
  have N: "hpl_n r = K div 192 * 192" by (simp add: hpl_n_def Let_def K_def)
  have "8 * (K * K) \<le> unat r" using ld_sqrt_upper assms by (simp add: K_def)
  moreover have "unat r < 8 * ((K + 1) * (K + 1))"
  proof (rule ccontr)
    assume "\<not> ?thesis"
    then have "K + 1 \<le> K" using ld_sqrt_lower [of "unat r" "K + 1"] assms by (simp add: K_def)
    then show False by simp
  qed
  moreover have "hpl_n r \<le> K" "K + 1 \<le> hpl_n r + 192" by (simp_all add: N)
  moreover from this have "hpl_n r * hpl_n r \<le> K * K" "(K + 1) * (K + 1) \<le> (hpl_n r + 192) * (hpl_n r + 192)"
    by (blast intro: mult_le_mono)+
  ultimately show ?thesis by (simp add: N)
qed

section \<open>The two results\<close>

lemma calc_pq_grid:
  assumes "0 < cores"
  shows "\<exists>P Q. calc_pq cores = Some (P, Q) \<and> P * Q = cores \<and> 1 \<le> P \<and> P \<le> Q \<and>
    (\<forall>a b. 1 \<le> a \<and> a \<le> b \<and> a * b = cores \<longrightarrow> a \<le> P \<and> Q \<le> b)"
proof -
  obtain n where n: "cores = int n" "0 < n" using assms zero_less_imp_eq_int by auto
  obtain s where s: "ceil_sqrt (int n) = Some (int s)" "n \<le> s * s"
    "\<And>k. k * k < n \<Longrightarrow> k < s" "\<And>k. n \<le> k * k \<Longrightarrow> s \<le> k"
    using ceil_sqrt_nat by blast
  have "1 \<le> s" using s(2) n(2) by (cases s) auto
  note loop = pq_loop_props [OF n(2) this]
  define p where "p = nat (pq_loop (int n) (int s))"
  have pi: "pq_loop (int n) (int s) = int p" using loop by (simp add: p_def)
  have p: "1 \<le> p" "p \<le> s" "p dvd n" "\<And>d. d dvd n \<Longrightarrow> d \<le> s \<Longrightarrow> d \<le> p"
    using loop unfolding pi by auto
  define q where "q = n div p"
  have pq: "p * q = n" using p(3) by (simp add: q_def)
  have best: "a \<le> p \<and> a \<le> q" if "a * b = n" "a \<le> b" for a b
    using squarest [of n s p q a b] s(3,4) pq p(2,4) that n(2) by blast
  have "cdiv (int n) (int p) = int q" using p(1) by (simp add: cdiv_nonneg q_def zdiv_int)
  then have c: "calc_pq cores = Some (int (min p q), int (max p q))"
    using s(1) pi p(1) n(1) by (simp add: calc_pq_def Let_def)
  have minmax: "min p q * max p q = n" using pq by (simp add: min_def max_def mult.commute)
  have "1 \<le> min p q" using pq n(2) p(1) by (cases q) auto
  moreover have "a \<le> int (min p q) \<and> int (max p q) \<le> b"
    if ab: "1 \<le> a" "a \<le> b" "a * b = cores" for a b
  proof -
    obtain a' b' where ab': "a = int a'" "b = int b'" using ab by (metis nonneg_int_cases order_trans zero_le_one)
    then have "a' * b' = n" "a' \<le> b'" using ab n(1) by (simp_all flip: of_nat_mult)
    then have le: "a' \<le> min p q" using best by simp
    have "min p q * max p q \<le> min p q * b'" using le \<open>a' * b' = n\<close> minmax by (metis mult_le_mono1)
    then have "max p q \<le> b'" using \<open>1 \<le> min p q\<close> by simp
    with le ab' show ?thesis by simp
  qed
  ultimately show ?thesis using c minmax n(1)
    by (intro exI [of _ "int (min p q)"] exI [of _ "int (max p q)"]) (auto simp flip: of_nat_mult)
qed

lemma hpl_calc_n_size:
  assumes "786432 < kb" and "kb \<le> 2 ^ 36"
  shows "\<exists>N. hpl_calc_n_main (Some (show_nat kb)) = Some (show_nat N @ [NL]) \<and> 192 dvd N \<and>
    100 * (8 * (N * N)) \<le> 94 * ((kb - 786432) * 1024) \<and>
    94 * ((kb - 786432) * 1024) < 100 * (8 * ((N + 192) * (N + 192)) + 2)"
proof -
  obtain r where r: "hpl_ram (word_of_nat kb) = Some (word_of_nat r)" "r < 2 ^ 46"
    "100 * r \<le> 94 * ((kb - 786432) * 1024)" "94 * ((kb - 786432) * 1024) < 100 * r + 200"
    using hpl_ram_share [OF assms] .
  define N where "N = hpl_n (word_of_nat r)"
  have u: "unat (word_of_nat r :: 64 word) = r" using r(2) by (simp add: unat_of_nat)
  then have b: "192 dvd N" "8 * (N * N) \<le> r" "r < 8 * ((N + 192) * (N + 192))"
    using hpl_n_bounds [of "word_of_nat r"] r(2) by (simp_all add: N_def)
  have "hpl_calc_n_main (Some (show_nat kb)) = Some (show_nat N @ [NL])"
    using r(1) assms(2) by (simp add: hpl_calc_n_main_def strtoull_show_nat N_def)
  moreover have "100 * (8 * (N * N)) \<le> 94 * ((kb - 786432) * 1024)" using b(2) r(3) by linarith
  moreover have "94 * ((kb - 786432) * 1024) < 100 * (8 * ((N + 192) * (N + 192)) + 2)"
  proof -
    define Q where "Q = 8 * ((N + 192) * (N + 192))"
    have "r + 1 \<le> Q" using b(3) by (simp add: Q_def)
    then have "100 * r + 200 < 100 * (Q + 2)" by simp
    with r(4) show ?thesis unfolding Q_def by linarith
  qed
  ultimately show ?thesis using b(1) by blast
qed

section \<open>Properties\<close>

text \<open>C31: For every positive core count the grid program prints two factors of it with
  \<open>P \<le> Q\<close>, and no other factorisation is closer to a square.\<close>

theorem calc_pq_squarest:
  assumes "0 < cores"
  shows "\<exists>P Q. calc_pq cores = Some (P, Q) \<and> P * Q = cores \<and> 1 \<le> P \<and> P \<le> Q \<and>
    (\<forall>a b. 1 \<le> a \<and> a \<le> b \<and> a * b = cores \<longrightarrow> a \<le> P \<and> Q \<le> b)"
  by (rule calc_pq_grid [OF assms])

theorem calc_pq_squarest_witness:
  "\<exists>P Q. calc_pq 12 = Some (P, Q) \<and> P * Q = 12 \<and> 1 \<le> P \<and> P \<le> Q \<and>
    (\<forall>a b. 1 \<le> a \<and> a \<le> b \<and> a * b = 12 \<longrightarrow> a \<le> P \<and> Q \<le> b)"
  by (rule calc_pq_squarest) simp

text \<open>C32: The grid program is undefined exactly for a core count that is not positive (a
  division by zero at 0, the conversion of a NaN below).\<close>

theorem calc_pq_undefined: "calc_pq cores = None \<longleftrightarrow> cores \<le> 0"
proof (cases "0 < cores")
  case True
  then obtain n where n: "cores = int n" "0 < n" using zero_less_imp_eq_int by auto
  obtain s where s: "ceil_sqrt (int n) = Some (int s)" "n \<le> s * s"
    using ceil_sqrt_nat by blast
  then have "1 \<le> s" using n(2) by (cases s) auto
  then have "pq_loop (int n) (int s) \<noteq> 0" using pq_loop_props [OF n(2), of s] by auto
  with s n True show ?thesis by (simp add: calc_pq_def Let_def)
next
  case False
  then show ?thesis
    by (auto simp: calc_pq_def ceil_sqrt_def isqrt.simps pq_loop.simps Let_def)
qed

text \<open>C33: For a memory size between 768 MiB and 64 TiB the size program prints a multiple
  \<open>N\<close> of 192 such that a matrix of \<open>N * N\<close> doubles fits in 94 percent of the memory above
  the 768 MiB reserve, and the next multiple of 192 does not (up to two bytes of rounding).\<close>

theorem hpl_calc_n_fits:
  assumes "786432 < kb" and "kb \<le> 2 ^ 36"
  shows "\<exists>N. hpl_calc_n_main (Some (show_nat kb)) = Some (show_nat N @ [NL]) \<and> 192 dvd N \<and>
    100 * (8 * (N * N)) \<le> 94 * ((kb - 786432) * 1024) \<and>
    94 * ((kb - 786432) * 1024) < 100 * (8 * ((N + 192) * (N + 192)) + 2)"
  by (rule hpl_calc_n_size [OF assms])

theorem hpl_calc_n_fits_witness:
  "\<exists>N. hpl_calc_n_main (Some (show_nat 1000000)) = Some (show_nat N @ [NL]) \<and> 192 dvd N \<and>
    100 * (8 * (N * N)) \<le> 94 * ((1000000 - 786432) * 1024) \<and>
    94 * ((1000000 - 786432) * 1024) < 100 * (8 * ((N + 192) * (N + 192)) + 2)"
  by (rule hpl_calc_n_fits) simp_all

text \<open>Below the reserve the subtraction wraps around and the product stays close to \<open>2 ^ 64\<close>.\<close>

lemma hpl_ram_wraps:
  assumes "kb < 786432"
  obtains r where "hpl_ram (word_of_nat kb) = Some (word_of_nat r)" "2 ^ 63 \<le> r" "r < 2 ^ 64"
proof -
  define X where "X = (2::nat) ^ 64 - (786432 - kb) * 1024"
  have X: "2 ^ 64 - 2 ^ 30 \<le> X" "X < 2 ^ 64" using assms by (auto simp: X_def)
  have "(word_of_nat kb - MEM_RESERVE) * 1024 = (- (word_of_nat ((786432 - kb) * 1024)) :: 64 word)"
    using assms by (simp add: MEM_RESERVE_def of_nat_diff)
  also have "\<dots> = word_of_nat X"
    using assms by (simp add: X_def of_nat_diff)
  finally have w: "(word_of_nat kb - MEM_RESERVE) * 1024 = (word_of_nat X :: 64 word)" .
  have u: "unat ((word_of_nat kb - MEM_RESERVE) * 1024) = X"
    using X by (simp only: w) (simp add: unat_of_nat)
  obtain m t where mt: "f64_round False X 1 0 = Fin False m t"
    "real m * 2 powi t \<le> real X * 2 powi 0 * (1 + 1 / 2 ^ 53)"
    "real X * 2 powi 0 * (1 - 1 / 2 ^ 53) \<le> real m * 2 powi t"
    "2 ^ 52 \<le> m" "m \<le> 2 ^ 53" "0 - 1 \<le> t" "t \<le> 0 + 75"
    by (rule f64_round_normal [of X 0 False]) (use X in simp_all)
  have f: "f64_of_int (int X) = Fin False m t" using mt(1) by (simp add: f64_of_int_def)
  define v where "v = real m * 2 powi t"
  have xr: "real (2 ^ 64 - 2 ^ 30) \<le> real X" "real X < real (2 ^ 64)"
    using X of_nat_le_iff of_nat_less_iff by blast+
  have v: "v \<le> real X * (1 + 1 / 2 ^ 53)" "real X * (1 - 1 / 2 ^ 53) \<le> v"
    using mt(2,3) by (simp_all add: v_def)
  obtain k where k: "f64_trunc (fmul (Fin False m t) MEM_PERCENT) = Some (int k)"
    "100 * real k \<le> 94 * v * (1 + 1 / 2 ^ 53)" "94 * v * (1 - 1 / 2 ^ 51) \<le> 100 * real k + 100"
    unfolding v_def by (rule percent_product [OF mt(4,5)]) (use mt(6,7) in simp_all)
  have "hpl_ram (word_of_nat kb) = Some (word_of_nat k)"
    by (rule hpl_ram_eq) (simp only: u f k(1))
  moreover have "real k < real (2 ^ 64)" using k(2) v(1) xr(2) by simp
  then have "k < 2 ^ 64" unfolding of_nat_less_iff .
  moreover have "real (2 ^ 63) \<le> real k" using k(3) v(2) xr(1) by simp
  then have "2 ^ 63 \<le> k" unfolding of_nat_le_iff .
  ultimately show thesis using that by blast
qed

text \<open>C34: On a machine with less than 768 MiB the size program does not report an error
  but prints a problem size whose matrix needs more than \<open>2 ^ 60\<close> bytes.\<close>

theorem hpl_calc_n_underflow:
  assumes "kb < 786432"
  shows "\<exists>N. hpl_calc_n_main (Some (show_nat kb)) = Some (show_nat N @ [NL]) \<and> 2 ^ 60 < 8 * (N * N)"
proof -
  obtain r where r: "hpl_ram (word_of_nat kb) = Some (word_of_nat r)" "2 ^ 63 \<le> r" "r < 2 ^ 64"
    using hpl_ram_wraps [OF assms] .
  define N where "N = hpl_n (word_of_nat r)"
  have u: "unat (word_of_nat r :: 64 word) = r" using r(3) by (simp add: unat_of_nat)
  have "2 ^ 30 \<le> ld_trunc (sqrtl r (- 3))" using ld_sqrt_lower [of r "2 ^ 30"] r(2,3) by simp
  then have "2 ^ 29 \<le> N" by (simp add: N_def hpl_n_def Let_def u)
  then have "2 ^ 29 * 2 ^ 29 \<le> N * N" by (rule mult_le_mono) fact
  then have "2 ^ 60 < 8 * (N * N)" by simp
  moreover have "hpl_calc_n_main (Some (show_nat kb)) = Some (show_nat N @ [NL])"
    using r(1) assms by (simp add: hpl_calc_n_main_def strtoull_show_nat N_def)
  ultimately show ?thesis by blast
qed

theorem hpl_calc_n_underflow_witness:
  "\<exists>N. hpl_calc_n_main (Some (show_nat 524288)) = Some (show_nat N @ [NL]) \<and> 2 ^ 60 < 8 * (N * N)"
  by (rule hpl_calc_n_underflow) simp

end
