(* ===== verification/Log.thy ===== *)
theory Log
  imports Util
begin

text \<open>
  The log of \<open>breakin.c\<close>: \<open>running_time\<close>, \<open>log_message\<close> and \<open>log_error\<close> with their four
  sinks (the log window, the log file, the log device file and the serial port), and the two
  functions that follow a growing file, \<open>monitor_syslog\<close> and \<open>show_log\<close>. A \<open>FILE *\<close> is the text
  written to it, \<open>None\<close> for a null pointer; a window is the list of texts printed into it with
  their colour pairs; a file that is read is its content, \<open>None\<close> when \<open>fopen\<close> fails.
\<close>

section \<open>State\<close>

record log_state =
  clock :: int
  start_time :: int
  log_win :: "(nat \<times> string) list"
  log_file :: "string option"
  logdev_file :: "string option"
  serial_enabled :: bool
  serial_file :: "string option"
  log_pos :: int
  syslog_pos :: int

section \<open>running_time\<close>

text \<open>\<open>run_time\<close> is an \<open>int\<close>; division and remainder truncate.\<close>

definition run_secs :: "log_state \<Rightarrow> int" where
  "run_secs w = to_i32 (clock w - start_time w)"

definition hms :: "int \<Rightarrow> string" where
  "hms t = (let hours = cdiv t 3600; t = cmod t 3600; mins = cdiv t 60; secs = cmod t 60 in
     fmt_0d 2 hours @ ''h '' @ fmt_0d 2 mins @ ''m '' @ fmt_0d 2 secs @ ''s'')"

definition running_time :: "log_state \<Rightarrow> string" where
  "running_time w = hms (run_secs w)"

section \<open>Messages\<close>

definition fput :: "string \<Rightarrow> string option \<Rightarrow> string option" where
  "fput s f = map_option (\<lambda>t. t @ s) f"

definition wprintw :: "nat \<Rightarrow> string \<Rightarrow> log_state \<Rightarrow> log_state" where
  "wprintw pair s w = w\<lparr>log_win := log_win w @ [(pair, s)]\<rparr>"

definition log_message :: "string \<Rightarrow> log_state \<Rightarrow> log_state" where
  "log_message msg w0 =
     (let t = running_time w0;
          w = wprintw 2 (t @ '': '' @ msg @ [NL]) w0;
          w = w\<lparr>log_file := fput (''MSG '' @ t @ '' '' @ msg @ [NL, NL]) (log_file w)\<rparr>;
          w = w\<lparr>logdev_file := fput (''MSG '' @ t @ '' '' @ msg @ [NL]) (logdev_file w)\<rparr>
      in if serial_enabled w
         then w\<lparr>serial_file := fput (''MSG '' @ t @ '' '' @ msg @ [NL]) (serial_file w)\<rparr>
         else w)"

definition log_error :: "string \<Rightarrow> log_state \<Rightarrow> log_state" where
  "log_error msg w0 =
     (let t = running_time w0;
          w = wprintw 2 (t @ '': '') w0;
          w = wprintw 1 (msg @ [NL]) w;
          w = w\<lparr>log_file := fput (''ERR '' @ t @ '' '' @ msg @ [NL]) (log_file w)\<rparr>;
          w = w\<lparr>logdev_file := fput (''ERR '' @ t @ '' '' @ msg @ [NL]) (logdev_file w)\<rparr>
      in if serial_enabled w
         then w\<lparr>serial_file := fput (''ERR '' @ t @ '' '' @ msg @ [NL]) (serial_file w)\<rparr>
         else w)"

section \<open>Following a file\<close>

text \<open>The position \<open>- 1\<close> stands for "not read yet": the first call only seeks to the end. Later
  calls seek from the start of the newly opened file; seeking past the end is allowed, and
  \<open>ftell\<close> then reports that position.\<close>

definition unread :: "int \<Rightarrow> string \<Rightarrow> string" where
  "unread pos content = (if pos = - 1 then [] else drop (nat pos) content)"

definition tell :: "int \<Rightarrow> string \<Rightarrow> int" where
  "tell pos content = max pos (int (length content))"

text \<open>\<open>while (fgets(buf, ...) != NULL) { trim(buf); ... }\<close>\<close>

fun each_line :: "(string \<Rightarrow> 'w \<Rightarrow> 'w) \<Rightarrow> string list \<Rightarrow> 'w \<Rightarrow> 'w option" where
  "each_line f [] w = Some w"
| "each_line f (l # ls) w = do { s \<leftarrow> trim_line l; each_line f ls (f s w) }"

definition is_err :: "string \<Rightarrow> bool" where
  "is_err s \<longleftrightarrow> strstr s ''.err'' \<noteq> None"

definition is_emerg :: "string \<Rightarrow> bool" where
  "is_emerg s \<longleftrightarrow> strstr s ''.emerg'' \<noteq> None"

definition syslog_line :: "string \<Rightarrow> log_state \<Rightarrow> log_state" where
  "syslog_line buf w = (if is_err buf then log_error buf w
                        else if is_emerg buf then log_error buf w else w)"

definition monitor_syslog :: "string option \<Rightarrow> log_state \<Rightarrow> log_state option" where
  "monitor_syslog file w =
     (case file of
        None \<Rightarrow> Some w
      | Some content \<Rightarrow> do {
          w' \<leftarrow> each_line syslog_line (fgets_all BUFSIZ (unread (syslog_pos w) content)) w;
          Some (w'\<lparr>syslog_pos := tell (syslog_pos w) content\<rparr>)
        })"

definition show_log :: "string option \<Rightarrow> log_state \<Rightarrow> log_state option" where
  "show_log file w =
     (case file of
        None \<Rightarrow> Some w
      | Some content \<Rightarrow> do {
          w' \<leftarrow> each_line log_error (fgets_all BUFSIZ (unread (log_pos w) content)) w;
          Some (w'\<lparr>log_pos := tell (log_pos w) content\<rparr>)
        })"

section \<open>Frame lemmas\<close>

named_theorems log_frame \<open>what the log functions leave alone\<close>

lemma wprintw_frame [log_frame]:
  "clock (wprintw p s w) = clock w" "start_time (wprintw p s w) = start_time w"
  "log_pos (wprintw p s w) = log_pos w" "syslog_pos (wprintw p s w) = syslog_pos w"
  "serial_enabled (wprintw p s w) = serial_enabled w" "log_file (wprintw p s w) = log_file w"
  "logdev_file (wprintw p s w) = logdev_file w" "serial_file (wprintw p s w) = serial_file w"
  "log_win (wprintw p s w) = log_win w @ [(p, s)]"
  by (simp_all add: wprintw_def)

lemma log_message_frame [log_frame]:
  "clock (log_message m w) = clock w" "start_time (log_message m w) = start_time w"
  "log_pos (log_message m w) = log_pos w" "syslog_pos (log_message m w) = syslog_pos w"
  "serial_enabled (log_message m w) = serial_enabled w"
  by (simp_all add: log_message_def Let_def log_frame)

lemma log_error_frame [log_frame]:
  "clock (log_error m w) = clock w" "start_time (log_error m w) = start_time w"
  "log_pos (log_error m w) = log_pos w" "syslog_pos (log_error m w) = syslog_pos w"
  "serial_enabled (log_error m w) = serial_enabled w"
  by (simp_all add: log_error_def Let_def log_frame)

lemma syslog_line_frame [log_frame]:
  "clock (syslog_line m w) = clock w" "start_time (syslog_line m w) = start_time w"
  "log_pos (syslog_line m w) = log_pos w" "syslog_pos (syslog_line m w) = syslog_pos w"
  by (simp_all add: syslog_line_def log_frame)

text \<open>A quantity that every line keeps is kept by the loop.\<close>

lemma each_line_keeps:
  "(\<And>s w. g (f s w) = g w) \<Longrightarrow> each_line f ls w = Some w' \<Longrightarrow> g w' = g w"
  by (induction ls arbitrary: w) (auto split: bind_splits)

lemma running_time_frame [log_frame]:
  "running_time (log_message m w) = running_time w" "running_time (log_error m w) = running_time w"
  by (simp_all add: running_time_def run_secs_def log_frame)

section \<open>Lines of a growing file\<close>

text \<open>A text that ends with a newline can be read in two parts.\<close>

lemma take_line_append: "NL \<in> set a \<Longrightarrow> take_line n (a @ b) = take_line n a"
  by (induction n a rule: take_line.induct) auto

lemma take_line_last: "a \<noteq> [] \<Longrightarrow> last a = NL \<Longrightarrow> drop (length (take_line n a)) a = [] \<or>
    last (drop (length (take_line n a)) a) = NL"
  using last_drop [of "length (take_line n a)" a] by (metis drop_eq_Nil linorder_not_le)

lemma fgets_all_append:
  "1 < n \<Longrightarrow> a = [] \<or> last a = NL \<Longrightarrow> fgets_all n (a @ b) = fgets_all n a @ fgets_all n b"
proof (induction n a rule: fgets_all.induct)
  case (1 n a)
  have n: "1 < n" using 1 by simp
  show ?case
  proof (cases "a = []")
    case False
    with 1 have l: "last a = NL" by simp
    then have nl: "NL \<in> set a" using False by (metis last_in_set)
    let ?l = "take_line (n - 1) a"
    have fa: "fgets n a = Some (?l, drop (length ?l) a)" using False by (simp add: fgets_def Let_def)
    have le: "length ?l \<le> length a" using take_line_prefix [of "n - 1" a] by (metis le_add1 length_append)
    have fab: "fgets n (a @ b) = Some (?l, drop (length ?l) a @ b)"
      using False nl le by (simp add: fgets_def Let_def take_line_append)
    have "fgets_all n (drop (length ?l) a @ b) = fgets_all n (drop (length ?l) a) @ fgets_all n b"
      using "1.IH" [OF _ fa] n take_line_last [OF False l, of "n - 1"] by auto
    moreover have "fgets_all n (a @ b) = ?l # fgets_all n (drop (length ?l) a @ b)"
      using n fab by (subst fgets_all.simps) simp
    moreover have "fgets_all n a = ?l # fgets_all n (drop (length ?l) a)"
      using n fa by (subst fgets_all.simps) simp
    ultimately show ?thesis by simp
  qed simp
qed

lemma each_line_append:
  "each_line f (ls @ ms) w = do { w' \<leftarrow> each_line f ls w; each_line f ms w' }"
  by (induction ls arbitrary: w) (auto split: bind_splits)

text \<open>A line as \<open>trim\<close> leaves it; the loop over lines is undefined exactly when one is blank.\<close>

definition trimmed :: "string \<Rightarrow> string" where
  "trimmed l = strip (takeWhile (\<lambda>c. c \<noteq> NUL) l)"

definition blank_line :: "string \<Rightarrow> bool" where
  "blank_line l \<longleftrightarrow> all_blank (takeWhile (\<lambda>c. c \<noteq> NUL) l)"

lemma trim_line_trimmed: "trim_line l = (if blank_line l then None else Some (trimmed l))"
  by (simp add: trim_line_eq Let_def blank_line_def trimmed_def)

lemma each_line_None: "each_line f ls w = None \<longleftrightarrow> (\<exists>l \<in> set ls. blank_line l)"
  by (induction ls arbitrary: w) (auto simp: trim_line_trimmed)

lemma each_line_fold:
  "\<forall>l \<in> set ls. \<not> blank_line l \<Longrightarrow> each_line f ls w = Some (fold f (map trimmed ls) w)"
  by (induction ls arbitrary: w) (auto simp: trim_line_trimmed)

section \<open>The interface of a line sink\<close>

text \<open>
  What following a file relies on: handling a line adds what \<open>sel\<close> says of it to the view, and
  nothing else.
\<close>

locale line_sink =
  fixes f :: "string \<Rightarrow> 'w \<Rightarrow> 'w" and view :: "'w \<Rightarrow> string list" and sel :: "string \<Rightarrow> bool"
  assumes view_f: "view (f s w) = view w @ (if sel s then [s] else [])"
begin

lemma view_each_line:
  "each_line f ls w = Some w' \<Longrightarrow> view w' = view w @ filter sel (map trimmed ls)"
  by (induction ls arbitrary: w) (auto simp: trim_line_trimmed view_f split: bind_splits if_splits)

end

text \<open>The view of the log: the messages printed in colour pair 1 (red), which are the errors.\<close>

definition errors_shown :: "log_state \<Rightarrow> string list" where
  "errors_shown w = map (\<lambda>(p, s). butlast s) (filter (\<lambda>(p, s). p = 1) (log_win w))"

lemma errors_log_error: "errors_shown (log_error s w) = errors_shown w @ [s]"
  by (simp add: errors_shown_def log_error_def Let_def log_frame)

lemma errors_log_message: "errors_shown (log_message s w) = errors_shown w"
  by (simp add: errors_shown_def log_message_def Let_def log_frame)

interpretation errs: line_sink log_error errors_shown "\<lambda>s. True"
  by unfold_locales (simp add: errors_log_error)

interpretation sys: line_sink syslog_line errors_shown "\<lambda>s. is_err s \<or> is_emerg s"
  by unfold_locales (simp add: syslog_line_def errors_log_error)

section \<open>Following a file over several polls\<close>

text \<open>The contents of a file that grows by \<open>d\<close> between polls, and a poll of each.\<close>

fun growth :: "string \<Rightarrow> string list \<Rightarrow> string list" where
  "growth c [] = []"
| "growth c (d # ds) = (c @ d) # growth (c @ d) ds"

fun polls :: "(string option \<Rightarrow> 'w \<Rightarrow> 'w option) \<Rightarrow> string list \<Rightarrow> 'w \<Rightarrow> 'w option" where
  "polls p [] w = Some w"
| "polls p (c # cs) w = do { w' \<leftarrow> p (Some c) w; polls p cs w' }"

definition whole_lines :: "string \<Rightarrow> bool" where
  "whole_lines d \<longleftrightarrow> d = [] \<or> last d = NL"

lemma BUFSIZ_gt: "1 < BUFSIZ"
  by (simp add: BUFSIZ_def)

lemma monitor_syslog_read:
  assumes "syslog_pos w = int (length c)" and "\<forall>l \<in> set (fgets_all BUFSIZ d). \<not> blank_line l"
  shows "\<exists>w'. monitor_syslog (Some (c @ d)) w = Some w' \<and> syslog_pos w' = int (length (c @ d)) \<and>
    errors_shown w' = errors_shown w @
      filter (\<lambda>s. is_err s \<or> is_emerg s) (map trimmed (fgets_all BUFSIZ d))"
proof -
  obtain w' where e: "each_line syslog_line (fgets_all BUFSIZ d) w = Some w'"
    using each_line_None assms(2) by (metis not_None_eq)
  moreover have "unread (syslog_pos w) (c @ d) = d" using assms(1) by (simp add: unread_def)
  ultimately show ?thesis
    using sys.view_each_line [OF e] assms(1)
    by (auto simp: monitor_syslog_def tell_def errors_shown_def)
qed

lemma polls_syslog:
  "\<forall>d \<in> set ds. \<forall>l \<in> set (fgets_all BUFSIZ d). \<not> blank_line l \<Longrightarrow> syslog_pos w = int (length c) \<Longrightarrow>
   \<exists>w'. polls monitor_syslog (growth c ds) w = Some w' \<and>
    errors_shown w' = errors_shown w @
      filter (\<lambda>s. is_err s \<or> is_emerg s) (map trimmed (concat (map (fgets_all BUFSIZ) ds)))"
proof (induction ds arbitrary: c w)
  case Nil
  then show ?case by simp
next
  case (Cons d ds)
  obtain w1 where w1: "monitor_syslog (Some (c @ d)) w = Some w1" "syslog_pos w1 = int (length (c @ d))"
    "errors_shown w1 = errors_shown w @
      filter (\<lambda>s. is_err s \<or> is_emerg s) (map trimmed (fgets_all BUFSIZ d))"
    using monitor_syslog_read [OF Cons.prems(2), of d] Cons.prems(1) by auto
  then show ?case using Cons.IH [OF _ w1(2)] Cons.prems(1) by auto
qed

text \<open>Cutting a text behind newlines does not change its lines.\<close>

lemma whole_lines_concat:
  "\<forall>d \<in> set ds. whole_lines d \<Longrightarrow> concat (map (fgets_all BUFSIZ) ds) = fgets_all BUFSIZ (concat ds)"
  by (induction ds) (simp_all add: fgets_all_append [OF BUFSIZ_gt] whole_lines_def)

section \<open>Properties\<close>

text \<open>For a run shorter than \<open>2 ^ 31\<close> seconds, the time stamp shows hours, minutes and seconds
  that add up to the seconds since the start, with minutes and seconds below 60.\<close>

theorem running_time_hms:
  assumes "0 \<le> clock w - start_time w" and "clock w - start_time w < 2 ^ 31"
  shows "\<exists>h m s. running_time w = fmt_0d 2 h @ ''h '' @ fmt_0d 2 m @ ''m '' @ fmt_0d 2 s @ ''s'' \<and>
    3600 * h + 60 * m + s = clock w - start_time w \<and> 0 \<le> h \<and> 0 \<le> m \<and> m < 60 \<and> 0 \<le> s \<and> s < 60"
proof -
  let ?t = "clock w - start_time w"
  have t: "run_secs w = ?t" using assms by (simp add: run_secs_def to_i32_id)
  let ?h = "?t div 3600" and ?m = "?t mod 3600 div 60" and ?s = "?t mod 3600 mod 60"
  have "running_time w = fmt_0d 2 ?h @ ''h '' @ fmt_0d 2 ?m @ ''m '' @ fmt_0d 2 ?s @ ''s''"
    using assms(1) by (simp add: running_time_def t hms_def Let_def cdiv_nonneg cmod_nonneg)
  moreover have "3600 * ?h + 60 * ?m + ?s = ?t" by (simp add: mult_div_mod_eq algebra_simps)
  moreover have "0 \<le> ?h" "0 \<le> ?m" "?m < 60" "0 \<le> ?s" "?s < 60" using assms(1)
    by (auto simp: pos_imp_zdiv_nonneg_iff intro: div_less_dividend [THEN order.strict_trans2])
  ultimately show ?thesis by blast
qed

theorem running_time_hms_witness:
  "\<exists>h m s. 3600 * h + 60 * m + s = (3725 :: int) \<and> m < 60 \<and> s < 60 \<and>
    running_time \<lparr>clock = 103725, start_time = 100000, log_win = [], log_file = None,
      logdev_file = None, serial_enabled = False, serial_file = None, log_pos = - 1, syslog_pos = - 1\<rparr> =
    fmt_0d 2 h @ ''h '' @ fmt_0d 2 m @ ''m '' @ fmt_0d 2 s @ ''s''"
  using running_time_hms [of "\<lparr>clock = 103725, start_time = 100000, log_win = [], log_file = None,
      logdev_file = None, serial_enabled = False, serial_file = None, log_pos = - 1, syslog_pos = - 1\<rparr>"]
  by auto

text \<open>C28: Whatever the system log grows by between the polls, the polls read every byte added since the
  first of them exactly once and in order: what is reported are the pieces with \<open>.err\<close> or \<open>.emerg\<close> among
  the lines of each addition. When the additions are whole lines, these are the lines of the added text, so
  that every error line is reported exactly once, however the lines are distributed over the polls. A
  line that is still being written is judged in its two fragments, and missed when neither has the mark.
  (No fragment may be blank: \<open>trim\<close> is undefined there.)\<close>

theorem syslog_exactly_once:
  assumes "syslog_pos w = - 1" and "\<forall>d \<in> set ds. \<forall>l \<in> set (fgets_all BUFSIZ d). \<not> blank_line l"
  shows "\<exists>w'. polls monitor_syslog (c # growth c ds) w = Some w' \<and>
    errors_shown w' = errors_shown w @
      filter (\<lambda>s. is_err s \<or> is_emerg s) (map trimmed (concat (map (fgets_all BUFSIZ) ds))) \<and>
    concat (concat (map (fgets_all BUFSIZ) ds)) = concat ds \<and>
    ((\<forall>d \<in> set ds. whole_lines d) \<longrightarrow> errors_shown w' = errors_shown w @
      filter (\<lambda>s. is_err s \<or> is_emerg s) (map trimmed (fgets_all BUFSIZ (concat ds))))"
proof -
  let ?w = "w\<lparr>syslog_pos := int (length c)\<rparr>"
  have "monitor_syslog (Some c) w = Some ?w"
    using assms(1) by (simp add: monitor_syslog_def unread_def tell_def)
  moreover have "errors_shown ?w = errors_shown w" by (simp add: errors_shown_def)
  moreover have "concat (concat (map (fgets_all BUFSIZ) ds)) = concat ds"
    by (induction ds) (simp_all add: fgets_all_concat [OF BUFSIZ_gt])
  ultimately show ?thesis using polls_syslog [OF assms(2), of ?w c] whole_lines_concat [of ds] by auto
qed

text \<open>A log that grows by two lines between two polls, and one whose error line is read in halves.\<close>

definition quiet_log :: log_state where
  "quiet_log = \<lparr>clock = 5, start_time = 0, log_win = [], log_file = None, logdev_file = None,
     serial_enabled = False, serial_file = None, log_pos = - 1, syslog_pos = - 1\<rparr>"

lemma fgets_one: "l \<noteq> [] \<Longrightarrow> NL \<notin> set (butlast l) \<Longrightarrow> length l < BUFSIZ \<Longrightarrow> fgets_all BUFSIZ l = [l]"
proof -
  assume l: "l \<noteq> []" "NL \<notin> set (butlast l)" "length l < BUFSIZ"
  have "length xs \<le> n \<Longrightarrow> NL \<notin> set (butlast xs) \<Longrightarrow> take_line n xs = xs" for n xs
    by (induction n xs rule: take_line.induct) (auto split: if_splits)
  then have "take_line (BUFSIZ - 1) l = l" using l by simp
  then show ?thesis using l(1) BUFSIZ_gt by (subst fgets_all.simps) (simp add: fgets_def Let_def)
qed

theorem syslog_exactly_once_witness:
  "(\<exists>w'. polls monitor_syslog (''old.err'' # growth ''old.err'' [''a.err b'' @ [NL], ''c'' @ [NL]]) quiet_log = Some w' \<and>
      errors_shown w' = [''a.err b'']) \<and>
   (\<exists>w'. polls monitor_syslog ([] # growth [] [''kern.e'', ''rr disk'' @ [NL]]) quiet_log = Some w' \<and> errors_shown w' = [])"
proof
  have f: "fgets_all BUFSIZ (''a.err b'' @ [NL]) = [''a.err b'' @ [NL]]" "fgets_all BUFSIZ (''c'' @ [NL]) = [''c'' @ [NL]]"
    "fgets_all BUFSIZ ''kern.e'' = [''kern.e'']" "fgets_all BUFSIZ (''rr disk'' @ [NL]) = [''rr disk'' @ [NL]]"
    by (rule fgets_one; simp add: BUFSIZ_def)+
  have q: "syslog_pos quiet_log = - 1" "errors_shown quiet_log = []" by (simp_all add: quiet_log_def errors_shown_def)
  note e = trimmed_def strip_eval is_err_def is_emerg_def starts_def
  have "\<forall>d \<in> set [''a.err b'' @ [NL], ''c'' @ [NL]]. \<forall>l \<in> set (fgets_all BUFSIZ d). \<not> blank_line l"
    using f(1,2) by (simp add: blank_line_def strip_eval)
  from syslog_exactly_once [OF q(1) this, of "''old.err''"]
  show "\<exists>w'. polls monitor_syslog (''old.err'' # growth ''old.err'' [''a.err b'' @ [NL], ''c'' @ [NL]]) quiet_log = Some w' \<and>
      errors_shown w' = [''a.err b'']" using f(1,2) q(2) by (auto simp: e)
  have "\<forall>d \<in> set [''kern.e'', ''rr disk'' @ [NL]]. \<forall>l \<in> set (fgets_all BUFSIZ d). \<not> blank_line l"
    using f(3,4) by (simp add: blank_line_def strip_eval)
  from syslog_exactly_once [OF q(1) this, of "[]"]
  show "\<exists>w'. polls monitor_syslog ([] # growth [] [''kern.e'', ''rr disk'' @ [NL]]) quiet_log = Some w' \<and> errors_shown w' = []"
    using f(3,4) q(2) by (auto simp: e)
qed

text \<open>Following a log is undefined exactly when one of the lines it reads is blank: \<open>trim\<close>
  then looks before the start of the line buffer.\<close>

theorem show_log_blank_line:
  "show_log (Some content) w = None \<longleftrightarrow>
   (\<exists>l \<in> set (fgets_all BUFSIZ (unread (log_pos w) content)). blank_line l)"
  by (simp add: show_log_def bind_eq_None_conv each_line_None)

text \<open>A system log that was cut shorter than the position reached (log rotation) is not read
  again: nothing of its content up to that position is ever reported.\<close>

theorem syslog_rotation_lost:
  assumes "0 \<le> syslog_pos w" and "int (length content) \<le> syslog_pos w"
  shows "monitor_syslog (Some content) w = Some w"
  using assms by (simp add: monitor_syslog_def unread_def tell_def max_def)

theorem syslog_rotation_lost_witness:
  "monitor_syslog (Some (''kern.err disk failed'' @ [NL]))
     \<lparr>clock = 5, start_time = 0, log_win = [], log_file = None, logdev_file = None,
      serial_enabled = False, serial_file = None, log_pos = - 1, syslog_pos = 500\<rparr> =
   Some \<lparr>clock = 5, start_time = 0, log_win = [], log_file = None, logdev_file = None,
      serial_enabled = False, serial_file = None, log_pos = - 1, syslog_pos = 500\<rparr>"
  by (rule syslog_rotation_lost) simp_all

end
