(* ===== verification/Sensors.thy ===== *)
theory Sensors
  imports Log Float64
begin

text \<open>
  The collectors of \<open>breakin.c\<close>: CPU usage and model, memory, IPMI temperatures and fans, disks
  and network cards. A file that is read is its content (\<open>None\<close> when \<open>fopen\<close> fails), a directory
  the list of its entries; the tables are lists of the size of the C arrays, written with checked
  accesses. Bytes of a line buffer behind the terminator of the line are not known, so looking at
  them is undefined.
\<close>

section \<open>State\<close>

definition MAX_CPUS :: nat where "MAX_CPUS = 16"
definition MAX_TEMPS :: nat where "MAX_TEMPS = 50"
definition MAX_FANS :: nat where "MAX_FANS = 30"
definition MAX_DISKS :: nat where "MAX_DISKS = 24"
definition MAX_NUM_NICS :: nat where "MAX_NUM_NICS = 32"

record nic_data_t =
  nic_name :: string
  macaddr :: string
  macaddr_num :: string
  ipaddr :: string

record temp_data_t =
  temp_name :: string
  temp_value :: f64

record fan_data_t =
  fan_name :: string
  fan_value :: int

record disk_info_t =
  device :: mem
  disk_size :: f64
  performance :: f64

record cpu_usage_t =
  cpu_idle :: "32 word"
  cpu_busy :: "32 word"
  last_idle :: "32 word"
  last_usage :: "32 word"
  percent :: f64

record cpu_info_t =
  qty :: int
  model :: string
  speed :: f64

record mem_info_t =
  mem_total :: int
  mem_free :: int
  mem_percent :: f64
  swap_total :: int
  swap_free :: int
  swap_percent :: f64

record sensors =
  cpu_qty :: int
  cpu_usage :: "cpu_usage_t list"
  cpu_info :: cpu_info_t
  mem_info :: mem_info_t
  temp_qty :: nat
  temp_data :: "temp_data_t list"
  fan_qty :: nat
  fan_data :: "fan_data_t list"
  disk_qty :: nat
  disk_info :: "disk_info_t list"
  nic_qty :: nat
  nic_data :: "nic_data_t list"

section \<open>Input functions\<close>

text \<open>\<open>%s\<close>: the next word and the rest.\<close>

definition scan_word :: "string \<Rightarrow> (string \<times> string) option" where
  "scan_word s = (let t = dropWhile isspace s in
     if t = [] then None
     else Some (takeWhile (\<lambda>c. \<not> isspace c) t, dropWhile (\<lambda>c. \<not> isspace c) t))"

text \<open>\<open>%d\<close> repeated: the numbers converted before the first failure. \<open>%d\<close> into an \<open>unsigned int\<close>
  keeps the low 32 bits.\<close>

fun scan_ints :: "nat \<Rightarrow> string \<Rightarrow> int list" where
  "scan_ints 0 s = []"
| "scan_ints (Suc n) s = (case scan_int s of Scan_Ok v r \<Rightarrow> v # scan_ints n r | _ \<Rightarrow> [])"

definition to_u32 :: "int \<Rightarrow> 32 word" where
  "to_u32 i = word_of_int (clamp_i64 i)"

text \<open>\<open>atof\<close> on decimal notation: sign, digits, fraction, exponent.\<close>

definition scan_exp :: "string \<Rightarrow> int" where
  "scan_exp s = (case s of
     c # cs \<Rightarrow> if c = CHR ''e'' \<or> c = CHR ''E''
       then (case cs of d # ds \<Rightarrow> if isspace d then 0 else (case scan_int cs of Scan_Ok v r \<Rightarrow> v | _ \<Rightarrow> 0) | [] \<Rightarrow> 0)
       else 0
   | [] \<Rightarrow> 0)"

definition atof :: "string \<Rightarrow> f64" where
  "atof s =
     (let t = dropWhile isspace s;
          neg = (take 1 t = ''-'');
          u = (if neg \<or> take 1 t = ''+'' then drop 1 t else t);
          whole = takeWhile isdigit u;
          r = dropWhile isdigit u;
          frac = (if take 1 r = ''.'' then takeWhile isdigit (drop 1 r) else []);
          r2 = (if take 1 r = ''.'' then dropWhile isdigit (drop 1 r) else r)
      in if whole @ frac = [] then Fin False 0 0
         else let e = scan_exp r2 - int (length frac); n = digits_val 0 (whole @ frac)
           in f64_round neg (if 0 \<le> e then n * 10 ^ nat e else n) (if 0 \<le> e then 1 else 10 ^ nat (- e)) 0)"

section \<open>get_cpu_usage\<close>

text \<open>The four local counters are declared outside the loop: a short line leaves the values of the
  line before, or none at all (\<open>None\<close>).\<close>

type_synonym counters = "(32 word) option list"

fun overlay :: "int list \<Rightarrow> counters \<Rightarrow> counters" where
  "overlay (v # vs) (x # xs) = Some (to_u32 v) # overlay vs xs"
| "overlay vs xs = xs"

definition cpu_percent :: "32 word \<Rightarrow> 32 word \<Rightarrow> f64" where
  "cpu_percent time_idle time_used =
     (let time_total = time_idle + time_used in
      fmul (fdiv (f64_of_int (uint time_used)) (f64_of_int (uint time_total))) (f64_of_int 100))"

definition cpu_update :: "32 word \<Rightarrow> 32 word \<Rightarrow> 32 word \<Rightarrow> 32 word \<Rightarrow> cpu_usage_t \<Rightarrow> cpu_usage_t" where
  "cpu_update user nice sys idle u =
     (let u = u\<lparr>cpu_busy := user + nice + sys, cpu_idle := idle\<rparr>;
          time_idle = idle - last_idle u;
          time_used = cpu_busy u - last_usage u;
          p = cpu_percent time_idle time_used
      in u\<lparr>last_idle := idle, last_usage := cpu_busy u, percent := p\<rparr>)"

text \<open>The word is stored into \<open>char cpu[12]\<close>.\<close>

definition scan_cpu :: "string \<Rightarrow> counters \<Rightarrow> counters option" where
  "scan_cpu buf cs = (case scan_word buf of
     None \<Rightarrow> Some cs
   | Some (w, r) \<Rightarrow> if 12 \<le> length w then None else Some (overlay (scan_ints 4 r) cs))"

fun cpu_lines ::
  "string list \<Rightarrow> nat \<Rightarrow> counters \<Rightarrow> cpu_usage_t list \<Rightarrow> (nat \<times> cpu_usage_t list) option"
where
  "cpu_lines [] n cs us = Some (n, us)"
| "cpu_lines (l # ls) n cs us =
     (let buf = takeWhile (\<lambda>c. c \<noteq> NUL) l in
      if starts ''cpu'' buf \<and> n < MAX_CPUS then do {
        cs \<leftarrow> scan_cpu buf cs;
        (case cs of
           [Some user, Some nice, Some sys, Some idle] \<Rightarrow> do {
             u \<leftarrow> rd us (int n);
             cpu_lines ls (n + 1) cs (us[n := cpu_update user nice sys idle u])
           }
         | _ \<Rightarrow> None)
      } else cpu_lines ls n cs us)"

definition get_cpu_usage :: "string option \<Rightarrow> sensors \<Rightarrow> sensors option" where
  "get_cpu_usage file s =
     (case file of
        None \<Rightarrow> Some s
      | Some content \<Rightarrow> do {
          (n, us) \<leftarrow> cpu_lines (fgets_all BUFSIZ content) 0 [None, None, None, None] (cpu_usage s);
          Some (s\<lparr>cpu_usage := us, cpu_qty := int n\<rparr>)
        })"

section \<open>get_cpu_info\<close>

text \<open>\<open>strstr(buf, ":") + 2\<close>, an offset into the line buffer.\<close>

definition after_colon :: "string \<Rightarrow> nat option" where
  "after_colon buf = map_option (\<lambda>k. k + 2) (strstr buf '':'')"

definition cpu_info_line :: "string \<Rightarrow> nat \<times> cpu_info_t \<Rightarrow> (nat \<times> cpu_info_t) option" where
  "cpu_info_line l st =
     (let (n, ci) = st; m = l @ [NUL]; buf = takeWhile (\<lambda>c. c \<noteq> NUL) l in
      if starts ''processor'' buf then Some (n + 1, ci)
      else if starts ''model name'' buf then do {
        p \<leftarrow> after_colon buf;
        m \<leftarrow> trim m p;
        t \<leftarrow> cstr m p;
        t \<leftarrow> sprintf_s BUFSIZ t;
        Some (n, ci\<lparr>model := t\<rparr>)
      }
      else if starts ''cpu MHz'' buf then do {
        p \<leftarrow> after_colon buf;
        t \<leftarrow> cstr m p;
        Some (n, ci\<lparr>speed := atof t\<rparr>)
      }
      else Some (n, ci))"

fun fold_opt :: "('a \<Rightarrow> 'b \<Rightarrow> 'b option) \<Rightarrow> 'a list \<Rightarrow> 'b \<Rightarrow> 'b option" where
  "fold_opt f [] b = Some b"
| "fold_opt f (a # as) b = do { b' \<leftarrow> f a b; fold_opt f as b' }"

definition get_cpu_info :: "string option \<Rightarrow> sensors \<Rightarrow> sensors option" where
  "get_cpu_info file s =
     (case file of
        None \<Rightarrow> Some s
      | Some content \<Rightarrow> do {
          (n, ci) \<leftarrow> fold_opt cpu_info_line (fgets_all BUFSIZ content) (0, cpu_info s);
          Some (s\<lparr>cpu_info := ci\<lparr>qty := int n\<rparr>\<rparr>)
        })"

section \<open>get_mem_usage\<close>

text \<open>\<open>sscanf(buf, "%*s %ld %*s", &x)\<close> leaves \<open>x\<close> alone when nothing is converted.\<close>

definition scan_ld :: "string \<Rightarrow> int \<Rightarrow> int" where
  "scan_ld buf old = (case scan_word buf of
     None \<Rightarrow> old
   | Some (w, r) \<Rightarrow> (case scan_int r of Scan_Ok v r' \<Rightarrow> clamp_i64 v | _ \<Rightarrow> old))"

definition mem_line :: "string \<Rightarrow> mem_info_t \<Rightarrow> mem_info_t" where
  "mem_line l mi =
     (let buf = takeWhile (\<lambda>c. c \<noteq> NUL) l in
      if starts ''MemTotal'' buf then mi\<lparr>mem_total := scan_ld buf (mem_total mi)\<rparr>
      else if starts ''MemFree'' buf then mi\<lparr>mem_free := scan_ld buf (mem_free mi)\<rparr>
      else if starts ''SwapTotal'' buf then mi\<lparr>swap_total := scan_ld buf (swap_total mi)\<rparr>
      else if starts ''SwapFree'' buf then mi\<lparr>swap_free := scan_ld buf (swap_free mi)\<rparr>
      else mi)"

text \<open>Subtraction of two \<open>long int\<close>.\<close>

definition sub_i64 :: "int \<Rightarrow> int \<Rightarrow> int option" where
  "sub_i64 a b = (if - (2 ^ 63) \<le> a - b \<and> a - b < 2 ^ 63 then Some (a - b) else None)"

definition used_percent :: "int \<Rightarrow> int \<Rightarrow> f64 option" where
  "used_percent tot free = do {
     d \<leftarrow> sub_i64 tot free;
     Some (fmul (fdiv (f64_of_int d) (f64_of_int tot)) (f64_of_int 100))
   }"

definition get_mem_usage :: "string option \<Rightarrow> sensors \<Rightarrow> sensors option" where
  "get_mem_usage file s =
     (case file of
        None \<Rightarrow> Some s
      | Some content \<Rightarrow> do {
          let mi = fold mem_line (fgets_all BUFSIZ content) (mem_info s);
          p \<leftarrow> used_percent (mem_total mi) (mem_free mi);
          q \<leftarrow> used_percent (swap_total mi) (swap_free mi);
          Some (s\<lparr>mem_info := mi\<lparr>mem_percent := p, swap_percent := q\<rparr>\<rparr>)
        })"

end
