(* ===== verification/Devices.thy ===== *)
theory Devices
  imports Sensors
begin

text \<open>
  The tables of \<open>breakin.c\<close> that are filled from devices: the IPMI temperatures and fans
  (\<open>get_ipmi_sensors\<close>), the disks (\<open>get_hd_info\<close>) and the network cards (\<open>get_nic_info\<close>).
\<close>

section \<open>get_ipmi_sensors\<close>

text \<open>The variables of one line: the label, whether it and the value were found, and \<open>value\<close>,
  which is declared once for the whole function.\<close>

record chunk_state =
  label :: string
  found_label :: bool
  found_value :: bool
  ipmi_value :: int

text \<open>\<open>!!sscanf(chunk, "%d ", &value)\<close> is 1 also for the result \<open>EOF\<close>.\<close>

definition scan_value :: "string \<Rightarrow> chunk_state \<Rightarrow> chunk_state" where
  "scan_value s c = (case scan_int s of
     Scan_Ok v r \<Rightarrow> c\<lparr>found_value := True, ipmi_value := to_i32 (clamp_i64 v)\<rparr>
   | Scan_Eof \<Rightarrow> c\<lparr>found_value := True\<rparr>
   | Scan_Fail \<Rightarrow> c\<lparr>found_value := False\<rparr>)"

text \<open>One chunk at the offset \<open>p\<close>; \<open>skip\<close> is 3 for the fans, 0 for the temperatures.\<close>

definition chunk_step :: "nat \<Rightarrow> mem \<Rightarrow> nat \<Rightarrow> nat \<Rightarrow> chunk_state \<Rightarrow> (mem \<times> chunk_state) option" where
  "chunk_step skip m p i c =
     (if i = 0 then do {
        m \<leftarrow> trim m p;
        t \<leftarrow> cstr m (p + skip);
        Some (m, c\<lparr>label := snprintf_s 20 t, found_label := True\<rparr>)
      }
      else if i = 1 then do { t \<leftarrow> cstr m p; Some (m, scan_value t c) }
      else Some (m, c))"

lemma strsep_progress: "strsep d m p = Some (m', Some p') \<Longrightarrow> p < p' \<and> p' \<le> length m \<and> length m' = length m"
proof -
  assume a: "strsep d m p = Some (m', Some p')"
  then obtain s where s: "cstr m p = Some s" by (auto simp: strsep_def split: bind_splits)
  then have "p + length s < length m" by (rule cstr_split) simp
  with a s show ?thesis by (auto simp: strsep_def dest!: index_of_bound split: option.splits)
qed

lemma chunk_step_length: "chunk_step k m p i c = Some (m', c') \<Longrightarrow> length m' = length m"
  by (auto simp: chunk_step_def dest: trim_length split: if_splits bind_splits)

text \<open>\<open>while (string) { chunk = strsep(&string, "|"); ... i++; }\<close>\<close>

function chunk_loop :: "nat \<Rightarrow> mem \<Rightarrow> nat option \<Rightarrow> nat \<Rightarrow> chunk_state \<Rightarrow> chunk_state option" where
  "chunk_loop skip m None i c = Some c"
| "chunk_loop skip m (Some p) i c = do {
     (m1, q) \<leftarrow> strsep (CHR ''|'') m p;
     (m2, c') \<leftarrow> chunk_step skip m1 p i c;
     chunk_loop skip m2 q (i + 1) c'
   }"
  by pat_completeness auto
termination
  by (relation "measure (\<lambda>(skip, m, p, i, c). case p of None \<Rightarrow> 0 | Some p \<Rightarrow> Suc (length m - p))")
    (auto split: option.splits dest!: strsep_progress chunk_step_length)

declare chunk_loop.simps [simp del]

text \<open>The lines of a sensor file; \<open>put\<close> stores an entry if there is room.\<close>

fun sensor_lines ::
  "nat \<Rightarrow> (string \<Rightarrow> int \<Rightarrow> sensors \<Rightarrow> sensors option) \<Rightarrow> string list \<Rightarrow> int \<times> sensors \<Rightarrow> (int \<times> sensors) option"
where
  "sensor_lines skip put [] st = Some st"
| "sensor_lines skip put (l # ls) (v, s) = do {
     c \<leftarrow> chunk_loop skip (l @ [NUL]) (Some 0) 0
       \<lparr>label = [], found_label = False, found_value = False, ipmi_value = v\<rparr>;
     s \<leftarrow> (if found_label c \<and> found_value c then put (label c) (ipmi_value c) s else Some s);
     sensor_lines skip put ls (ipmi_value c, s)
   }"

definition put_temp :: "string \<Rightarrow> int \<Rightarrow> sensors \<Rightarrow> sensors option" where
  "put_temp n v s =
     (if temp_qty s < MAX_TEMPS then do {
        t \<leftarrow> rd (temp_data s) (int (temp_qty s));
        Some (s\<lparr>temp_data := (temp_data s)[temp_qty s :=
            t\<lparr>temp_name := snprintf_s 16 n, temp_value := f64_of_int v\<rparr>],
          temp_qty := temp_qty s + 1\<rparr>)
      } else Some s)"

definition put_fan :: "string \<Rightarrow> int \<Rightarrow> sensors \<Rightarrow> sensors option" where
  "put_fan n v s =
     (if fan_qty s < MAX_FANS then do {
        t \<leftarrow> rd (fan_data s) (int (fan_qty s));
        Some (s\<lparr>fan_data := (fan_data s)[fan_qty s :=
            t\<lparr>fan_name := snprintf_s 16 n, fan_value := v\<rparr>],
          fan_qty := fan_qty s + 1\<rparr>)
      } else Some s)"

definition sensor_file ::
  "nat \<Rightarrow> (string \<Rightarrow> int \<Rightarrow> sensors \<Rightarrow> sensors option) \<Rightarrow> string option \<Rightarrow> int \<times> sensors \<Rightarrow> (int \<times> sensors) option"
where
  "sensor_file skip put file st =
     (case file of None \<Rightarrow> Some st | Some content \<Rightarrow> sensor_lines skip put (fgets_all BUFSIZ content) st)"

definition get_ipmi_sensors :: "string option \<Rightarrow> string option \<Rightarrow> sensors \<Rightarrow> sensors option" where
  "get_ipmi_sensors temp_file fan_file s = do {
     (v, s) \<leftarrow> sensor_file 0 put_temp temp_file (0, s\<lparr>fan_qty := 0, temp_qty := 0\<rparr>);
     (v, s) \<leftarrow> sensor_file 3 put_fan fan_file (v, s);
     Some s
   }"

section \<open>get_hd_info\<close>

text \<open>
  \<open>fscanf(fp, "%s", data)\<close> and \<open>trim\<close> into the buffer of the caller, whose content is \<open>None\<close> as
  long as nothing has been stored; an empty file leaves what was there.
\<close>

definition read_string_from_file :: "string option \<Rightarrow> string option \<Rightarrow> (bool \<times> string option) option" where
  "read_string_from_file file data =
     (case file of
        None \<Rightarrow> Some (False, data)
      | Some content \<Rightarrow> do {
          d \<leftarrow> (case scan_word content of None \<Rightarrow> data | Some (w, r) \<Rightarrow> sprintf_s BUFSIZ w);
          t \<leftarrow> trim_line d;
          Some (True, Some t)
        })"

definition is_disk :: "string \<Rightarrow> bool" where
  "is_disk d \<longleftrightarrow> starts ''hd'' d \<or> starts ''sd'' d"

definition BLOCK_DEV_PATH :: string where
  "BLOCK_DEV_PATH = ''/sys/block''"

definition strncpy_pad :: "nat \<Rightarrow> string \<Rightarrow> mem" where
  "strncpy_pad n s = take n (s @ replicate n NUL)"

fun hd_loop ::
  "(string \<Rightarrow> string option) \<Rightarrow> string list \<Rightarrow> nat \<Rightarrow> string option \<Rightarrow> disk_info_t list \<Rightarrow> (nat \<times> disk_info_t list) option"
where
  "hd_loop fs [] n buf ds = Some (n, ds)"
| "hd_loop fs (d # es) n buf ds =
     (if n < MAX_DISKS then
        if is_disk d then do {
          (ok, buf) \<leftarrow> read_string_from_file (fs (BLOCK_DEV_PATH @ ''/'' @ d @ ''/removable'')) buf;
          skip \<leftarrow> (if ok then map_option (\<lambda>b. take 1 b = ''1'') buf else Some False);
          if skip then hd_loop fs es n buf ds
          else do {
            (ok, buf) \<leftarrow> read_string_from_file (fs (BLOCK_DEV_PATH @ ''/'' @ d @ ''/size'')) buf;
            if \<not> ok then hd_loop fs es n buf ds
            else do {
              b \<leftarrow> buf;
              x \<leftarrow> rd ds (int n);
              hd_loop fs es (n + 1) buf (ds[n := x\<lparr>device := strncpy_pad 30 d,
                disk_size := fdiv (f64_of_int (atoll b)) (f64_of_int 2097152)\<rparr>])
            }
          }
        } else hd_loop fs es n buf ds
      else Some (n, ds))"

definition get_hd_info :: "string list option \<Rightarrow> (string \<Rightarrow> string option) \<Rightarrow> sensors \<Rightarrow> sensors option" where
  "get_hd_info dir fs s =
     (case dir of
        None \<Rightarrow> Some s
      | Some es \<Rightarrow> do {
          (n, ds) \<leftarrow> hd_loop fs es 0 None (disk_info s);
          Some (s\<lparr>disk_info := ds, disk_qty := n\<rparr>)
        })"

section \<open>get_nic_info\<close>

text \<open>What the two \<open>ioctl\<close> calls answer for an interface: its hardware address and its internet
  address in dotted notation, \<open>None\<close> when the call fails.\<close>

record ifreq =
  ifr_name :: string
  hwaddr :: "8 word list option"
  addr :: "string option"

datatype ifconf = Conf_Failed string | Conf "ifreq list"

definition mac_colons :: "8 word list \<Rightarrow> string" where
  "mac_colons b = fmt_02x (b ! 0) @ '':'' @ fmt_02x (b ! 1) @ '':'' @ fmt_02x (b ! 2) @ '':'' @
     fmt_02x (b ! 3) @ '':'' @ fmt_02x (b ! 4) @ '':'' @ fmt_02x (b ! 5)"

definition mac_plain :: "8 word list \<Rightarrow> string" where
  "mac_plain b = fmt_02x (b ! 0) @ fmt_02x (b ! 1) @ fmt_02x (b ! 2) @
     fmt_02x (b ! 3) @ fmt_02x (b ! 4) @ fmt_02x (b ! 5)"

fun nic_loop :: "ifreq list \<Rightarrow> nat \<Rightarrow> nic_data_t list \<Rightarrow> (nat \<times> nic_data_t list) option" where
  "nic_loop [] nics ns = Some (nics, ns)"
| "nic_loop (r # rs) nics ns =
     (case hwaddr r of
        None \<Rightarrow> nic_loop rs nics ns
      | Some b \<Rightarrow>
          if starts ''lo'' (ifr_name r) then nic_loop rs nics ns
          else do {
            x \<leftarrow> rd ns (int nics);
            let x = x\<lparr>nic_name := snprintf_s 16 (ifr_name r), macaddr := mac_colons b, macaddr_num := mac_plain b\<rparr>;
            (case addr r of
               None \<Rightarrow> nic_loop rs nics (ns[nics := x])
             | Some ip \<Rightarrow> do {
                 ip \<leftarrow> sprintf_s 32 ip;
                 nic_loop rs (nics + 1) (ns[nics := x\<lparr>ipaddr := ip\<rparr>])
               })
          })"

text \<open>\<open>hardware_finished\<close> and the answers of \<open>socket\<close> and \<open>SIOCGIFCONF\<close> are given.\<close>

definition get_nic_info ::
  "bool \<Rightarrow> bool \<Rightarrow> ifconf \<Rightarrow> sensors \<times> log_state \<Rightarrow> (sensors \<times> log_state) option"
where
  "get_nic_info hardware_finished socket_ok conf st =
     (let (s, w) = st in
      if \<not> hardware_finished then Some (s, w)
      else if \<not> socket_ok then Some (s, w)
      else case conf of
          Conf_Failed e \<Rightarrow> Some (s, log_message e w)
        | Conf rs \<Rightarrow> do {
            (n, ns) \<leftarrow> nic_loop rs 0 (nic_data s);
            Some (s\<lparr>nic_data := ns, nic_qty := n\<rparr>, w)
          })"

end
