(* ===== verification/DmiMem.thy ===== *)
theory DmiMem
  imports CLib
begin

text \<open>
  The two functions of \<open>dmidecode.c\<close> that talk to the system: \<open>mem_chunk\<close>, which copies a part
  of \<open>/dev/mem\<close> through a mapping, and \<open>myread\<close>, the read loop (declared in
  \<open>dmidecode.h\<close>, called nowhere). What the system calls answer is an input; what the code owes
  the system afterwards (open descriptors, mapped pages, heap blocks) is counted, so that the
  lemmas can say what is returned and what is leaked.
\<close>

type_synonym bytes = "8 word list"

section \<open>mem_chunk\<close>

text \<open>The answers of one call: which of \<open>open\<close>, \<open>malloc\<close>, \<open>mmap\<close>, \<open>munmap\<close> and \<open>close\<close>
  succeed.\<close>

record chunk_env =
  open_ok :: bool
  malloc_ok :: bool
  mmap_ok :: bool
  munmap_ok :: bool
  close_ok :: bool

record os =
  phys :: "nat \<Rightarrow> 8 word"
  answers :: "chunk_env list"
  fds :: nat
  pages :: nat
  heap :: nat
  stderr :: "string list"

definition PAGE :: nat where
  "PAGE = 4096"

definition pages_of :: "nat \<Rightarrow> nat" where
  "pages_of n = (n + (PAGE - 1)) div PAGE"

definition all_fail :: chunk_env where
  "all_fail = \<lparr>open_ok = False, malloc_ok = False, mmap_ok = False, munmap_ok = False, close_ok = False\<rparr>"

fun next_env :: "chunk_env list \<Rightarrow> chunk_env" where
  "next_env [] = all_fail"
| "next_env (e # es) = e"

definition perror :: "string \<Rightarrow> os \<Rightarrow> os" where
  "perror s w = w\<lparr>stderr := stderr w @ [s]\<rparr>"

text \<open>The mapping begins at the page boundary at or below \<open>base\<close>, and the bytes are copied from the offset
  \<open>mmoffset\<close> of it on. The second \<open>munmap\<close> argument is \<open>mmoffset + 0x20\<close>, whatever the length that was
  mapped; \<open>pages\<close> counts the pages of the mappings made here, so that an unmapping longer than the
  mapping takes no more than that mapping from it.\<close>

definition mem_chunk :: "nat \<Rightarrow> nat \<Rightarrow> os \<Rightarrow> bytes option \<times> os" where
  "mem_chunk base len w0 =
     (let e = next_env (answers w0); w = w0\<lparr>answers := tl (answers w0)\<rparr> in
      if \<not> open_ok e then (None, perror ''/dev/mem'' w)
      else let w = w\<lparr>fds := fds w + 1\<rparr> in
      if \<not> malloc_ok e then (None, w)
      else let w = w\<lparr>heap := heap w + 1\<rparr>; mmoffset = base mod PAGE in
      if \<not> mmap_ok e then (None, (perror ''/dev/mem: mmap'' w)\<lparr>heap := heap w - 1\<rparr>)
      else let w = w\<lparr>pages := pages w + pages_of (mmoffset + len)\<rparr>;
               mmp = map (phys w) [base - mmoffset..<base - mmoffset + (mmoffset + len)];
               p = take len (drop mmoffset mmp);
               w = (if munmap_ok e
                    then w\<lparr>pages := pages w - min (pages_of (mmoffset + len)) (pages_of (mmoffset + 0x20))\<rparr>
                    else perror ''/dev/mem: munmap'' w);
               w = (if close_ok e then w\<lparr>fds := fds w - 1\<rparr> else perror ''/dev/mem'' w)
           in (Some p, w))"

definition release :: "os \<Rightarrow> os" where
  "release w = w\<lparr>heap := heap w - 1\<rparr>"

lemma mapped_page: "drop (base mod PAGE) (map f [base - base mod PAGE..<base + len]) = map f [base..<base + len]"
  by (simp add: drop_map)

lemma mem_chunk_data:
  "mem_chunk base len w = (Some p, w') \<Longrightarrow> length p = len \<and> p = map (phys w) [base..<base + len]"
  by (auto simp: mem_chunk_def Let_def perror_def mapped_page simp del: upt_conv_Cons split: if_splits)

lemma mem_chunk_returns:
  assumes "answers w = e # es" and "open_ok e" and "malloc_ok e" and "mmap_ok e" and "base + len = n"
  shows "fst (mem_chunk base len w) = Some (map (phys w) [base..<n])"
  using assms by (auto simp: mem_chunk_def Let_def mapped_page)

lemma mem_chunk_heap: "heap (snd (mem_chunk base len w)) =
    (if fst (mem_chunk base len w) = None then heap w else heap w + 1)"
  by (simp add: mem_chunk_def Let_def perror_def)

text \<open>When every call succeeds the descriptor is closed again, but only the first pages of the
  mapping are unmapped.\<close>

lemma mem_chunk_success:
  assumes "answers w = e # es" and "open_ok e" and "malloc_ok e" and "mmap_ok e" and "munmap_ok e"
    and "close_ok e" and "0x20 \<le> len"
  shows "fds (snd (mem_chunk base len w)) = fds w"
    and "pages (snd (mem_chunk base len w)) =
      pages w + (pages_of (base mod PAGE + len) - pages_of (base mod PAGE + 0x20))"
proof -
  have "pages_of (base mod PAGE + 0x20) \<le> pages_of (base mod PAGE + len)"
    using assms(7) unfolding pages_of_def by (intro div_le_mono) simp
  then show "fds (snd (mem_chunk base len w)) = fds w"
    and "pages (snd (mem_chunk base len w)) =
      pages w + (pages_of (base mod PAGE + len) - pages_of (base mod PAGE + 0x20))"
    using assms by (simp_all add: mem_chunk_def Let_def)
qed

section \<open>myread\<close>

text \<open>One answer of \<open>read\<close>: some bytes (no more than asked for, none at the end of the file), or
  an error with \<open>errno\<close> \<open>EINTR\<close> or another.\<close>

datatype read_answer = Got bytes | Interrupted | Failed

text \<open>The loop: \<open>r2\<close> is the length of what has been read. The outcome is the bytes read so far
  and the value returned; \<open>None\<close> when the answers run out before the loop ends.\<close>

fun myread :: "nat \<Rightarrow> bytes \<Rightarrow> read_answer list \<Rightarrow> (bytes \<times> int) option" where
  "myread count acc as =
     (if length acc = count then Some (acc, 0)
      else case as of
          [] \<Rightarrow> None
        | Got bs # as' \<Rightarrow>
            (let bs = take (count - length acc) bs in
             if bs = [] then Some (acc, - 1) else myread count (acc @ bs) as')
        | Interrupted # as' \<Rightarrow> myread count acc as'
        | Failed # as' \<Rightarrow> Some (acc, - 1))"

declare myread.simps [simp del]

text \<open>What the answers deliver before the end of the file or an error.\<close>

fun delivered :: "read_answer list \<Rightarrow> bytes" where
  "delivered [] = []"
| "delivered (Got bs # as) = (if bs = [] then [] else bs @ delivered as)"
| "delivered (Interrupted # as) = delivered as"
| "delivered (Failed # as) = []"

lemma myread_success:
  "length acc \<le> count \<Longrightarrow> count \<le> length acc + length (delivered as) \<Longrightarrow>
   myread count acc as = Some (take count (acc @ delivered as), 0)"
proof (induction as arbitrary: acc)
  case Nil
  then show ?case by (subst myread.simps) simp
next
  case (Cons a as)
  show ?case
  proof (cases "length acc = count")
    case True
    then show ?thesis by (subst myread.simps) simp
  next
    case False
    with Cons.prems have lt: "length acc < count" by simp
    show ?thesis
    proof (cases a)
      case (Got bs)
      with Cons.prems lt have ne: "bs \<noteq> []" by auto
      let ?b = "take (count - length acc) bs"
      have m: "myread count acc (a # as) = myread count (acc @ ?b) as"
        using Got lt ne by (subst myread.simps) (auto simp: Let_def)
      show ?thesis
      proof (cases "count - length acc \<le> length bs")
        case True
        then have "length (acc @ ?b) = count" using lt by simp
        then have "myread count (acc @ ?b) as = Some (acc @ ?b, 0)" by (subst myread.simps) simp
        then show ?thesis using m Got ne True lt by simp
      next
        case False
        then show ?thesis using m Got ne Cons.IH [of "acc @ bs"] Cons.prems by simp
      qed
    next
      case Interrupted
      with lt have "myread count acc (a # as) = myread count acc as" by (subst myread.simps) simp
      with Interrupted Cons show ?thesis by simp
    next
      case Failed
      with Cons.prems lt show ?thesis by simp
    qed
  qed
qed

lemma myread_failure:
  "myread count acc as = Some (bs, r) \<Longrightarrow> r = 0 \<and> length bs = count \<or> r = - 1 \<and> length bs \<noteq> count"
proof (induction as arbitrary: acc)
  case Nil
  then show ?case by (subst (asm) myread.simps) (auto split: if_splits)
next
  case (Cons a as)
  then show ?case
    by (subst (asm) myread.simps) (auto simp: Let_def split: if_splits read_answer.splits)
qed

section \<open>Properties\<close>

text \<open>C39: When every system call of \<open>mem_chunk\<close> succeeds, it returns exactly the bytes of
  physical memory asked for, on one new heap block and no extra descriptor; but it unmaps a
  fixed 32 bytes, so reading the BIOS area of 64 KiB leaves 15 of its 16 pages mapped.\<close>

theorem mem_chunk_bios_leak:
  assumes "answers w = \<lparr>open_ok = True, malloc_ok = True, mmap_ok = True, munmap_ok = True,
    close_ok = True\<rparr> # es"
  shows "fst (mem_chunk 0xF0000 0x10000 w) = Some (map (phys w) [0xF0000..<0x100000]) \<and>
    fds (snd (mem_chunk 0xF0000 0x10000 w)) = fds w \<and>
    heap (snd (mem_chunk 0xF0000 0x10000 w)) = heap w + 1 \<and>
    pages (snd (mem_chunk 0xF0000 0x10000 w)) = pages w + 15"
proof -
  have p: "pages_of (0xF0000 mod PAGE + 0x10000) = 16" "pages_of (0xF0000 mod PAGE + 0x20) = 1"
    by (simp_all add: pages_of_def PAGE_def)
  have d: "fst (mem_chunk 0xF0000 0x10000 w) = Some (map (phys w) [0xF0000..<0x100000])"
    by (rule mem_chunk_returns [OF assms]) simp_all
  moreover have "heap (snd (mem_chunk 0xF0000 0x10000 w)) = heap w + 1"
    unfolding mem_chunk_heap d by (simp only: option.distinct if_False)
  moreover have "fds (snd (mem_chunk 0xF0000 0x10000 w)) = fds w"
    by (rule mem_chunk_success(1) [OF assms]) simp_all
  moreover have "pages (snd (mem_chunk 0xF0000 0x10000 w)) = pages w + (16 - 1)"
    unfolding p [symmetric] by (rule mem_chunk_success(2) [OF assms]) simp_all
  moreover have "(16::nat) - 1 = 15" by simp
  ultimately show ?thesis by (simp only: simp_thms)
qed

theorem mem_chunk_bios_leak_witness:
  "pages (snd (mem_chunk 0xF0000 0x10000 \<lparr>phys = (\<lambda>_. 0), answers = [\<lparr>open_ok = True, malloc_ok = True,
     mmap_ok = True, munmap_ok = True, close_ok = True\<rparr>], fds = 3, pages = 0, heap = 0, stderr = []\<rparr>)) = 15"
  (is "pages (snd (mem_chunk _ _ ?w)) = 15")
proof -
  have "answers ?w = \<lparr>open_ok = True, malloc_ok = True, mmap_ok = True, munmap_ok = True,
    close_ok = True\<rparr> # []" by simp
  from mem_chunk_bios_leak [OF this] have "pages (snd (mem_chunk 0xF0000 0x10000 ?w)) = pages ?w + 15"
    by blast
  then show ?thesis by simp
qed

text \<open>Every call of \<open>mem_chunk\<close> that fails after \<open>open\<close> keeps the descriptor of
  \<open>/dev/mem\<close> open.\<close>

theorem mem_chunk_fd_leak:
  assumes "answers w = e # es" and "open_ok e" and "fst (mem_chunk base len w) = None"
  shows "fds (snd (mem_chunk base len w)) = fds w + 1 \<and> heap (snd (mem_chunk base len w)) = heap w"
  using assms by (auto simp: mem_chunk_def Let_def perror_def split: if_splits)

theorem mem_chunk_fd_leak_witness:
  "fds (snd (mem_chunk 0 64 \<lparr>phys = (\<lambda>_. 0), answers = [\<lparr>open_ok = True, malloc_ok = True,
     mmap_ok = False, munmap_ok = True, close_ok = True\<rparr>], fds = 3, pages = 0, heap = 0, stderr = []\<rparr>)) = 4"
proof -
  let ?w = "\<lparr>phys = (\<lambda>_. 0), answers = [\<lparr>open_ok = True, malloc_ok = True,
     mmap_ok = False, munmap_ok = True, close_ok = True\<rparr>], fds = 3, pages = 0, heap = 0, stderr = []\<rparr>"
  have "fst (mem_chunk 0 64 ?w) = None" by (simp add: mem_chunk_def Let_def)
  then show ?thesis using mem_chunk_fd_leak [of ?w _ "[]" 0 64] by simp
qed


text \<open>\<open>myread\<close> retries short and interrupted reads until it has all the bytes it was asked for,
  and reports success exactly when it has them.\<close>

theorem myread_complete:
  "(count \<le> length (delivered as) \<longrightarrow> myread count [] as = Some (take count (delivered as), 0)) \<and>
   (\<forall>bs r. myread count [] as = Some (bs, r) \<longrightarrow> (r = 0 \<longleftrightarrow> length bs = count) \<and> (r = 0 \<or> r = - 1))"
proof (intro conjI allI impI)
  assume "count \<le> length (delivered as)"
  then show "myread count [] as = Some (take count (delivered as), 0)"
    using myread_success [of "[]" count as] by simp
next
  fix bs r assume "myread count [] as = Some (bs, r)"
  then show "(r = 0) = (length bs = count)" "r = 0 \<or> r = - 1"
    using myread_failure by fastforce+
qed

theorem myread_complete_witness:
  "myread 3 [] [Got [1], Interrupted, Got [2, 3, 4]] = Some ([1, 2, 3], 0)"
  using myread_complete [of 3 "[Got [1], Interrupted, Got [2, 3, 4]]"] by simp

end
