(* ===== verification/Dmi.thy ===== *)
theory Dmi
  imports Util DmiMem
begin

text \<open>
  \<open>dmidecode.c\<close>: the reader of the SMBIOS tables. A chunk of physical memory is a list of
  bytes, every pointer an offset into it, and every access is checked. The string filter
  writes into the chunk, so the chunk is threaded through. \<open>struct dmi_data_t\<close> is kept as the
  550 bytes it is in memory (eleven fields of 50 bytes), because \<open>trim\<close> on an empty field
  looks at the byte before it, the last byte of the field in front.
\<close>

section \<open>Bytes\<close>

definition byte_char :: "8 word \<Rightarrow> char" where
  "byte_char b = char_of (unat b)"

text \<open>\<open>checksum(buf + p, len)\<close>: all bytes sum to 0 modulo 256.\<close>

fun sum_bytes :: "bytes \<Rightarrow> nat \<Rightarrow> nat \<Rightarrow> 8 word \<Rightarrow> (8 word) option" where
  "sum_bytes m p 0 s = Some s"
| "sum_bytes m p (Suc n) s = do { b \<leftarrow> rd m (int p); sum_bytes m (p + 1) n (s + b) }"

definition checksum :: "bytes \<Rightarrow> nat \<Rightarrow> nat \<Rightarrow> bool option" where
  "checksum m p len = do { s \<leftarrow> sum_bytes m p len 0; Some (s = 0) }"

text \<open>\<open>strlen\<close> on the chunk, and the text at a pointer.\<close>

function bstrlen :: "bytes \<Rightarrow> nat \<Rightarrow> nat option" where
  "bstrlen m p = do {
     b \<leftarrow> rd m (int p);
     if b = 0 then Some 0 else do { n \<leftarrow> bstrlen m (p + 1); Some (n + 1) }
   }"
  by pat_completeness auto
termination
  by (relation "measure (\<lambda>(m, p). length m - p)") (auto simp: rd_Some_iff)

declare bstrlen.simps [simp del]

definition btext :: "bytes \<Rightarrow> nat \<Rightarrow> string option" where
  "btext m p = do { n \<leftarrow> bstrlen m p; Some (map byte_char (take n (drop p m))) }"

section \<open>dmi_string\<close>

text \<open>\<open>while (s > 1 && *bp) { bp += strlen(bp); bp++; s--; }\<close>\<close>

fun skip_strings :: "bytes \<Rightarrow> nat \<Rightarrow> nat \<Rightarrow> nat option" where
  "skip_strings m bp s =
     (if s > 1 then do {
        b \<leftarrow> rd m (int bp);
        if b \<noteq> 0 then do {
          n \<leftarrow> bstrlen m bp;
          skip_strings m (bp + n + 1) (s - 1)
        } else Some bp
      } else Some bp)"

declare skip_strings.simps [simp del]

text \<open>\<open>char\<close> is signed: bytes from 128 on compare as negative.\<close>

definition unprintable :: "8 word \<Rightarrow> bool" where
  "unprintable b \<longleftrightarrow> sint b < 32 \<or> sint b = 127"

text \<open>\<open>for (i = 0; i < strlen(bp); i++) if (...) bp[i] = '.';\<close>\<close>

function ascii_filter :: "bytes \<Rightarrow> nat \<Rightarrow> nat \<Rightarrow> bytes option" where
  "ascii_filter m bp i = do {
     n \<leftarrow> bstrlen m bp;
     if i < n then do {
       b \<leftarrow> rd m (int (bp + i));
       m' \<leftarrow> (if unprintable b then wr m (int (bp + i)) 46 else Some m);
       ascii_filter m' bp (i + 1)
     } else Some m
   }"
  by pat_completeness auto
termination
  by (relation "measure (\<lambda>(m, bp, i). length m - (bp + i))")
    (auto simp: rd_Some_iff wr_Some_iff split: if_splits)

declare ascii_filter.simps [simp del]

datatype dmi_ptr = Literal string | Pointer nat

text \<open>\<open>dm\<close> is the offset of the structure; \<open>dm->length\<close> is its second byte.\<close>

definition dmi_string :: "bytes \<Rightarrow> nat \<Rightarrow> 8 word \<Rightarrow> (bytes \<times> dmi_ptr) option" where
  "dmi_string m dm s =
     (if s = 0 then Some (m, Literal ''Not Specified'')
      else do {
        len \<leftarrow> rd m (int (dm + 1));
        bp \<leftarrow> skip_strings m (dm + unat len) (unat s);
        b \<leftarrow> rd m (int bp);
        if b = 0 then Some (m, Literal ''<bad index>'')
        else do {
          m' \<leftarrow> ascii_filter m bp 0;
          Some (m', Pointer bp)
        }
      })"

fun ptr_text :: "bytes \<Rightarrow> dmi_ptr \<Rightarrow> string option" where
  "ptr_text m (Literal s) = Some s"
| "ptr_text m (Pointer p) = btext m p"

section \<open>struct dmi_data_t\<close>

datatype dmi_field = bios_vendor | bios_version | bios_date | sys_vendor | sys_product
  | sys_version | sys_serial | board_vendor | board_product | board_version | board_serial

fun field_index :: "dmi_field \<Rightarrow> nat" where
  "field_index bios_vendor = 0"
| "field_index bios_version = 1"
| "field_index bios_date = 2"
| "field_index sys_vendor = 3"
| "field_index sys_product = 4"
| "field_index sys_version = 5"
| "field_index sys_serial = 6"
| "field_index board_vendor = 7"
| "field_index board_product = 8"
| "field_index board_version = 9"
| "field_index board_serial = 10"

definition field_off :: "dmi_field \<Rightarrow> nat" where
  "field_off f = 50 * field_index f"

definition dmi_zero :: mem where
  "dmi_zero = replicate 550 NUL"

text \<open>\<open>snprintf(dmi_data.f, 50, "%s", s)\<close>\<close>

definition set_field :: "mem \<Rightarrow> dmi_field \<Rightarrow> string \<Rightarrow> mem option" where
  "set_field d f s =
     (let t = snprintf_s 50 s; p = field_off f in
      if p + 50 \<le> length d
      then Some (take p d @ t @ NUL # drop (p + length t + 1) d) else None)"

definition get_field :: "mem \<Rightarrow> dmi_field \<Rightarrow> string option" where
  "get_field d f = cstr d (field_off f)"

section \<open>dmi_decode\<close>

definition put_string :: "nat \<Rightarrow> dmi_field \<Rightarrow> nat \<Rightarrow> bytes \<times> mem \<Rightarrow> (bytes \<times> mem) option" where
  "put_string dm f k st = (case st of (m, d) \<Rightarrow> do {
     s \<leftarrow> rd m (int (dm + k));
     (m, p) \<leftarrow> dmi_string m dm s;
     t \<leftarrow> ptr_text m p;
     d \<leftarrow> set_field d f t;
     Some (m, d)
   })"

fun put_strings :: "nat \<Rightarrow> (dmi_field \<times> nat) list \<Rightarrow> bytes \<times> mem \<Rightarrow> (bytes \<times> mem) option" where
  "put_strings dm [] st = Some st"
| "put_strings dm ((f, k) # fs) st = do { st \<leftarrow> put_string dm f k st; put_strings dm fs st }"

text \<open>The fields a structure type fills, with the offset of the string number of each, and
  the least length the structure must have.\<close>

definition type_fields :: "8 word \<Rightarrow> (8 word \<times> (dmi_field \<times> nat) list) option" where
  "type_fields ty =
     (if ty = 0 then Some (0x12, [(bios_vendor, 4), (bios_version, 5), (bios_date, 6)])
      else if ty = 1 then Some (0x08, [(sys_vendor, 4), (sys_product, 5), (sys_version, 6), (sys_serial, 7)])
      else if ty = 2 then Some (0x08, [(board_vendor, 4), (board_product, 5), (board_version, 6), (board_serial, 7)])
      else None)"

definition trim_field :: "dmi_field \<Rightarrow> bytes \<times> mem \<Rightarrow> (bytes \<times> mem) option" where
  "trim_field f st = (case st of (m, d) \<Rightarrow> do { d \<leftarrow> trim d (field_off f); Some (m, d) })"

definition dmi_decode :: "nat \<Rightarrow> bytes \<times> mem \<Rightarrow> (bytes \<times> mem) option" where
  "dmi_decode dm st = do {
     ty \<leftarrow> rd (fst st) (int dm);
     len \<leftarrow> rd (fst st) (int (dm + 1));
     st \<leftarrow> (case type_fields ty of
              None \<Rightarrow> Some st
            | Some (least, fs) \<Rightarrow> if len < least then Some st else put_strings dm fs st);
     st \<leftarrow> trim_field board_vendor st;
     st \<leftarrow> trim_field board_product st;
     trim_field bios_version st
   }"

section \<open>dmi_table\<close>

text \<open>\<open>while (next - buf + 1 < len && (next[0] != 0 || next[1] != 0)) next++;\<close>\<close>

function find_end :: "bytes \<Rightarrow> nat \<Rightarrow> nat \<Rightarrow> nat option" where
  "find_end m len next =
     (if next + 1 < len then do {
        a \<leftarrow> rd m (int next);
        b \<leftarrow> (if a \<noteq> 0 then Some 1 else rd m (int (next + 1)));
        if a \<noteq> 0 \<or> b \<noteq> 0 then find_end m len (next + 1) else Some next
      } else Some next)"
  by pat_completeness auto
termination
  by (relation "measure (\<lambda>(m, len, next). len - next)") auto

declare find_end.simps [simp del]

text \<open>The loop over at most \<open>n\<close> structures, from the offset \<open>data\<close>; 4 is the size of the header.\<close>

fun dmi_walk :: "nat \<Rightarrow> nat \<Rightarrow> nat \<Rightarrow> bytes \<times> mem \<Rightarrow> (bytes \<times> mem) option" where
  "dmi_walk 0 len data st = Some st"
| "dmi_walk (Suc n) len data st =
     (if data + 4 \<le> len then do {
        hlen \<leftarrow> rd (fst st) (int (data + 1));
        e \<leftarrow> find_end (fst st) len (data + unat hlen);
        st \<leftarrow> (if e + 2 \<le> len then dmi_decode data st else Some st);
        dmi_walk n len (e + 2) st
      } else Some st)"

text \<open>
  \<open>chunk base len\<close> stands for \<open>mem_chunk\<close> on a state \<open>'w\<close> of the system, \<open>rel\<close> for
  \<open>free\<close>.
\<close>

definition dmi_table ::
  "(nat \<Rightarrow> nat \<Rightarrow> 'w \<Rightarrow> bytes option \<times> 'w) \<Rightarrow> ('w \<Rightarrow> 'w) \<Rightarrow> nat \<Rightarrow> nat \<Rightarrow> nat \<Rightarrow> mem \<times> 'w \<Rightarrow> (mem \<times> 'w) option"
where
  "dmi_table chunk rel base len num st =
     (case chunk base len (snd st) of
        (None, w) \<Rightarrow> Some (fst st, w)
      | (Some buf, w) \<Rightarrow> do { (m, d) \<leftarrow> dmi_walk num len 0 (buf, fst st); Some (d, rel w) })"

section \<open>The entry point\<close>

definition WORD :: "bytes \<Rightarrow> nat \<Rightarrow> nat option" where
  "WORD m p = do { a \<leftarrow> rd m (int p); b \<leftarrow> rd m (int (p + 1)); Some (unat a + 2 ^ 8 * unat b) }"

definition DWORD :: "bytes \<Rightarrow> nat \<Rightarrow> nat option" where
  "DWORD m p = do { a \<leftarrow> WORD m p; b \<leftarrow> WORD m (p + 2); Some (a + 2 ^ 16 * b) }"

text \<open>\<open>memcmp(buf + p, lit, n) == 0\<close>\<close>

definition mem_eq :: "bytes \<Rightarrow> nat \<Rightarrow> string \<Rightarrow> bool option" where
  "mem_eq m p lit = (if p + length lit \<le> length m
     then Some (map byte_char (take (length lit) (drop p m)) = lit) else None)"

definition smbios_decode ::
  "(nat \<Rightarrow> nat \<Rightarrow> 'w \<Rightarrow> bytes option \<times> 'w) \<Rightarrow> ('w \<Rightarrow> 'w) \<Rightarrow> bytes \<Rightarrow> nat \<Rightarrow> mem \<times> 'w \<Rightarrow> (bool \<times> mem \<times> 'w) option"
where
  "smbios_decode chunk rel buf p st = do {
     len \<leftarrow> rd buf (int (p + 0x05));
     c1 \<leftarrow> checksum buf p (unat len);
     c2 \<leftarrow> (if c1 then mem_eq buf (p + 0x10) ''_DMI_'' else Some False);
     c3 \<leftarrow> (if c2 then checksum buf (p + 0x10) 0x0F else Some False);
     if c3 then do {
       base \<leftarrow> DWORD buf (p + 0x18);
       len \<leftarrow> WORD buf (p + 0x16);
       num \<leftarrow> WORD buf (p + 0x1C);
       st \<leftarrow> dmi_table chunk rel base len num st;
       Some (True, st)
     } else Some (False, st)
   }"

text \<open>\<open>for (fp = 0; fp <= 0xFFF0; fp += 16)\<close>, with the second increment after an anchor; the
  first component counts the tables found.\<close>

function scan_anchors ::
  "(nat \<Rightarrow> nat \<Rightarrow> 'w \<Rightarrow> bytes option \<times> 'w) \<Rightarrow> ('w \<Rightarrow> 'w) \<Rightarrow> bytes \<Rightarrow> nat \<Rightarrow> nat \<times> mem \<times> 'w \<Rightarrow> (nat \<times> mem \<times> 'w) option"
where
  "scan_anchors chunk rel buf fp st =
     (if fp \<le> 0xFFF0 then do {
        c \<leftarrow> mem_eq buf fp ''_SM_'';
        if c \<and> fp \<le> 0xFFE0 then do {
          (ok, st') \<leftarrow> smbios_decode chunk rel buf fp (snd st);
          scan_anchors chunk rel buf (fp + 16 + 16) (if ok then fst st + 1 else fst st, st')
        } else scan_anchors chunk rel buf (fp + 16) st
      } else Some st)"
  by pat_completeness auto
termination
  by (relation "measure (\<lambda>(chunk, rel, buf, fp, st). 0x10000 - fp)") auto

declare scan_anchors.simps [simp del]

datatype 'a exits = Exit int | Returns 'a

text \<open>\<open>do_dmi_decode\<close>; with the status 1 the process ends.\<close>

definition do_dmi_decode ::
  "(nat \<Rightarrow> nat \<Rightarrow> 'w \<Rightarrow> bytes option \<times> 'w) \<Rightarrow> ('w \<Rightarrow> 'w) \<Rightarrow> mem \<times> 'w \<Rightarrow> ((mem \<times> 'w) exits) option"
where
  "do_dmi_decode chunk rel st =
     (case chunk 0xF0000 0x10000 (snd st) of
        (None, w) \<Rightarrow> Some (Exit 1)
      | (Some buf, w) \<Rightarrow> do {
          (found, d, w) \<leftarrow> scan_anchors chunk rel buf 0 (0, fst st, w);
          Some (Returns (d, rel w))
        })"

section \<open>Strings of a chunk\<close>

text \<open>\<open>nz s\<close>: no byte of \<open>s\<close> is 0.\<close>

definition nz :: "bytes \<Rightarrow> bool" where
  "nz s \<longleftrightarrow> 0 \<notin> set s"

lemma nz_simps [simp]:
  "nz []" "nz (b # s) \<longleftrightarrow> b \<noteq> 0 \<and> nz s" "nz (s @ t) \<longleftrightarrow> nz s \<and> nz t"
  by (auto simp: nz_def)

text \<open>A zero at or after \<open>p\<close> splits the chunk around the string at \<open>p\<close>.\<close>

lemma zero_split:
  assumes "p \<le> z" and "z < length m" and "m ! z = 0"
  obtains pre s post where "m = pre @ s @ 0 # post" "length pre = p" "nz s" "p + length s \<le> z"
proof -
  let ?d = "drop p m"
  define s where "s = takeWhile (\<lambda>b. b \<noteq> 0) ?d"
  have z: "?d ! (z - p) = 0" "z - p < length ?d" using assms by auto
  have "length s \<le> z - p"
  proof (rule ccontr)
    assume "\<not> length s \<le> z - p"
    then have "z - p < length s" by simp
    then have "s ! (z - p) \<in> set s" by (rule nth_mem)
    then have "s ! (z - p) \<noteq> 0" unfolding s_def by (blast dest: set_takeWhileD)
    moreover have "s ! (z - p) = ?d ! (z - p)"
      using \<open>z - p < length s\<close> unfolding s_def by (rule takeWhile_nth)
    ultimately show False using z(1) by simp
  qed
  then have l: "length s < length ?d" using z(2) by simp
  then have "?d ! length s = 0" unfolding s_def using nth_length_takeWhile by blast
  moreover have "?d = s @ drop (length s) ?d"
    unfolding s_def by (metis takeWhile_eq_take append_take_drop_id)
  ultimately have "?d = s @ 0 # drop (Suc (length s)) ?d"
    using l by (metis Cons_nth_drop_Suc)
  then have "m = take p m @ s @ 0 # drop (Suc (length s)) ?d" by (metis append_take_drop_id)
  moreover have "length (take p m) = p" using assms by simp
  moreover have "nz s" by (auto simp: nz_def s_def dest: set_takeWhileD)
  ultimately show thesis using that \<open>length s \<le> z - p\<close> assms(1) by fastforce
qed

lemma bstrlen_run: "nz s \<Longrightarrow> bstrlen (pre @ s @ 0 # post) (length pre) = Some (length s)"
proof (induction s arbitrary: pre)
  case Nil
  then show ?case by (subst bstrlen.simps) (simp add: cmem)
next
  case (Cons b s)
  have "bstrlen ((pre @ [b]) @ s @ 0 # post) (length (pre @ [b])) = Some (length s)"
    using Cons by (intro Cons.IH) simp
  with Cons.prems show ?case by (subst bstrlen.simps) (simp add: cmem)
qed

lemma btext_run: "nz s \<Longrightarrow> btext (pre @ s @ 0 # post) (length pre) = Some (map byte_char s)"
  by (simp add: btext_def bstrlen_run)

definition filtered :: "8 word \<Rightarrow> 8 word" where
  "filtered b = (if unprintable b then 46 else b)"

lemma filtered_nz: "b \<noteq> 0 \<Longrightarrow> filtered b \<noteq> 0"
  by (simp add: filtered_def)

lemma nz_filtered: "nz s \<Longrightarrow> nz (map filtered s)"
  by (induction s) (auto simp: filtered_nz)

lemma ascii_filter_run:
  "nz u \<Longrightarrow> nz s \<Longrightarrow> ascii_filter (pre @ u @ s @ 0 # post) (length pre) (length u) =
     Some (pre @ u @ map filtered s @ 0 # post)"
proof (induction s arbitrary: u)
  case Nil
  have "bstrlen (pre @ u @ 0 # post) (length pre) = Some (length u)" using Nil by (simp add: bstrlen_run)
  then show ?case by (subst ascii_filter.simps) simp
next
  case (Cons b s)
  let ?m = "pre @ u @ (b # s) @ 0 # post"
  have l: "bstrlen ?m (length pre) = Some (length (u @ b # s))"
    using Cons.prems bstrlen_run [of "u @ b # s" pre post] by simp
  have r: "rd ?m (int (length pre + length u)) = Some b"
    using rd_append_right [of "pre @ u" b "s @ 0 # post"] by simp
  have w: "wr ?m (int (length pre + length u)) 46 = Some (pre @ (u @ [46]) @ s @ 0 # post)"
    using wr_append_right [of "pre @ u" b "s @ 0 # post" 46] by simp
  have "(if unprintable b then wr ?m (int (length pre + length u)) 46 else Some ?m) =
    Some (pre @ (u @ [filtered b]) @ s @ 0 # post)"
    by (simp add: w [simplified] filtered_def)
  then have "ascii_filter ?m (length pre) (length u) =
    ascii_filter (pre @ (u @ [filtered b]) @ s @ 0 # post) (length pre) (length (u @ [filtered b]))"
    by (subst ascii_filter.simps) (simp only: l r, simp)
  also have "\<dots> = Some (pre @ (u @ [filtered b]) @ map filtered s @ 0 # post)"
    using Cons.prems by (intro Cons.IH) (simp_all add: filtered_nz)
  finally show ?case by simp
qed

section \<open>Memory safety of the walk\<close>

text \<open>A structure at \<open>dm\<close> ends with two zero bytes at \<open>z\<close>, behind its formatted part.\<close>

definition closed_at :: "bytes \<Rightarrow> nat \<Rightarrow> nat \<Rightarrow> bool" where
  "closed_at m a z \<longleftrightarrow> a \<le> z \<and> z + 1 < length m \<and> m ! z = 0 \<and> m ! (z + 1) = 0"

lemma skip_strings_safe:
  "closed_at m a z \<Longrightarrow> a \<le> bp \<Longrightarrow> bp \<le> z + 1 \<Longrightarrow>
   \<exists>bp'. skip_strings m bp s = Some bp' \<and> a \<le> bp' \<and> bp' \<le> z + 1"
proof (induction m bp s rule: skip_strings.induct)
  case (1 m bp s)
  have r: "rd m (int bp) = Some (m ! bp)" using 1 by (simp add: cmem closed_at_def)
  show ?case
  proof (cases "s > 1 \<and> m ! bp \<noteq> 0")
    case True
    then have "bp \<noteq> z + 1" using 1 by (auto simp: closed_at_def)
    then have "bp \<le> z" using 1 by simp
    then obtain pre t post where t: "m = pre @ t @ 0 # post" "length pre = bp" "nz t" "bp + length t \<le> z"
      using zero_split [of bp z m] 1 by (auto simp: closed_at_def)
    have l: "bstrlen m bp = Some (length t)" using bstrlen_run [OF t(3), of pre post] t(1,2) by simp
    have "skip_strings m bp s = skip_strings m (bp + length t + 1) (s - 1)"
      using True by (subst skip_strings.simps) (simp add: r l)
    moreover have "\<exists>bp'. skip_strings m (bp + length t + 1) (s - 1) = Some bp' \<and> a \<le> bp' \<and> bp' \<le> z + 1"
      using True r l t(4) 1 by (intro "1.IH") auto
    ultimately show ?thesis by simp
  next
    case False
    then show ?thesis using r 1 by (subst skip_strings.simps) auto
  qed
qed

text \<open>What writing into a chunk must keep: its length and the places of its zero bytes.\<close>

definition same_shape :: "bytes \<Rightarrow> bytes \<Rightarrow> bool" where
  "same_shape m m' \<longleftrightarrow> length m' = length m \<and> (\<forall>i < length m. m' ! i = 0 \<longleftrightarrow> m ! i = 0)"

lemma same_shape_refl [simp]: "same_shape m m"
  by (simp add: same_shape_def)

lemma same_shape_trans: "same_shape m m' \<Longrightarrow> same_shape m' m'' \<Longrightarrow> same_shape m m''"
  by (simp add: same_shape_def)

lemma closed_at_same_shape: "closed_at m a z \<Longrightarrow> same_shape m m' \<Longrightarrow> closed_at m' a z"
  by (simp add: closed_at_def same_shape_def)

lemma same_shape_filtered:
  assumes "nz s"
  shows "same_shape (pre @ s @ post) (pre @ map filtered s @ post)"
proof -
  have "s ! j \<noteq> 0" if "j < length s" for j using assms that by (auto simp: nz_def dest: nth_mem)
  then show ?thesis by (auto simp: same_shape_def nth_append filtered_nz)
qed

text \<open>The text of a string number is printable ASCII, whatever the chunk holds.\<close>

definition printable :: "string \<Rightarrow> bool" where
  "printable t \<longleftrightarrow> (\<forall>c \<in> set t. 32 \<le> (of_char c :: nat) \<and> (of_char c :: nat) < 127)"

lemma sint_byte: "sint (b :: 8 word) = (if uint b < 128 then uint b else uint b - 256)"
proof -
  have "sint b = (uint b + 128) mod 256 - 128"
    by (simp add: sint_uint signed_take_bit_eq_take_bit_shift take_bit_eq_mod)
  moreover have "0 \<le> uint b" "uint b < 256" using uint_lt2p [of b] by simp_all
  moreover have "(u + 128) mod 256 - 128 = (if u < 128 then u else u - 256)"
    if u: "0 \<le> u" "u < 256" for u :: int
  proof (cases "u < 128")
    case True
    with u show ?thesis by simp
  next
    case False
    have "(u + 128) mod 256 = (u - 128 + 256) mod 256" by (simp add: add.commute)
    also have "\<dots> = (u - 128) mod 256" by (rule mod_add_self2)
    also have "\<dots> = u - 128" using False u by simp
    finally show ?thesis using False by simp
  qed
  ultimately show ?thesis by simp
qed

lemma filtered_printable: "32 \<le> unat (filtered b) \<and> unat (filtered b) < 127"
proof (cases "unprintable b")
  case True
  then show ?thesis by (simp add: filtered_def)
next
  case False
  moreover have "uint b < 256" using uint_lt2p [of b] by simp
  ultimately have "32 \<le> uint b" "uint b < 127"
    by (auto simp: unprintable_def sint_byte split: if_splits)
  then have "32 \<le> unat b" "unat b < 127" using uint_nat [of b] by linarith+
  then show ?thesis using False by (simp add: filtered_def)
qed

lemma printable_filtered: "printable (map byte_char (map filtered u))"
proof -
  have "of_char (byte_char (filtered b)) = unat (filtered b)" for b
    using filtered_printable [of b] by (simp add: byte_char_def)
  then show ?thesis using filtered_printable by (simp add: printable_def)
qed

text \<open>\<open>dmi_string\<close> inside a closed structure: it returns, keeps the shape, and its text is
  printable.\<close>

lemma dmi_string_safe:
  assumes c: "closed_at m (dm + unat (m ! (dm + 1))) z" and "dm + 1 < length m"
  obtains m' p t where "dmi_string m dm s = Some (m', p)" "ptr_text m' p = Some t"
    "same_shape m m'" "printable t"
proof (cases "s = 0")
  case True
  then show ?thesis using that [of m "Literal ''Not Specified''"]
    by (simp add: dmi_string_def printable_def)
next
  case False
  let ?a = "dm + unat (m ! (dm + 1))"
  have r: "rd m (int (dm + 1)) = Some (m ! (dm + 1))" using assms(2) by (rule rd_nat)
  obtain bp where bp: "skip_strings m ?a (unat s) = Some bp" "?a \<le> bp" "bp \<le> z + 1"
    using skip_strings_safe [OF c, of ?a "unat s"] c by (auto simp: closed_at_def)
  then have b: "bp < length m" using c by (auto simp: closed_at_def)
  show ?thesis
  proof (cases "m ! bp = 0")
    case True
    then have "dmi_string m dm s = Some (m, Literal ''<bad index>'')"
      using False r bp(1) b by (simp add: dmi_string_def cmem)
    then show ?thesis using that by (simp add: printable_def)
  next
    case nz: False
    then have "bp \<le> z" using bp(3) c by (cases "bp = z + 1") (auto simp: closed_at_def)
    moreover have "z < length m" "m ! z = 0" using c by (auto simp: closed_at_def)
    ultimately obtain pre u post where u: "m = pre @ u @ 0 # post" "length pre = bp" "nz u"
      "bp + length u \<le> z" by (rule zero_split)
    let ?m' = "pre @ map filtered u @ 0 # post"
    have "ascii_filter m bp 0 = Some ?m'"
      using ascii_filter_run [of "[]" u pre post] u by simp
    then have d: "dmi_string m dm s = Some (?m', Pointer bp)"
      using False r bp(1) b nz by (simp add: dmi_string_def cmem)
    have t: "ptr_text ?m' (Pointer bp) = Some (map byte_char (map filtered u))"
      using btext_run [OF nz_filtered [OF u(3)], of pre post] u(2) by simp
    have "printable (map byte_char (map filtered u))" by (rule printable_filtered)
    moreover have "same_shape m ?m'" unfolding u(1) by (rule same_shape_filtered [OF u(3)])
    ultimately show ?thesis using that d t by blast
  qed
qed

section \<open>The fields of dmi_data\<close>

text \<open>Every field ends with a NUL, so that the byte before a field is never a blank.\<close>

definition dmi_inv :: "mem \<Rightarrow> bool" where
  "dmi_inv d \<longleftrightarrow> length d = 550 \<and> (\<forall>f. d ! (field_off f + 49) = NUL)"

lemma field_off_bound: "field_off f + 50 \<le> 550"
  by (cases f) (simp_all add: field_off_def)

lemma field_off_disjoint: "f \<noteq> g \<Longrightarrow> field_off f + 50 \<le> field_off g \<or> field_off g + 50 \<le> field_off f"
  by (cases f; cases g) (simp_all add: field_off_def)

lemma dmi_inv_zero: "dmi_inv dmi_zero"
  unfolding dmi_inv_def dmi_zero_def
proof (intro conjI allI)
  fix f
  show "replicate 550 NUL ! (field_off f + 49) = NUL"
    using field_off_bound [of f] by (intro nth_replicate) simp
qed simp

text \<open>A write that stays inside one field and leaves its last byte NUL keeps the invariant and
  the other fields.\<close>

definition only_field :: "dmi_field \<Rightarrow> mem \<Rightarrow> mem \<Rightarrow> bool" where
  "only_field f d d' \<longleftrightarrow> length d' = length d \<and>
     (\<forall>i < length d. i < field_off f \<or> field_off f + 49 \<le> i \<longrightarrow> d' ! i = d ! i)"

lemma dmi_inv_cstr:
  assumes "dmi_inv d"
  obtains pre s post where "d = pre @ s @ NUL # post" "length pre = field_off f" "nul_free s"
    "length s \<le> 49" "get_field d f = Some s"
proof -
  let ?p = "field_off f" and ?z = "field_off f + 49"
  have l: "length d = 550" and z: "d ! ?z = NUL" using assms by (auto simp: dmi_inv_def)
  have b: "?p + 50 \<le> 550" by (rule field_off_bound)
  have "drop ?p d ! 49 = NUL" "49 < length (drop ?p d)" using l z b by simp_all
  then have "NUL \<in> set (drop ?p d)" by (metis nth_mem)
  then have g: "get_field d f = Some (takeWhile (\<lambda>c. c \<noteq> NUL) (drop ?p d))"
    using l b by (simp add: get_field_def cstr_def)
  then obtain pre post where d: "d = pre @ takeWhile (\<lambda>c. c \<noteq> NUL) (drop ?p d) @ NUL # post"
    "length pre = ?p" unfolding get_field_def by (rule cstr_split)
  let ?s = "takeWhile (\<lambda>c. c \<noteq> NUL) (drop ?p d)"
  have "length ?s \<le> 49"
  proof (rule ccontr)
    assume a: "\<not> length ?s \<le> 49"
    then have "?s ! 49 \<in> set ?s" by (intro nth_mem) simp
    then have "?s ! 49 \<noteq> NUL" by (blast dest: set_takeWhileD)
    moreover have "?s ! 49 = drop ?p d ! 49" using a by (intro takeWhile_nth) simp
    ultimately show False using \<open>drop ?p d ! 49 = NUL\<close> by simp
  qed
  with that d g nul_free_takeWhile show thesis by blast
qed

lemma only_field_inv:
  assumes "only_field f d d'" and "dmi_inv d"
  shows "dmi_inv d'"
proof -
  have "d' ! (field_off g + 49) = NUL" for g
  proof -
    have "field_off g + 49 < field_off f \<or> field_off f + 49 \<le> field_off g + 49"
      using field_off_disjoint [of f g] by (cases "f = g") auto
    moreover have "field_off g + 49 < length d"
      using assms(2) field_off_bound [of g] by (simp add: dmi_inv_def)
    ultimately show ?thesis using assms by (auto simp: only_field_def dmi_inv_def)
  qed
  then show ?thesis using assms by (simp add: only_field_def dmi_inv_def)
qed

lemma only_field_get:
  assumes "only_field f d d'" and "dmi_inv d" and "g \<noteq> f"
  shows "get_field d' g = get_field d g"
proof -
  obtain pre s post where d: "d = pre @ s @ NUL # post" "length pre = field_off g" "nul_free s"
    "length s \<le> 49" "get_field d g = Some s" using dmi_inv_cstr [OF assms(2)] .
  have len: "length d' = length d" using assms(1) by (simp add: only_field_def)
  have same: "d' ! i = d ! i" if "field_off g \<le> i" "i \<le> field_off g + length s" for i
  proof -
    have "i < field_off f \<or> field_off f + 49 \<le> i"
      using field_off_disjoint [OF assms(3)] that d(4) by auto
    moreover have "i < length d" using that d(1,2) by simp
    ultimately show ?thesis using assms(1) by (auto simp: only_field_def)
  qed
  let ?k = "Suc (length s)"
  have ld: "field_off g + ?k \<le> length d" using d(1,2) by simp
  have "take ?k (drop (field_off g) d') = take ?k (drop (field_off g) d)"
    by (rule nth_equalityI) (use same len ld in auto)
  also have "\<dots> = s @ [NUL]" using d(1,2) by simp
  finally have "drop (field_off g) d' = s @ NUL # drop ?k (drop (field_off g) d')"
    by (metis append.assoc append_Cons append_Nil append_take_drop_id)
  then have "d' = take (field_off g) d' @ s @ NUL # drop ?k (drop (field_off g) d')"
    by (metis append_take_drop_id)
  moreover have "length (take (field_off g) d') = field_off g" using len d(1,2) by simp
  ultimately have "get_field d' g = Some s"
    unfolding get_field_def using cstr_append [OF d(3)] by metis
  then show ?thesis using d(5) by simp
qed

lemma set_field_ok:
  assumes "dmi_inv d" and "nul_free t"
  obtains d' where "set_field d f t = Some d'" "only_field f d d'" "dmi_inv d'"
    "get_field d' f = Some (snprintf_s 50 t)"
proof -
  let ?p = "field_off f" and ?t = "snprintf_s 50 t"
  let ?d' = "take ?p d @ ?t @ NUL # drop (?p + length ?t + 1) d"
  have l: "length d = 550" and b: "?p + 50 \<le> 550" using assms(1) field_off_bound by (auto simp: dmi_inv_def)
  have tl: "length ?t \<le> 49" using snprintf_s_length [of 50 t] by simp
  have s: "set_field d f t = Some ?d'" using l b by (simp add: set_field_def Let_def)
  have "d ! (?p + 49) = NUL" using assms(1) by (simp add: dmi_inv_def)
  have "d ! i = NUL" if "?p + 49 \<le> i" "i \<le> ?p + length ?t" for i
  proof -
    have "i = ?p + 49" using that tl by linarith
    with \<open>d ! (?p + 49) = NUL\<close> show ?thesis by simp
  qed
  then have o: "only_field f d ?d'"
    using l b tl by (auto simp: only_field_def nth_append nth_Cons' min_def)
  have "get_field ?d' f = Some ?t"
    using cstr_append [of ?t "take ?p d"] l b assms(2) by (simp add: get_field_def min_def)
  with that s o only_field_inv [OF o assms(1)] show thesis by blast
qed

text \<open>\<open>trim\<close> on a field other than the first: defined, confined to the field, and the field
  is stripped, also when it is blank.\<close>

lemma trim_field_ok:
  assumes d: "dmi_inv d" and f: "f \<noteq> bios_vendor"
  obtains d' s where "trim d (field_off f) = Some d'" "only_field f d d'" "dmi_inv d'"
    "get_field d f = Some s" "get_field d' f = Some (strip s)"
proof -
  obtain pre s post where p: "d = pre @ s @ NUL # post" "length pre = field_off f" "nul_free s"
    "length s \<le> 49" "get_field d f = Some s" using dmi_inv_cstr [OF d] .
  have ns: "nul_free (strip s)" using p(3) by simp
  have "\<exists>r. length r = length s - length (strip s) \<and> last (NUL # r) = NUL \<and>
    trim d (field_off f) = Some (pre @ strip s @ NUL # r @ post)"
  proof (cases "all_blank s")
    case False
    then show ?thesis using trim_strip [OF p(3) False, of pre post] p(1,2) by metis
  next
    case True
    then have e: "strip s = []" by (simp add: strip_empty)
    obtain r where r: "length r = length s" "last (NUL # r) = NUL"
      "trim d (field_off f) = cut_tail (pre @ NUL # r @ post) (int (length pre) - 1)"
      using trim_blank [OF p(3) True, of pre post] p(1,2) by metis
    obtain g where g: "field_off f = field_off g + 50"
      using f by (cases f) (auto simp: field_off_def intro: that [of bios_vendor] that [of bios_version]
        that [of bios_date] that [of sys_vendor] that [of sys_product] that [of sys_version]
        that [of sys_serial] that [of board_vendor] that [of board_product] that [of board_version])
    then obtain q c where q: "pre = q @ [c]" using p(2) by (cases pre rule: rev_cases) auto
    then have "d ! (field_off g + 49) = c" using p(1,2) g by (simp add: nth_append)
    then have "c = NUL" using d by (simp add: dmi_inv_def)
    then have "cut_tail (pre @ NUL # r @ post) (int (length pre) - 1) = Some (pre @ NUL # r @ post)"
      using cut_tail_stop [of NUL q "NUL # r @ post"] q by (simp add: tail_blank_def)
    with r e show ?thesis by auto
  qed
  then obtain r where r: "length r = length s - length (strip s)" "last (NUL # r) = NUL"
    "trim d (field_off f) = Some (pre @ strip s @ NUL # r @ post)" by blast
  let ?d' = "pre @ strip s @ NUL # r @ post"
  have sl: "length (strip s) \<le> length s" by (rule strip_length)
  have "only_field f d ?d'"
    unfolding only_field_def
  proof (intro conjI allI impI)
    show "length ?d' = length d" using p(1) r(1) sl by simp
    fix i assume i: "i < length d" "i < field_off f \<or> field_off f + 49 \<le> i"
    show "?d' ! i = d ! i"
    proof (cases "i < field_off f")
      case True
      then show ?thesis using p(1,2) by (simp add: nth_append)
    next
      case False
      then have ge: "length pre + length s \<le> i" using i(2) p(2,4) by simp
      show ?thesis
      proof (cases "i = length pre + length s")
        case True
        have "d ! i = NUL" using True p(1) by (simp add: nth_append)
        moreover have "(NUL # r) ! length r = NUL" using r(2) by (metis last_conv_nth length_Cons
          diff_Suc_1 list.distinct(1))
        moreover have "?d' ! i = (NUL # r @ post) ! length r" using True r(1) sl by (simp add: nth_append)
        moreover have "(NUL # r @ post) ! length r = (NUL # r) ! length r"
          by (metis append_Cons length_Cons lessI nth_append)
        ultimately show ?thesis by simp
      next
        case False
        then obtain k where k: "i = length pre + length s + Suc k" using ge
          by (metis add_Suc_right le_Suc_ex less_imp_Suc_add nat_less_le)
        have "d ! i = post ! k" using p(1) k by (simp add: nth_append)
        moreover have "?d' ! i = post ! k"
        proof -
          have "i = length (pre @ strip s @ NUL # r) + k" using k r(1) sl by simp
          then show ?thesis by (metis append.assoc append_Cons nth_append_length_plus)
        qed
        ultimately show ?thesis by simp
      qed
    qed
  qed
  moreover have "get_field ?d' f = Some (strip s)"
    using cstr_append [OF ns, of pre "r @ post"] p(2) by (simp add: get_field_def)
  ultimately show thesis using that r(3) p(5) only_field_inv [OF _ d] by blast
qed

lemma printable_nul_free: "printable t \<Longrightarrow> nul_free t"
  by (auto simp: printable_def nul_free_def)

section \<open>dmi_decode and the walk are safe\<close>

lemma put_string_safe:
  assumes c: "closed_at m (dm + unat (m ! (dm + 1))) z" and k: "dm + k < length m" "dm + 1 < length m"
    and d: "dmi_inv d"
  obtains m' d' where "put_string dm f k (m, d) = Some (m', d')" "same_shape m m'" "dmi_inv d'"
proof -
  obtain m' p t where s: "dmi_string m dm (m ! (dm + k)) = Some (m', p)" "ptr_text m' p = Some t"
    "same_shape m m'" "printable t" using dmi_string_safe [OF c k(2)] .
  obtain d' where d': "set_field d f t = Some d'" "dmi_inv d'"
    using set_field_ok [OF d printable_nul_free [OF s(4)]] by metis
  have "rd m (int (dm + k)) = Some (m ! (dm + k))" using k(1) by (rule rd_nat)
  then have "put_string dm f k (m, d) = Some (m', d')" using s(1,2) d'(1) by (simp add: put_string_def)
  with that s(3) d'(2) show thesis by blast
qed

text \<open>The length byte itself may not change while the strings are filtered: it lies before them.\<close>

definition same_until :: "nat \<Rightarrow> bytes \<Rightarrow> bytes \<Rightarrow> bool" where
  "same_until a m m' \<longleftrightarrow> same_shape m m' \<and> (\<forall>i < a. m' ! i = m ! i)"

lemma same_until_refl [simp]: "same_until a m m"
  by (simp add: same_until_def)

lemma same_until_trans: "same_until a m m' \<Longrightarrow> same_until a m' m'' \<Longrightarrow> same_until a m m''"
  by (auto simp: same_until_def dest: same_shape_trans)

lemma skip_strings_mono: "skip_strings m bp s = Some bp' \<Longrightarrow> bp \<le> bp'"
proof (induction m bp s rule: skip_strings.induct)
  case (1 m bp s)
  show ?case
  proof (cases "\<exists>b n. s > 1 \<and> rd m (int bp) = Some b \<and> b \<noteq> 0 \<and> bstrlen m bp = Some n")
    case True
    then obtain b n where b: "s > 1" "rd m (int bp) = Some b" "b \<noteq> 0" "bstrlen m bp = Some n" by blast
    then have "skip_strings m (bp + n + 1) (s - 1) = Some bp'"
      using "1.prems" by (subst (asm) skip_strings.simps) simp
    then have "bp + n + 1 \<le> bp'" using "1.IH" b by blast
    then show ?thesis by simp
  next
    case False
    with "1.prems" show ?thesis
      by (subst (asm) skip_strings.simps) (auto split: if_splits bind_splits)
  qed
qed

lemma ascii_filter_before: "ascii_filter m bp i = Some m' \<Longrightarrow> j < bp \<Longrightarrow> m' ! j = m ! j"
proof (induction m bp i rule: ascii_filter.induct)
  case (1 m bp i)
  from "1.prems"(1) obtain n where n: "bstrlen m bp = Some n"
    by (subst (asm) ascii_filter.simps) (auto split: bind_splits)
  show ?case
  proof (cases "i < n")
    case True
    from "1.prems"(1) n True obtain b m1 where b: "rd m (int (bp + i)) = Some b"
      "(if unprintable b then wr m (int (bp + i)) 46 else Some m) = Some m1"
      "ascii_filter m1 bp (i + 1) = Some m'"
      by (subst (asm) ascii_filter.simps) (auto split: bind_splits)
    have "m' ! j = m1 ! j" using "1.IH" n True b "1.prems"(2) by blast
    moreover have "m1 ! j = m ! j" using b(2) "1.prems"(2) by (auto simp: wr_Some_iff split: if_splits)
    ultimately show ?thesis by simp
  next
    case False
    with "1.prems"(1) n show ?thesis by (subst (asm) ascii_filter.simps) simp
  qed
qed

lemma dmi_string_before:
  assumes "dmi_string m dm s = Some (m', p)" and "rd m (int (dm + 1)) = Some len" and "j < dm + unat len"
  shows "m' ! j = m ! j"
proof (cases "s = 0")
  case True
  with assms show ?thesis by (simp add: dmi_string_def)
next
  case False
  then obtain bp where bp: "skip_strings m (dm + unat len) (unat s) = Some bp"
    "m' = m \<or> ascii_filter m bp 0 = Some m'"
    using assms(1,2) by (auto simp: dmi_string_def split: bind_splits if_splits)
  have "j < bp" using skip_strings_mono [OF bp(1)] assms(3) by simp
  with bp(2) show ?thesis using ascii_filter_before by blast
qed

lemma put_strings_safe:
  assumes "closed_at m (dm + unat (m ! (dm + 1))) z" and "2 \<le> unat (m ! (dm + 1))"
    and "\<forall>(f, k) \<in> set fs. k < unat (m ! (dm + 1))" and "dmi_inv d"
  shows "\<exists>m' d'. put_strings dm fs (m, d) = Some (m', d') \<and>
    same_until (dm + unat (m ! (dm + 1))) m m' \<and> dmi_inv d'"
  using assms
proof (induction fs arbitrary: m d)
  case Nil
  then show ?case by simp
next
  case (Cons fk fs)
  obtain f k where fk: "fk = (f, k)" by fastforce
  let ?a = "dm + unat (m ! (dm + 1))"
  have len: "dm + k < length m" "dm + 1 < length m"
    using Cons.prems fk by (auto simp: closed_at_def)
  obtain m1 d1 where p: "put_string dm f k (m, d) = Some (m1, d1)" "same_shape m m1" "dmi_inv d1"
    using put_string_safe [OF Cons.prems(1) len Cons.prems(4)] .
  have "m1 ! j = m ! j" if "j < ?a" for j
  proof -
    from p(1) obtain pp where "dmi_string m dm (m ! (dm + k)) = Some (m1, pp)"
      using rd_nat [OF len(1)] by (auto simp: put_string_def split: bind_splits)
    then show ?thesis using dmi_string_before rd_nat [OF len(2)] that by blast
  qed
  with p(2) have u: "same_until ?a m m1" by (simp add: same_until_def)
  have e: "m1 ! (dm + 1) = m ! (dm + 1)" using u Cons.prems(2) by (simp add: same_until_def)
  have "closed_at m1 (dm + unat (m1 ! (dm + 1))) z"
    using closed_at_same_shape [OF Cons.prems(1) p(2)] e by simp
  then obtain m2 d2 where r: "put_strings dm fs (m1, d1) = Some (m2, d2)"
    "same_until ?a m1 m2" "dmi_inv d2"
    using Cons.IH [of m1 d1] Cons.prems(2,3) p(3) e by auto
  with p(1) fk same_until_trans [OF u r(2)] show ?case by simp
qed

lemma type_fields_bound: "type_fields ty = Some (least, fs) \<Longrightarrow> (f, k) \<in> set fs \<Longrightarrow> k < unat least \<and> 8 \<le> unat least"
  by (auto simp: type_fields_def split: if_splits)

text \<open>One structure that is closed inside the chunk.\<close>

lemma dmi_decode_safe:
  assumes c: "closed_at m (dm + unat (m ! (dm + 1))) z" and h: "dm + 4 \<le> length m" and d: "dmi_inv d"
  shows "\<exists>m' d'. dmi_decode dm (m, d) = Some (m', d') \<and> same_shape m m' \<and> dmi_inv d'"
proof -
  let ?fill = "case type_fields (m ! dm) of None \<Rightarrow> Some (m, d)
    | Some (least, fs) \<Rightarrow> if m ! (dm + 1) < least then Some (m, d) else put_strings dm fs (m, d)"
  have "\<exists>m1 d1. ?fill = Some (m1, d1) \<and> same_shape m m1 \<and> dmi_inv d1"
  proof (cases "\<exists>least fs. type_fields (m ! dm) = Some (least, fs) \<and> \<not> m ! (dm + 1) < least")
    case True
    then obtain least fs where t: "type_fields (m ! dm) = Some (least, fs)" "\<not> m ! (dm + 1) < least" by blast
    then have l: "unat least \<le> unat (m ! (dm + 1))" by (simp add: not_less word_le_nat_alt)
    have b: "\<forall>(f, k) \<in> set fs. k < unat least" "8 \<le> unat least"
      using t(1) by (auto simp: type_fields_def split: if_splits)
    have "\<exists>m1 d1. put_strings dm fs (m, d) = Some (m1, d1) \<and>
      same_until (dm + unat (m ! (dm + 1))) m m1 \<and> dmi_inv d1"
      by (rule put_strings_safe [OF c _ _ d]) (use b l in \<open>auto split: prod.splits\<close>)
    with t show ?thesis by (auto simp: same_until_def)
  next
    case False
    then have "?fill = Some (m, d)" by (auto split: option.splits)
    with d show ?thesis by simp
  qed
  then obtain m1 d1 where f: "?fill = Some (m1, d1)" "same_shape m m1" "dmi_inv d1" by blast
  obtain d2 where d2: "trim d1 (field_off board_vendor) = Some d2" "dmi_inv d2"
    using trim_field_ok [OF f(3), of board_vendor] by auto
  obtain d3 where d3: "trim d2 (field_off board_product) = Some d3" "dmi_inv d3"
    using trim_field_ok [OF d2(2), of board_product] by auto
  obtain d4 where d4: "trim d3 (field_off bios_version) = Some d4" "dmi_inv d4"
    using trim_field_ok [OF d3(2), of bios_version] by auto
  have "dm < length m" "dm + 1 < length m" using h by simp_all
  then have r: "rd m (int dm) = Some (m ! dm)" "rd m (int (dm + 1)) = Some (m ! (dm + 1))"
    by (blast intro: rd_nat)+
  have "dmi_decode dm (m, d) = Some (m1, d4)"
    unfolding dmi_decode_def fst_conv r bind.bind_lunit f(1)
    using d2(1) d3(1) d4(1) by (simp add: trim_field_def)
  with f(2) d4(2) show ?thesis by blast
qed

lemma find_end_safe:
  assumes "len \<le> length m"
  shows "\<exists>e. find_end m len next = Some e \<and> next \<le> e \<and> (e + 1 < len \<longrightarrow> m ! e = 0 \<and> m ! (e + 1) = 0)"
  using assms
proof (induction m len "next" rule: find_end.induct)
  case (1 m len "next")
  show ?case
  proof (cases "next + 1 < len")
    case True
    then have "next < length m" "next + 1 < length m" using "1.prems" by simp_all
    then have r: "rd m (int next) = Some (m ! next)" "rd m (int (next + 1)) = Some (m ! (next + 1))"
      by (blast intro: rd_nat)+
    show ?thesis
    proof (cases "m ! next \<noteq> 0 \<or> m ! (next + 1) \<noteq> 0")
      case go: True
      then have e: "find_end m len next = find_end m len (next + 1)"
        using True r by (subst find_end.simps) auto
      have "\<exists>e. find_end m len (next + 1) = Some e \<and> next + 1 \<le> e \<and>
          (e + 1 < len \<longrightarrow> m ! e = 0 \<and> m ! (e + 1) = 0)"
        by (rule "1.IH" [OF True r(1), of "if m ! next \<noteq> 0 then 1 else m ! (next + 1)"])
          (use go r "1.prems" in auto)
      with e show ?thesis by auto
    next
      case False
      then have "find_end m len next = Some next" using True r by (subst find_end.simps) simp
      with False show ?thesis by simp
    qed
  next
    case False
    then show ?thesis by (subst find_end.simps) simp
  qed
qed

text \<open>The walk over any bytes whatsoever stays inside the chunk.\<close>

lemma dmi_walk_safe:
  "length m = len \<Longrightarrow> dmi_inv d \<Longrightarrow>
   \<exists>m' d'. dmi_walk n len data (m, d) = Some (m', d') \<and> same_shape m m' \<and> dmi_inv d'"
proof (induction n arbitrary: data m d)
  case 0
  then show ?case by simp
next
  case (Suc n)
  show ?case
  proof (cases "data + 4 \<le> len")
    case True
    then have r: "rd m (int (data + 1)) = Some (m ! (data + 1))" using Suc.prems by (intro rd_nat) simp
    obtain e where e: "find_end m len (data + unat (m ! (data + 1))) = Some e"
      "data + unat (m ! (data + 1)) \<le> e" "e + 1 < len \<longrightarrow> m ! e = 0 \<and> m ! (e + 1) = 0"
      using find_end_safe [of len m] Suc.prems by blast
    have "\<exists>m1 d1. (if e + 2 \<le> len then dmi_decode data (m, d) else Some (m, d)) = Some (m1, d1) \<and>
      same_shape m m1 \<and> dmi_inv d1"
    proof (cases "e + 2 \<le> len")
      case True
      then have "closed_at m (data + unat (m ! (data + 1))) e"
        using e Suc.prems by (simp add: closed_at_def)
      then show ?thesis
        using dmi_decode_safe \<open>data + 4 \<le> len\<close> Suc.prems True by simp
    next
      case False
      with Suc.prems show ?thesis by simp
    qed
    then obtain m1 d1 where s: "(if e + 2 \<le> len then dmi_decode data (m, d) else Some (m, d)) = Some (m1, d1)"
      "same_shape m m1" "dmi_inv d1" by blast
    have "dmi_walk (Suc n) len data (m, d) = dmi_walk n len (e + 2) (m1, d1)"
      using True r e(1) s(1) by simp
    moreover obtain m2 d2 where "dmi_walk n len (e + 2) (m1, d1) = Some (m2, d2)"
      "same_shape m1 m2" "dmi_inv d2"
      using Suc.IH [of m1 d1 "e + 2"] s(2,3) Suc.prems by (auto simp: same_shape_def)
    ultimately show ?thesis using same_shape_trans [OF s(2)] by auto
  next
    case False
    with Suc.prems show ?thesis by simp
  qed
qed

section \<open>The interface of a memory reader\<close>

text \<open>
  What the table reader relies on: a chunk has the length asked for, and each chunk is one
  heap block that \<open>rel\<close> gives back (\<open>owed\<close> counts them).
\<close>

locale devmem =
  fixes chunk :: "nat \<Rightarrow> nat \<Rightarrow> 'w \<Rightarrow> bytes option \<times> 'w"
    and rel :: "'w \<Rightarrow> 'w"
    and owed :: "'w \<Rightarrow> nat"
  assumes chunk_length: "chunk base len w = (Some m, w') \<Longrightarrow> length m = len"
    and chunk_owed: "owed (snd (chunk base len w)) =
      (if fst (chunk base len w) = None then owed w else owed w + 1)"
    and rel_owed: "owed (rel w) = owed w - 1"
begin

lemma chunk_cases:
  obtains w' where "chunk base len w = (None, w')" "owed w' = owed w"
  | m w' where "chunk base len w = (Some m, w')" "length m = len" "owed (rel w') = owed w"
proof (cases "chunk base len w")
  case (Pair r w')
  then show ?thesis
    using that chunk_owed [of base len w] rel_owed [of w'] chunk_length by (cases r) force+
qed

lemma table_safe:
  assumes "dmi_inv d"
  shows "\<exists>d' w'. dmi_table chunk rel base len num (d, w) = Some (d', w') \<and> dmi_inv d' \<and> owed w' = owed w"
proof (rule chunk_cases [of base len w])
  fix w' assume "chunk base len w = (None, w')" and "owed w' = owed w"
  with assms show ?thesis by (simp add: dmi_table_def)
next
  fix m w' assume c: "chunk base len w = (Some m, w')" "length m = len" "owed (rel w') = owed w"
  obtain m' d' where "dmi_walk num len 0 (m, d) = Some (m', d')" "dmi_inv d'"
    using dmi_walk_safe [OF c(2) assms] by blast
  with c show ?thesis by (simp add: dmi_table_def)
qed

end

lemma sum_bytes_defined: "\<exists>t. (p + len \<le> length m \<longrightarrow> sum_bytes m p len s = Some t)"
proof (induction len arbitrary: p s)
  case 0
  then show ?case by simp
next
  case (Suc len)
  obtain t where "p + 1 + len \<le> length m \<longrightarrow> sum_bytes m (p + 1) len (s + m ! p) = Some t"
    using Suc.IH by blast
  then show ?case by (auto simp: cmem intro!: exI [of _ t])
qed

lemma sum_bytes_undefined: "length m < p + len \<Longrightarrow> p \<le> length m \<Longrightarrow> sum_bytes m p len s = None"
proof (induction len arbitrary: p s)
  case 0
  then show ?case by simp
next
  case (Suc len)
  show ?case
  proof (cases "p < length m")
    case True
    with Suc show ?thesis by (simp add: cmem)
  next
    case False
    then show ?thesis by (simp add: cmem)
  qed
qed

lemma checksum_defined: "p + len \<le> length m \<Longrightarrow> \<exists>c. checksum m p len = Some c"
  using sum_bytes_defined [of p len m 0] by (auto simp: checksum_def)

lemma checksum_undefined: "length m < p + len \<Longrightarrow> p \<le> length m \<Longrightarrow> checksum m p len = None"
  by (simp add: checksum_def sum_bytes_undefined)

lemma WORD_defined: "p + 2 \<le> length m \<Longrightarrow> \<exists>x. WORD m p = Some x"
proof -
  assume "p + 2 \<le> length m"
  then have "p < length m" "p + 1 < length m" by simp_all
  then have "rd m (int p) = Some (m ! p)" "rd m (int (p + 1)) = Some (m ! (p + 1))"
    by (blast intro: rd_nat)+
  then show ?thesis by (simp add: WORD_def)
qed

lemma DWORD_defined: "p + 4 \<le> length m \<Longrightarrow> \<exists>x. DWORD m p = Some x"
  using WORD_defined [of p m] WORD_defined [of "p + 2" m] by (auto simp: DWORD_def)

text \<open>The condition on an entry point: its length byte stays inside the 64 KiB that were read.\<close>

definition anchor_fits :: "bytes \<Rightarrow> nat \<Rightarrow> bool" where
  "anchor_fits buf p \<longleftrightarrow> p + unat (buf ! (p + 5)) \<le> length buf"

context devmem
begin

lemma smbios_safe:
  assumes "dmi_inv d" and "p + 32 \<le> length buf" and "anchor_fits buf p"
  shows "\<exists>ok d' w'. smbios_decode chunk rel buf p (d, w) = Some (ok, d', w') \<and> dmi_inv d' \<and> owed w' = owed w"
proof -
  have r: "rd buf (int (p + 5)) = Some (buf ! (p + 5))" using assms(2) by (intro rd_nat) simp
  obtain c1 where c1: "checksum buf p (unat (buf ! (p + 5))) = Some c1"
    using checksum_defined [of p "unat (buf ! (p + 5))" buf] assms(3) by (auto simp: anchor_fits_def)
  obtain c2 where c2: "mem_eq buf (p + 0x10) ''_DMI_'' = Some c2" using assms(2) by (simp add: mem_eq_def)
  obtain c3 where c3: "checksum buf (p + 0x10) 0x0F = Some c3"
    using checksum_defined [of "p + 0x10" "0x0F" buf] assms(2) by auto
  obtain base len num where w: "DWORD buf (p + 0x18) = Some base" "WORD buf (p + 0x16) = Some len"
    "WORD buf (p + 0x1C) = Some num"
    using DWORD_defined [of "p + 0x18" buf] WORD_defined [of "p + 0x16" buf]
      WORD_defined [of "p + 0x1C" buf] assms(2) by auto
  obtain d' w' where "dmi_table chunk rel base len num (d, w) = Some (d', w')" "dmi_inv d'" "owed w' = owed w"
    using table_safe [OF assms(1)] by blast
  with r c1 c2 c3 w assms(1) show ?thesis by (auto simp: smbios_decode_def)
qed

lemma scan_safe:
  "dmi_inv d \<Longrightarrow> length buf = 0x10000 \<Longrightarrow>
   \<forall>p. 16 dvd p \<and> fp \<le> p \<and> p \<le> 0xFFE0 \<and> mem_eq buf p ''_SM_'' = Some True \<longrightarrow> anchor_fits buf p \<Longrightarrow>
   16 dvd fp \<Longrightarrow>
   \<exists>n' d' w'. scan_anchors chunk rel buf fp (n, d, w) = Some (n', d', w') \<and> dmi_inv d' \<and> owed w' = owed w"
proof (induction "0x10000 - fp" arbitrary: fp n d w rule: less_induct)
  case less
  show ?case
  proof (cases "fp \<le> 0xFFF0")
    case True
    obtain c where e: "mem_eq buf fp ''_SM_'' = Some c" using True less.prems(2) by (simp add: mem_eq_def)
    show ?thesis
    proof (cases "c \<and> fp \<le> 0xFFE0")
      case hit: True
      then have "anchor_fits buf fp" using less.prems(3,4) e by auto
      then obtain ok d1 w1 where s: "smbios_decode chunk rel buf fp (d, w) = Some (ok, d1, w1)"
        "dmi_inv d1" "owed w1 = owed w"
        using smbios_safe [OF less.prems(1), of fp buf w] hit less.prems(2) by auto
      have "scan_anchors chunk rel buf fp (n, d, w) =
        scan_anchors chunk rel buf (fp + 32) (if ok then n + 1 else n, d1, w1)"
        using True hit e s(1) by (subst scan_anchors.simps) (simp add: add.commute)
      moreover have "16 dvd fp + 32" using less.prems(4) by (simp add: dvd_add_left_iff)
      ultimately show ?thesis
        using less.hyps [of "fp + 32" d1 "if ok then n + 1 else n" w1] s less.prems True by auto
    next
      case miss: False
      have "scan_anchors chunk rel buf fp (n, d, w) = scan_anchors chunk rel buf (fp + 16) (n, d, w)"
        using True miss e by (subst scan_anchors.simps) auto
      moreover have "16 dvd fp + 16" using less.prems(4) by (simp add: dvd_add_left_iff)
      ultimately show ?thesis
        using less.hyps [of "fp + 16" d n w] less.prems True by auto
    qed
  next
    case False
    with less.prems show ?thesis by (subst scan_anchors.simps) simp
  qed
qed

text \<open>The whole decoder returns, keeps the fields terminated, and gives every block back.\<close>

lemma decode_safe:
  assumes "dmi_inv d" and "chunk 0xF0000 0x10000 w = (Some buf, w1)"
    and "\<forall>p. 16 dvd p \<and> p \<le> 0xFFE0 \<and> mem_eq buf p ''_SM_'' = Some True \<longrightarrow> anchor_fits buf p"
  shows "\<exists>d' w'. do_dmi_decode chunk rel (d, w) = Some (Returns (d', w')) \<and> dmi_inv d' \<and> owed w' = owed w"
proof -
  have l: "length buf = 0x10000" by (rule chunk_length [OF assms(2)])
  have o: "owed w1 = owed w + 1" using chunk_owed [where base = "0xF0000" and len = "0x10000" and w = w] assms(2) by simp
  obtain n' d' w' where "scan_anchors chunk rel buf 0 (0, d, w1) = Some (n', d', w')"
    "dmi_inv d'" "owed w' = owed w1"
    using scan_safe [OF assms(1) l, where fp = 0 and n = 0 and w = w1] assms(3) by auto
  then show ?thesis using assms(2) o rel_owed [of w'] by (simp add: do_dmi_decode_def)
qed

end

interpretation bios: devmem mem_chunk release heap
proof
  show "length m = len" if "mem_chunk base len w = (Some m, w')" for base len w m w'
    using mem_chunk_data [OF that] by simp
qed (simp_all add: mem_chunk_heap release_def)

end
