(* ===== verification/Kernel.thy ===== *)
theory Kernel
  imports Log
begin

text \<open>
  What \<open>breakin.c\<close> uses of the operating system to run commands: child processes with their
  exit status, \<open>waitpid\<close> with \<open>WNOHANG\<close>, the streams over the read ends of pipes, and
  \<open>fork_cmd\<close>, which starts a command with its standard output in a pipe. The answers of the
  system calls are an input of \<open>fork_cmd\<close>. Using a stream that has been closed is undefined.
\<close>

section \<open>Processes and streams\<close>

text \<open>A child process is alive, or ended and not yet waited for: by \<open>exit\<close> with a status, or by
  a signal.\<close>

datatype child = Alive | Exited "8 word" | Killed

record stream =
  content :: string
  is_open :: bool

record kernel =
  children :: "(int \<times> child) list"
  streams :: "stream list"

datatype wait_result = Wait_Zero | Wait_Error | Wait_Pid int child

text \<open>\<open>waitpid(p, &status, WNOHANG)\<close>: \<open>p > 0\<close> asks for that child, \<open>- 1\<close> for any, and \<open>0\<close> for
  any of the process group (the tests do not leave it). The first ended child in the list is
  the one the kernel reports.\<close>

definition asked :: "int \<Rightarrow> int \<times> child \<Rightarrow> bool" where
  "asked p c \<longleftrightarrow> p \<le> 0 \<or> fst c = p"

definition ended :: "int \<times> child \<Rightarrow> bool" where
  "ended c \<longleftrightarrow> snd c \<noteq> Alive"

definition waitpid :: "int \<Rightarrow> kernel \<Rightarrow> wait_result \<times> kernel" where
  "waitpid p k =
     (let cs = filter (asked p) (children k) in
      if cs = [] then (Wait_Error, k)
      else case find ended cs of
          None \<Rightarrow> (Wait_Zero, k)
        | Some c \<Rightarrow> (Wait_Pid (fst c) (snd c), k\<lparr>children := remove1 c (children k)\<rparr>))"

text \<open>All the lines a loop over \<open>fgets\<close> finds in a stream now; the stream is non-blocking, so the
  loop ends when nothing is left.\<close>

definition drain :: "nat \<Rightarrow> kernel \<Rightarrow> (string list \<times> kernel) option" where
  "drain f k = do {
     s \<leftarrow> rd (streams k) (int f);
     if is_open s
     then Some (fgets_all BUFSIZ (content s), k\<lparr>streams := (streams k)[f := s\<lparr>content := []\<rparr>]\<rparr>)
     else None
   }"

definition fclose :: "nat \<Rightarrow> kernel \<Rightarrow> kernel option" where
  "fclose f k = do {
     s \<leftarrow> rd (streams k) (int f);
     if is_open s then Some (k\<lparr>streams := (streams k)[f := s\<lparr>is_open := False\<rparr>]\<rparr>) else None
   }"

section \<open>fork_cmd\<close>

text \<open>The answers of one call. \<open>fork_ret\<close> is \<open>- 1\<close> when \<open>fork\<close> fails, the process id of the
  child in the parent, and \<open>0\<close> in a child whose \<open>execve\<close> failed: such a child goes on in the code
  of the parent, without children of its own, while it shares the pipes with the parent (what each of
  them reads is lost for the other). (A child whose \<open>execve\<close> succeeds is the command.)\<close>

record fork_env =
  pipe_ok :: bool
  fork_ret :: int
  getfl_ok :: bool
  setfl_ok :: bool
  fdopen_ok :: bool
  errno :: int
  errtext :: string

text \<open>The result: the process id stored through \<open>returnpid\<close>, if it is stored, and the stream. A
  failed \<open>pipe\<close> leaves the two descriptors uninitialised.\<close>

definition fork_cmd ::
  "fork_env \<Rightarrow> string option \<Rightarrow> string \<Rightarrow> log_state \<times> kernel \<Rightarrow>
   (int option \<times> nat option \<times> log_state \<times> kernel) option"
where
  "fork_cmd e label cmd st =
     (let (w, k) = st;
          w = (case label of None \<Rightarrow> w | Some l \<Rightarrow> log_message l w) in
      if \<not> pipe_ok e then None
      else
        let k = (if fork_ret e > 0 then k\<lparr>children := children k @ [(fork_ret e, Alive)]\<rparr>
                 else if fork_ret e = 0 then k\<lparr>children := []\<rparr> else k);
            w = (if getfl_ok e then w
                 else wprintw 0 (''Error getting ! '' @ fmt_d (errno e) @ '' '' @ errtext e @ [NL]) w)
        in if \<not> setfl_ok e then Some (None, None, w, k)
           else if fdopen_ok e
           then Some (Some (fork_ret e), Some (length (streams k)), w,
                      k\<lparr>streams := streams k @ [\<lparr>content = [], is_open = True\<rparr>]\<rparr>)
           else Some (Some (fork_ret e), None,
                      wprintw 0 (''Error '' @ errtext e @ [NL]) w, k))"

section \<open>Lemmas\<close>

lemma waitpid_streams [simp]: "streams (snd (waitpid p k)) = streams k"
  by (auto simp: waitpid_def Let_def split: option.splits)

lemma waitpid_children: "set (children (snd (waitpid p k))) \<subseteq> set (children k)"
  by (auto simp: waitpid_def Let_def split: option.splits
      dest: set_remove1_subset [THEN subsetD])

lemma waitpid_pid:
  assumes "waitpid p k = (Wait_Pid q c, k')"
  shows "(q, c) \<in> set (children k) \<and> c \<noteq> Alive \<and> (p \<le> 0 \<or> q = p) \<and>
    k' = k\<lparr>children := remove1 (q, c) (children k)\<rparr>"
proof -
  from assms obtain x where x: "find ended (filter (asked p) (children k)) = Some x" "x = (q, c)"
    "k' = k\<lparr>children := remove1 x (children k)\<rparr>"
    by (auto simp: waitpid_def Let_def split: if_splits option.splits)
  from x(1) have "x \<in> set (filter (asked p) (children k)) \<and> ended x"
    unfolding find_Some_iff by (metis nth_mem)
  with x show ?thesis by (auto simp: asked_def ended_def)
qed

text \<open>With process ids that are all different, waiting for a child finds that child.\<close>

lemma filter_unique:
  "distinct (map fst cs) \<Longrightarrow> (p, c) \<in> set cs \<Longrightarrow> filter (\<lambda>x. fst x = p) cs = [(p, c)]"
proof (induction cs)
  case (Cons x cs)
  show ?case
  proof (cases "x = (p, c)")
    case True
    then have "filter (\<lambda>y. fst y = p) cs = []" using Cons.prems(1) by (auto simp: filter_empty_conv image_iff)
    with True show ?thesis by simp
  next
    case False
    then have "(p, c) \<in> set cs" using Cons.prems(2) by simp
    then have "fst x \<noteq> p" using Cons.prems(1) by (auto simp: image_iff)
    with Cons False show ?thesis by auto
  qed
qed simp

lemma distinct_map_remove1: "distinct (map g xs) \<Longrightarrow> distinct (map g (remove1 x xs))"
  by (induction xs) (auto dest: set_remove1_subset [THEN subsetD])

lemma waitpid_own:
  assumes "distinct (map fst (children k))" and "(p, c) \<in> set (children k)" and "0 < p"
  shows "waitpid p k = (if c = Alive then (Wait_Zero, k)
    else (Wait_Pid p c, k\<lparr>children := remove1 (p, c) (children k)\<rparr>))"
proof -
  have "filter (asked p) (children k) = [(p, c)]"
    using filter_unique [OF assms(1,2)] assms(3) by (simp add: asked_def [abs_def])
  then show ?thesis by (simp add: waitpid_def ended_def)
qed

lemma waitpid_none: "filter (asked p) (children k) = [] \<Longrightarrow> waitpid p k = (Wait_Error, k)"
  by (simp add: waitpid_def)

lemma drain_open:
  "f < length (streams k) \<Longrightarrow> is_open (streams k ! f) \<Longrightarrow>
   drain f k = Some (fgets_all BUFSIZ (content (streams k ! f)),
     k\<lparr>streams := (streams k)[f := (streams k ! f)\<lparr>content := []\<rparr>]\<rparr>)"
  by (simp add: drain_def cmem)

lemma fclose_open:
  "f < length (streams k) \<Longrightarrow> is_open (streams k ! f) \<Longrightarrow>
   fclose f k = Some (k\<lparr>streams := (streams k)[f := (streams k ! f)\<lparr>is_open := False\<rparr>]\<rparr>)"
  by (simp add: fclose_def cmem)

end
