(* ===== verification/Burnin.thy ===== *)
theory Burnin
  imports Kernel
begin

text \<open>
  The core of \<open>breakin.c\<close>: the table of burn-in tests, its discovery in
  \<open>find_burnin_tests\<close>, the start of the tests in \<open>run_burnin_tests\<close>, and the poll of one test in
  the main loop, which reads the output of the test, waits for it and counts the outcome.
\<close>

section \<open>State\<close>

definition MAX_BURNIN_SCRIPTS :: nat where
  "MAX_BURNIN_SCRIPTS = 64"

definition BURNIN_SCRIPT_PATH :: string where
  "BURNIN_SCRIPT_PATH = ''/usr/local/etc/breakin/tests''"

record burnin_scripts_t =
  name :: string
  path :: string
  last_msg :: string
  last_result :: int
  running :: int
  pid :: int
  fp_stdout :: "nat option"
  pass_count :: "64 word"
  fail_count :: "64 word"

record machine =
  breakin_disable :: mem
  burnin_scripts :: "burnin_scripts_t list"
  burnin_script_count :: nat
  logs :: log_state
  kern :: kernel

definition no_script :: burnin_scripts_t where
  "no_script = \<lparr>name = [], path = [], last_msg = [], last_result = 0, running = 0, pid = 0,
     fp_stdout = None, pass_count = 0, fail_count = 0\<rparr>"

definition no_scripts :: "burnin_scripts_t list" where
  "no_scripts = replicate MAX_BURNIN_SCRIPTS no_script"

section \<open>find_burnin_tests\<close>

lemma cstr_bound: "cstr m p = Some s \<Longrightarrow> p + length s < length m"
  by (erule cstr_split) simp

lemma strtok_r_progress:
  "strtok_r d m p = Some (m', Some t, p') \<Longrightarrow> p < p' \<and> p' \<le> length m \<and> length m' = length m"
proof -
  assume a: "strtok_r d m p = Some (m', Some t, p')"
  then obtain s where s: "cstr m p = Some s" by (auto simp: strtok_r_def split: bind_splits)
  let ?k = "length (takeWhile (\<lambda>c. c = d) s)"
  have k: "?k \<le> length s" by (rule length_takeWhile_le)
  from a s have "drop ?k s \<noteq> []" by (auto simp: strtok_r_def Let_def split: if_splits)
  then have "?k < length s" by simp
  then show ?thesis
    using a s cstr_bound [OF s]
    by (auto simp: strtok_r_def Let_def dest: index_of_bound split: if_splits option.splits)
qed

text \<open>
  \<open>for (str = breakin_disable; ; str = NULL)\<close>: the tokens from the position \<open>p\<close> on, up to the
  first that equals the entry \<open>e\<close>. \<open>strtok_r\<close> writes into the array.
\<close>

function disable_loop :: "string \<Rightarrow> mem \<Rightarrow> nat \<Rightarrow> (mem \<times> bool) option" where
  "disable_loop e m p = do {
     (m', token, p') \<leftarrow> strtok_r (CHR '','') m p;
     (case token of
        None \<Rightarrow> Some (m', False)
      | Some t \<Rightarrow> do { s \<leftarrow> cstr m' t; if s = e then Some (m', True) else disable_loop e m' p' })
   }"
  by pat_completeness auto
termination
  by (relation "measure (\<lambda>(e, m, p). length m - p)") (auto dest: strtok_r_progress)

declare disable_loop.simps [simp del]

text \<open>The new entry; the \<open>memset\<close> of the last message has its arguments swapped and sets nothing.\<close>

definition new_script :: "string \<Rightarrow> burnin_scripts_t \<Rightarrow> burnin_scripts_t" where
  "new_script e s = s\<lparr>name := strncpy_s BUFSIZ e,
     path := strncpy_s BUFSIZ (snprintf_s BUFSIZ (BURNIN_SCRIPT_PATH @ ''/'' @ e)),
     pass_count := 0, fail_count := 0, running := 0, last_result := 0\<rparr>"

text \<open>The loop over the directory entries; \<open>n\<close> is \<open>burnin_count\<close>, which nothing compares with the
  size of the table.\<close>

fun find_loop ::
  "string list \<Rightarrow> nat \<Rightarrow> mem \<times> burnin_scripts_t list \<Rightarrow> (nat \<times> mem \<times> burnin_scripts_t list) option"
where
  "find_loop [] n (m, ss) = Some (n, m, ss)"
| "find_loop (e # es) n (m, ss) = do {
     (m', disable_test) \<leftarrow> disable_loop e m 0;
     if disable_test then find_loop es n (m', ss)
     else if take 1 e \<noteq> ''.'' then do {
       s \<leftarrow> rd ss (int n);
       find_loop es (n + 1) (m', ss[n := new_script e s])
     } else find_loop es n (m', ss)
   }"

text \<open>\<open>None\<close> stands for a directory that cannot be opened.\<close>

definition find_burnin_tests :: "string list option \<Rightarrow> machine \<Rightarrow> machine option" where
  "find_burnin_tests dir w =
     (case dir of
        None \<Rightarrow> Some w
      | Some es \<Rightarrow> do {
          (n, m, ss) \<leftarrow> find_loop es 0 (breakin_disable w, burnin_scripts w);
          Some (w\<lparr>breakin_disable := m, burnin_scripts := ss, burnin_script_count := n\<rparr>)
        })"

section \<open>run_burnin_tests\<close>

text \<open>One iteration; a test that runs or is disabled is left alone.\<close>

definition launch :: "fork_env \<Rightarrow> nat \<Rightarrow> machine \<Rightarrow> machine option" where
  "launch e i w = do {
     s \<leftarrow> rd (burnin_scripts w) (int i);
     if running s = 0 then do {
       (rp, fp, l, k) \<leftarrow> fork_cmd e None (path s) (logs w, kern w);
       let s = s\<lparr>pid := (case rp of None \<Rightarrow> pid s | Some p \<Rightarrow> p), fp_stdout := fp, running := 1\<rparr>;
       Some (w\<lparr>burnin_scripts := (burnin_scripts w)[i := s], logs := l, kern := k\<rparr>)
     } else Some w
   }"

text \<open>The loop from the index \<open>i\<close> on; \<open>es\<close> gives the answers of the system for each index.\<close>

function run_from :: "(nat \<Rightarrow> fork_env) \<Rightarrow> nat \<Rightarrow> machine \<Rightarrow> machine option" where
  "run_from es i w =
     (if i < burnin_script_count w then do { w' \<leftarrow> launch (es i) i w; run_from es (i + 1) w' } else Some w)"
  by pat_completeness auto
termination
  by (relation "measure (\<lambda>(es, i, w). burnin_script_count w - i)")
    (auto simp: launch_def Let_def split: bind_splits if_splits)

declare run_from.simps [simp del]

definition run_burnin_tests :: "(nat \<Rightarrow> fork_env) \<Rightarrow> machine \<Rightarrow> machine option" where
  "run_burnin_tests es w = run_from es 0 w"

section \<open>The poll of one test\<close>

text \<open>One line of output.\<close>

definition output_line :: "string \<Rightarrow> burnin_scripts_t \<times> log_state \<Rightarrow> burnin_scripts_t \<times> log_state" where
  "output_line buf st = (case st of (s, l) \<Rightarrow>
     if starts ''MSG: '' buf \<and> length buf > 5
     then (s\<lparr>last_msg := strncpy_s BUFSIZ (drop 5 buf)\<rparr>, l)
     else (s\<lparr>last_msg := strncpy_s BUFSIZ buf\<rparr>,
           log_error (snprintf_s BUFSIZ (name s @ '' - '' @ buf)) l))"

text \<open>The outcome of an ended test.\<close>

definition reap ::
  "child \<Rightarrow> burnin_scripts_t \<Rightarrow> log_state \<Rightarrow> (burnin_scripts_t \<times> log_state) option"
where
  "reap c s l =
     (case c of
        Exited st \<Rightarrow>
          if st = 255 then do {
            msg \<leftarrow> sprintf_s BUFSIZ (''Disabling burnin test '' @ [CHR 0x27] @ name s @ [CHR 0x27]);
            Some (s\<lparr>running := - 1, last_result := 0, pass_count := pass_count s + 1\<rparr>, log_message msg l)
          }
          else if st = 0 then Some (s\<lparr>running := 0, last_result := 0, pass_count := pass_count s + 1\<rparr>, l)
          else Some (s\<lparr>running := 0, last_result := 1, fail_count := fail_count s + 1\<rparr>, l)
      | _ \<Rightarrow> do {
            msg \<leftarrow> sprintf_s BUFSIZ (''Execution failed on '' @ [CHR 0x27] @ name s @ [CHR 0x27] @ '', disabling.'');
            Some (s\<lparr>running := - 1\<rparr>, log_message msg l)
          })"

text \<open>After the output has been read: \<open>waitpid\<close>, and the outcome. A failing \<open>waitpid\<close> counts as a
  pass.\<close>

definition put_script :: "nat \<Rightarrow> burnin_scripts_t \<Rightarrow> log_state \<Rightarrow> kernel \<Rightarrow> machine \<Rightarrow> machine" where
  "put_script i s l k w = w\<lparr>burnin_scripts := (burnin_scripts w)[i := s], logs := l, kern := k\<rparr>"

definition settle ::
  "nat \<Rightarrow> nat \<Rightarrow> burnin_scripts_t \<Rightarrow> log_state \<Rightarrow> kernel \<Rightarrow> machine \<Rightarrow> machine option"
where
  "settle i f s l k w =
     (case waitpid (pid s) k of
        (Wait_Zero, k) \<Rightarrow> Some (put_script i s l k w)
      | (Wait_Error, k) \<Rightarrow>
          Some (put_script i (s\<lparr>running := 0, last_result := 0, pass_count := pass_count s + 1\<rparr>) l k w)
      | (Wait_Pid q c, k) \<Rightarrow> do {
          k \<leftarrow> fclose f k;
          (s, l) \<leftarrow> reap c s l;
          Some (put_script i s l k w)
        })"

definition poll :: "nat \<Rightarrow> machine \<Rightarrow> machine option" where
  "poll i w = do {
     s \<leftarrow> rd (burnin_scripts w) (int i);
     if running s > 0 then
       (case fp_stdout s of
          None \<Rightarrow> do {
            msg \<leftarrow> sprintf_s BUFSIZ (''Error reading stdout from: '' @ name s @ [NL]);
            Some (w\<lparr>logs := log_message msg (logs w)\<rparr>)
          }
        | Some f \<Rightarrow> do {
            (ls, k) \<leftarrow> drain f (kern w);
            (s, l) \<leftarrow> each_line output_line ls (s, logs w);
            settle i f s l k w
          })
     else Some w
   }"

lemma put_script_count [simp]: "burnin_script_count (put_script i s l k w) = burnin_script_count w"
  by (simp add: put_script_def)

lemma settle_count: "settle i f s l k w = Some w' \<Longrightarrow> burnin_script_count w' = burnin_script_count w"
  by (auto simp: settle_def Let_def split: bind_splits prod.splits wait_result.splits)

lemma poll_count: "poll i w = Some w' \<Longrightarrow> burnin_script_count w' = burnin_script_count w"
  by (auto simp: poll_def split: bind_splits if_splits option.splits dest: settle_count)

function poll_from :: "nat \<Rightarrow> machine \<Rightarrow> machine option" where
  "poll_from i w =
     (if i < burnin_script_count w then do { w' \<leftarrow> poll i w; poll_from (i + 1) w' } else Some w)"
  by pat_completeness auto
termination
  by (relation "measure (\<lambda>(i, w). burnin_script_count w - i)") (auto dest: poll_count)

declare poll_from.simps [simp del]

text \<open>One round of the main loop (the statistics are updated by another thread).\<close>

definition main_round :: "(nat \<Rightarrow> fork_env) \<Rightarrow> machine \<Rightarrow> machine option" where
  "main_round es w = do { w' \<leftarrow> run_burnin_tests es w; poll_from 0 w' }"

end
