(* ===== verification/Report.thy ===== *)
theory Report
  imports Devices Dmi Burnin
begin

text \<open>
  What \<open>breakin.c\<close> reports: the statistics file of \<open>dump_stats\<close>, which the tests read as a shell
  script; the header and the periodic entries of the device log (\<open>header_logdev\<close>, \<open>start_logdev\<close>,
  \<open>start_serial\<close>, \<open>update_logdev_write\<close>), and what \<open>do_update\<close> sends to the server. The answers of
  \<open>open\<close>, \<open>fopen\<close> and \<open>fdopen\<close> are arguments.
\<close>

section \<open>The state of the program\<close>

record bench_stream_t =
  bs_copy :: f64
  bs_scale :: f64
  bs_add :: f64
  bs_triad :: f64

record benchmarks_t =
  completed :: bool
  bstream :: bench_stream_t

record settings =
  update_url :: string
  update_interval :: int
  enable_updates :: bool
  serial_baud :: int
  serial_dev :: string
  enable_benchmarks :: bool
  enabled_ssh :: bool

record breakin =
  sens :: sensors
  dmi_data :: mem
  benchmarks :: benchmarks_t
  mach :: machine
  opts :: settings
  hardware_finished :: bool
  serial_speed :: int
  stat_file :: "string option"

abbreviation blog :: "breakin \<Rightarrow> log_state" where
  "blog w \<equiv> logs (mach w)"

definition set_log :: "log_state \<Rightarrow> breakin \<Rightarrow> breakin" where
  "set_log l w = w\<lparr>mach := (mach w)\<lparr>logs := l\<rparr>\<rparr>"

text \<open>The output of a loop whose body prints for \<open>i\<close>, from \<open>i\<close> on and \<open>k\<close> times.\<close>

fun out_loop :: "(nat \<Rightarrow> 'a list option) \<Rightarrow> nat \<Rightarrow> nat \<Rightarrow> 'a list option" where
  "out_loop f i 0 = Some []"
| "out_loop f i (Suc k) = do { x \<leftarrow> f i; y \<leftarrow> out_loop f (i + 1) k; Some (x @ y) }"

lemma out_loop_total:
  "(\<And>j. i \<le> j \<Longrightarrow> j < i + k \<Longrightarrow> \<exists>y. f j = Some y) \<Longrightarrow> \<exists>xs. out_loop f i k = Some xs"
proof (induction k arbitrary: i)
  case 0
  then show ?case by simp
next
  case (Suc k)
  obtain x where "f i = Some x" using Suc.prems [of i] by auto
  moreover obtain y where "out_loop f (i + 1) k = Some y" using Suc.IH [of "i + 1"] Suc.prems by auto
  ultimately show ?case by simp
qed

section \<open>dump_stats\<close>

text \<open>\<open>fprintf(fp, "KEY=\"value\"\n")\<close>\<close>

definition var_line :: "string \<times> string \<Rightarrow> string" where
  "var_line kv = fst kv @ CHR ''='' # DQ # snd kv @ DQ # [NL]"

definition cpu_vars :: "sensors \<Rightarrow> (string \<times> string) list option" where
  "cpu_vars s = do {
     u \<leftarrow> rd (cpu_usage s) 0;
     us \<leftarrow> out_loop (\<lambda>i. do {
         x \<leftarrow> rd (cpu_usage s) (int i);
         Some [(''CPU_'' @ fmt_d (int i - 1) @ ''_PERCENT'', fmt_f 0 (percent x))]
       }) 1 (nat (cpu_qty s - 1));
     Some ([(''CPU_QTY'', fmt_d (qty (cpu_info s))), (''CPU_SPEED'', fmt_f 0 (speed (cpu_info s))),
            (''CPU_MODEL'', model (cpu_info s)), (''CPU_PERCENT'', fmt_f 0 (percent u))] @ us)
   }"

definition mem_vars :: "mem_info_t \<Rightarrow> (string \<times> string) list" where
  "mem_vars m =
     [(''MEM_TOTAL'', fmt_d (mem_total m)), (''MEM_FREE'', fmt_d (mem_free m)),
      (''MEM_PERCENT'', fmt_f 0 (mem_percent m)),
      (''SWAP_TOTAL'', fmt_d (swap_total m)), (''SWAP_FREE'', fmt_d (swap_free m)),
      (''SWAP_PERCENT'', fmt_f 0 (swap_percent m))]"

definition temp_vars :: "sensors \<Rightarrow> (string \<times> string) list option" where
  "temp_vars s = do {
     ts \<leftarrow> out_loop (\<lambda>i. do {
         x \<leftarrow> rd (temp_data s) (int i);
         Some [(''TEMP_'' @ fmt_d (int i), fmt_f 0 (temp_value x))]
       }) 0 (temp_qty s);
     Some ((''TEMP_QTY'', fmt_d (int (temp_qty s))) # ts)
   }"

definition disk_vars :: "sensors \<Rightarrow> (string \<times> string) list option" where
  "disk_vars s = do {
     ds \<leftarrow> out_loop (\<lambda>i. do {
         x \<leftarrow> rd (disk_info s) (int i);
         d \<leftarrow> cstr (device x) 0;
         Some [(''DISK_'' @ fmt_d (int i) @ ''_NAME'', d),
               (''DISK_'' @ fmt_d (int i) @ ''_SIZE'', fmt_f 6 (disk_size x)),
               (''DISK_'' @ fmt_d (int i) @ ''_PERFORMANCE'', fmt_f 6 (performance x))]
       }) 0 (disk_qty s);
     Some ((''DISK_QTY'', fmt_d (int (disk_qty s))) # ds)
   }"

definition nic_vars :: "sensors \<Rightarrow> (string \<times> string) list option" where
  "nic_vars s = do {
     ns \<leftarrow> out_loop (\<lambda>i. do {
         x \<leftarrow> rd (nic_data s) (int i);
         Some [(''NIC_'' @ fmt_d (int i) @ ''_NAME'', nic_name x),
               (''NIC_'' @ fmt_d (int i) @ ''_MAC'', macaddr x),
               (''NIC_'' @ fmt_d (int i) @ ''_IPADDR'', ipaddr x)]
       }) 0 (nic_qty s);
     Some ((''NIC_QTY'', fmt_d (int (nic_qty s))) # ns)
   }"

fun field_vars :: "mem \<Rightarrow> (string \<times> dmi_field) list \<Rightarrow> (string \<times> string) list option" where
  "field_vars d [] = Some []"
| "field_vars d ((k, f) # fs) = do { v \<leftarrow> get_field d f; kvs \<leftarrow> field_vars d fs; Some ((k, v) # kvs) }"

definition dmi_vars :: "mem \<Rightarrow> (string \<times> string) list option" where
  "dmi_vars d = field_vars d
     [(''BIOS_VENDOR'', bios_vendor), (''BIOS_VERSION'', bios_version), (''BIOS_DATE'', bios_date),
      (''SYS_VENDOR'', sys_vendor), (''SYS_PRODUCT'', sys_product), (''SYS_VERSION'', sys_version),
      (''SYS_SERIAL'', sys_serial), (''BOARD_VENDOR'', board_vendor), (''BOARD_PRODUCT'', board_product),
      (''BOARD_VERSION'', board_version), (''BOARD_SERIAL'', board_serial)]"

definition bench_vars :: "benchmarks_t \<Rightarrow> (string \<times> string) list" where
  "bench_vars b = (if completed b then
     [(''MEM_TRIAD'', fmt_f 6 (bs_triad (bstream b))), (''MEM_ADD'', fmt_f 6 (bs_add (bstream b))),
      (''MEM_COPY'', fmt_f 6 (bs_copy (bstream b))), (''MEM_SCALE'', fmt_f 6 (bs_scale (bstream b)))]
     else [])"

text \<open>\<open>total_failed\<close> is an \<open>int\<close>, the counts are \<open>unsigned long\<close> printed with \<open>%ld\<close>.\<close>

definition add_failed :: "int \<Rightarrow> 64 word \<Rightarrow> int" where
  "add_failed t n = to_i32 (uint (word_of_int t + n))"

definition burnin_vars :: "machine \<Rightarrow> (string \<times> string) list option" where
  "burnin_vars m = do {
     bs \<leftarrow> out_loop (\<lambda>i. do {
         x \<leftarrow> rd (burnin_scripts m) (int i);
         Some [(''BURNIN_'' @ fmt_d (int i) @ ''_NAME'', name x),
               (''BURNIN_'' @ fmt_d (int i) @ ''_LASTMSG'', last_msg x),
               (''BURNIN_'' @ fmt_d (int i) @ ''_RUNNING'', fmt_d (running x)),
               (''BURNIN_'' @ fmt_d (int i) @ ''_PASS_QTY'', fmt_d (sint (pass_count x))),
               (''BURNIN_'' @ fmt_d (int i) @ ''_FAIL_QTY'', fmt_d (sint (fail_count x)))]
       }) 0 (burnin_script_count m);
     Some ((''BURNIN_QTY'', fmt_d (int (burnin_script_count m))) # bs @
       [(''BURNIN_TOTAL_FAIL_QTY'', fmt_d (fold (\<lambda>s t. add_failed t (fail_count s))
          (take (burnin_script_count m) (burnin_scripts m)) 0))])
   }"

definition stat_vars :: "breakin \<Rightarrow> (string \<times> string) list option" where
  "stat_vars w = do {
     cpu \<leftarrow> cpu_vars (sens w);
     temps \<leftarrow> temp_vars (sens w);
     disks \<leftarrow> disk_vars (sens w);
     nics \<leftarrow> nic_vars (sens w);
     dmi \<leftarrow> dmi_vars (dmi_data w);
     burnin \<leftarrow> burnin_vars (mach w);
     Some (cpu @ mem_vars (mem_info (sens w)) @ temps @ disks @ nics @ dmi @ bench_vars (benchmarks w) @ burnin)
   }"

text \<open>The file is written under a temporary name and then renamed; if it cannot be opened the old
  one stays.\<close>

definition dump_stats :: "bool \<Rightarrow> breakin \<Rightarrow> breakin option" where
  "dump_stats file_ok w =
     (if \<not> file_ok then Some w
      else do {
        kvs \<leftarrow> stat_vars w;
        Some (w\<lparr>stat_file := Some (concat (map var_line kvs))\<rparr>)
      })"

section \<open>The device log\<close>

text \<open>The lines about the hardware, which the details window shows too.\<close>

definition mem_text :: "mem_info_t \<Rightarrow> string option" where
  "mem_text m = do {
     d \<leftarrow> sub_i64 (mem_total m) (mem_free m);
     Some (''RAM  : '' @ fmt_f 0 (mem_percent m) @ ''% - '' @
       fmt_f 1 (fdiv (f64_of_int d) (f64_of_int 1024)) @ '' MB / '' @
       fmt_f 2 (fdiv (f64_of_int (mem_total m)) (f64_of_int 1024)) @ '' MB'')
   }"

definition triad_text :: "benchmarks_t \<Rightarrow> string" where
  "triad_text b = (if completed b then '' ('' @ fmt_f 2 (bs_triad (bstream b)) @ '' MB/s)'' else [])"

definition cpu_text :: "cpu_info_t \<Rightarrow> string" where
  "cpu_text c = ''CPU  : '' @ fmt_d (qty c) @ '' x '' @ model c @ '' ('' @ fmt_f 0 (speed c) @ '' MHz)'' @ [NL]"

definition disk_lines :: "sensors \<Rightarrow> string option" where
  "disk_lines s = do {
     t \<leftarrow> out_loop (\<lambda>i. do {
         x \<leftarrow> rd (disk_info s) (int i);
         d \<leftarrow> cstr (device x) 0;
         Some (''HDD  : '' @ d @ '':'' @ fmt_f 1 (disk_size x) @ ''GB '' @
           (if flt (Fin False 0 0) (performance x) then ''('' @ fmt_f 1 (performance x) @ '' MB/s) '' else []) @ [NL])
       }) 0 (disk_qty s);
     Some (t @ (if disk_qty s = 0 then ''HDD  : No hard disk drives found'' @ [NL] else []))
   }"

definition nic_lines :: "sensors \<Rightarrow> string option" where
  "nic_lines s = do {
     t \<leftarrow> out_loop (\<lambda>i. do {
         x \<leftarrow> rd (nic_data s) (int i);
         Some (''NIC  : '' @ nic_name x @ '' '' @ ipaddr x @ '' ('' @ macaddr x @ '')'' @ [NL])
       }) 0 (nic_qty s);
     Some (t @ (if nic_qty s = 0 then ''NIC  : No network cards found'' @ [NL] else []))
   }"

definition header_text :: "breakin \<Rightarrow> string option" where
  "header_text w = do {
     let rule = replicate 65 (CHR ''='') @ [NL];
     bv \<leftarrow> get_field (dmi_data w) board_vendor;
     bp \<leftarrow> get_field (dmi_data w) board_product;
     bi \<leftarrow> get_field (dmi_data w) bios_version;
     m \<leftarrow> mem_text (mem_info (sens w));
     ds \<leftarrow> disk_lines (sens w);
     ns \<leftarrow> nic_lines (sens w);
     Some (rule @ ''  New breakin test started'' @ [NL] @ rule @
       ''Mobo : '' @ bv @ '' - '' @ bp @ [NL] @ ''BIOS : '' @ bi @ [NL] @
       cpu_text (cpu_info (sens w)) @ m @ triad_text (benchmarks w) @ [NL] @ ds @ ns @ [NL])
   }"

text \<open>Writing to a null stream is undefined.\<close>

definition header_logdev :: "breakin \<Rightarrow> string option \<Rightarrow> string option" where
  "header_logdev w fp = do { f \<leftarrow> fp; t \<leftarrow> header_text w; Some (f @ t) }"

text \<open>The speed of the port; the other settings of the line are fixed.\<close>

definition port_speed :: "int \<Rightarrow> int" where
  "port_speed baud = (if baud = 115200 then 115200 else if baud = 57600 then 57600
     else if baud = 38400 then 38400 else if baud = 19200 then 19200 else 9600)"

text \<open>\<open>exit;\<close> after a failing \<open>fdopen\<close> is not a call and does nothing.\<close>

definition start_serial :: "bool \<Rightarrow> bool \<Rightarrow> breakin \<Rightarrow> breakin option" where
  "start_serial opened attached w =
     (if \<not> opened then do {
        buf \<leftarrow> sprintf_s BUFSIZ (''Error opening serial port '' @ serial_dev (opts w));
        Some (set_log ((log_error buf (blog w))\<lparr>serial_enabled := False\<rparr>) w)
      }
      else Some (set_log ((blog w)\<lparr>serial_file := (if attached then Some [] else None)\<rparr>)
        (w\<lparr>serial_speed := port_speed (serial_baud (opts w))\<rparr>)))"

definition start_logdev :: "bool \<Rightarrow> bool \<Rightarrow> bool \<Rightarrow> breakin \<Rightarrow> breakin option" where
  "start_logdev file_ok opened attached w =
     (let w = set_log ((blog w)\<lparr>logdev_file := (if file_ok then Some [] else None)\<rparr>) w in
      if \<not> file_ok then Some w
      else do {
        w \<leftarrow> (if serial_enabled (blog w)
             then start_serial opened attached (set_log (log_message ''Starting serial port logging'' (blog w)) w)
             else Some w);
        t \<leftarrow> header_logdev w (logdev_file (blog w));
        let w = set_log ((blog w)\<lparr>logdev_file := Some t\<rparr>) w;
        if serial_enabled (blog w) then do {
          t \<leftarrow> header_logdev w (serial_file (blog w));
          Some (set_log ((blog w)\<lparr>serial_file := Some t\<rparr>) w)
        } else Some w
      })"

definition temps_line :: "sensors \<Rightarrow> string option" where
  "temps_line s = do {
     t \<leftarrow> out_loop (\<lambda>i. do {
         x \<leftarrow> rd (temp_data s) (int i);
         Some (if flt (Fin False 0 0) (temp_value x) then fmt_f 1 (temp_value x) @ ''C  '' else [])
       }) 0 (temp_qty s);
     Some (t @ (if temp_qty s = 0 then ''Not supported'' else []) @ [NL])
   }"

definition test_line :: "string \<Rightarrow> burnin_scripts_t \<Rightarrow> string" where
  "test_line cur_time x = cur_time @ '' : test:'' @ name x @ ''  pass:'' @ fmt_d (sint (pass_count x)) @
     '' fail:'' @ fmt_d (sint (fail_count x)) @ '' lastmsg:'' @ last_msg x @ [NL]"

definition update_logdev_write :: "breakin \<Rightarrow> string option \<Rightarrow> string option option" where
  "update_logdev_write w fp =
     (case fp of
        None \<Rightarrow> Some None
      | Some f \<Rightarrow> do {
          let cur_time = running_time (blog w);
          ts \<leftarrow> temps_line (sens w);
          bs \<leftarrow> out_loop (\<lambda>i. do {
              x \<leftarrow> rd (burnin_scripts (mach w)) (int i);
              Some (test_line cur_time x)
            }) 0 (burnin_script_count (mach w));
          Some (Some (f @ cur_time @ '' : temps:'' @ ts @ bs))
        })"

text \<open>One round of the loop in \<open>update_logdev\<close>.\<close>

definition update_logdev :: "breakin \<Rightarrow> breakin option" where
  "update_logdev w = do {
     f \<leftarrow> update_logdev_write w (logdev_file (blog w));
     let w = set_log ((blog w)\<lparr>logdev_file := f\<rparr>) w;
     if serial_enabled (blog w) then do {
       f \<leftarrow> update_logdev_write w (serial_file (blog w));
       Some (set_log ((blog w)\<lparr>serial_file := f\<rparr>) w)
     } else Some w
   }"

section \<open>do_update\<close>

datatype form_part = File_Part string string | Data_Part string string

definition STAT_FILE :: string where "STAT_FILE = ''/var/run/breakin.dat''"
definition LOG_FILE :: string where "LOG_FILE = ''/var/log/breakin.log''"

text \<open>The parts of the form that \<open>upload_data\<close> posts to \<open>url\<close>; the transfer itself is curl's.\<close>

definition upload_form :: "string \<Rightarrow> int \<Rightarrow> string \<Rightarrow> string \<Rightarrow> log_state \<Rightarrow> form_part list" where
  "upload_form ident interval datafile logfile l =
     [File_Part ''data'' datafile, File_Part ''log'' logfile, Data_Part ''id'' ident,
      Data_Part ''time'' (fmt_d (run_secs l)), Data_Part ''interval'' (fmt_d interval)]"

text \<open>\<open>upload_handle_response\<close>: the reply is compared with \<open>OK\<close>, with no consequence; the size that is
  returned is a \<open>size_t\<close>.\<close>

definition upload_handle_response :: "mem \<Rightarrow> 64 word \<Rightarrow> 64 word \<Rightarrow> 64 word option" where
  "upload_handle_response m sz nmeb = do {
     c \<leftarrow> rd m 0;
     d \<leftarrow> (if c = CHR ''O'' then rd m 1 else Some c);
     Some (sz * nmeb)
   }"

text \<open>What the result of the transfer and the response code make of it (\<open>OK\<close> is 0).\<close>

definition upload_ok :: "int \<Rightarrow> int \<Rightarrow> bool" where
  "upload_ok res code \<longleftrightarrow> res = 0 \<and> 200 \<le> code \<and> code \<le> 299"

text \<open>The interface that names the machine: the first \<open>eth\<close> or \<open>ath\<close>.\<close>

fun find_id :: "sensors \<Rightarrow> nat \<Rightarrow> nat \<Rightarrow> string option option" where
  "find_id s i 0 = Some None"
| "find_id s i (Suc k) = do {
     x \<leftarrow> rd (nic_data s) (int i);
     if starts ''eth'' (nic_name x) \<or> starts ''ath'' (nic_name x) then Some (Some (macaddr_num x))
     else find_id s (i + 1) k
   }"

text \<open>One round of the loop: \<open>id\<close> and \<open>found\<close> are kept between the rounds. The result is the
  upload, if there is one.\<close>

definition do_update ::
  "breakin \<Rightarrow> string \<times> bool \<Rightarrow> ((string \<times> bool) \<times> (string \<times> form_part list) option) option"
where
  "do_update w st = do {
     r \<leftarrow> find_id (sens w) 0 (nic_qty (sens w));
     let (ident, found) = (case r of Some n \<Rightarrow> (n, True) | None \<Rightarrow> st);
     Some ((ident, found), if found
       then Some (update_url (opts w), upload_form ident (update_interval (opts w)) STAT_FILE LOG_FILE (blog w))
       else None)
   }"

end
