(* ===== verification/Screen.thy ===== *)
theory Screen
  imports Report
begin

text \<open>
  The drawing functions of \<open>breakin.c\<close>: \<open>draw_graph\<close>, \<open>draw_detail_window\<close> and
  \<open>draw_stat_window\<close>, the sizes computed in \<open>setup_screen\<close>, and the keys of \<open>handle_keypress\<close>. What
  curses is told is a list of calls per window; \<open>cols\<close> and \<open>lines\<close> are the size of the terminal.
\<close>

section \<open>Windows\<close>

text \<open>The character 0 of a line stands for the default line character.\<close>

datatype wcall =
    Move_print int int string
  | Print string
  | Hline int int char int
  | Vline int int char int
  | Pair_on nat
  | Pair_off nat
  | Bold_on
  | Bold_off
  | Erase

text \<open>A \<open>double\<close> converted to \<open>int\<close>.\<close>

definition f64_to_int :: "f64 \<Rightarrow> int option" where
  "f64_to_int x = do {
     i \<leftarrow> f64_trunc x;
     if - (2 ^ 31) \<le> i \<and> i < 2 ^ 31 then Some i else None
   }"

definition show_bar :: "int \<Rightarrow> f64 \<Rightarrow> int option" where
  "show_bar bar_width pct =
     f64_to_int (fmul pct (fdiv (f64_of_int bar_width) (f64_of_int 100)))"

definition draw_graph :: "int \<Rightarrow> int \<Rightarrow> string \<Rightarrow> f64 \<Rightarrow> wcall list option" where
  "draw_graph cols y lab pct =
     (let bar_width = cols - 21 in do {
        bar \<leftarrow> show_bar bar_width pct;
        Some [Move_print y 1 lab, Pair_on 2, Bold_on, Move_print y 13 ''|'',
          Hline y (14 + bar) SPC (bar_width - bar), Hline y 14 (CHR ''='') bar,
          Move_print y (bar_width + 14) ''|'', Pair_off 2, Bold_off,
          Move_print y (bar_width + 16) (pad_left SPC 3 (fmt_f 0 pct) @ ''%'')]
      })"

definition draw_detail_window :: "int \<Rightarrow> breakin \<Rightarrow> wcall list option" where
  "draw_detail_window cols w = do {
     bv \<leftarrow> get_field (dmi_data w) board_vendor;
     bp \<leftarrow> get_field (dmi_data w) board_product;
     bi \<leftarrow> get_field (dmi_data w) bios_version;
     sp \<leftarrow> get_field (dmi_data w) sys_product;
     sn \<leftarrow> get_field (dmi_data w) sys_serial;
     m \<leftarrow> mem_text (mem_info (sens w));
     ds \<leftarrow> disk_lines (sens w);
     ns \<leftarrow> nic_lines (sens w);
     Some ([Erase, Move_print 0 0 (''Hardware details'' @ [NL]), Hline 1 0 NUL cols,
       Move_print 2 0 (''Mobo : '' @ bv @ '' - '' @ bp @ [NL]), Print (''BIOS : '' @ bi @ [NL]),
       Print (''SYSTEM : '' @ sp @ '' SN: '' @ sn @ [NL]), Print (cpu_text (cpu_info (sens w))),
       Print (m @ triad_text (benchmarks w) @ [NL]), Print ds, Print ns] @
       (if enabled_ssh (opts w) then [Move_print 16 1 (''You can SSH to any IP address assigned above with the username''
          @ [NL] @ '' '' @ CHR 0x27 # ''ssh'' @ CHR 0x27 # '' to see progress remotely'')] else []) @
       [Move_print 19 0 ''Press [ESC] to close''])
   }"

section \<open>draw_stat_window\<close>

text \<open>The text of \<open>n\<close> bytes that a loop fills up with blanks, and the terminator written behind.\<close>

definition cell_text :: "string \<Rightarrow> string option" where
  "cell_text t = (let s = snprintf_s 22 t; m = s @ replicate (22 - length s) SPC in do {
     m \<leftarrow> wr m 22 NUL;
     cstr m 0
   })"

text \<open>\<open>label\<close> has 15 bytes for a temperature; the copy of a longer name leaves the last one unset.\<close>

definition temp_label :: "string \<Rightarrow> string option" where
  "temp_label n = (if length n > 14 then None else sprintf_s 15 n)"

text \<open>\<open>label\<close> has 10 bytes for a fan; a longer name fills all of them.\<close>

definition fan_label :: "string \<Rightarrow> string option" where
  "fan_label n = (if length n > 10 then None else sprintf_s 10 n)"

definition temp_color :: "f64 \<Rightarrow> nat option" where
  "temp_color v = (if fle (f64_of_int 60) v then Some 1 else if fle (f64_of_int 50) v then Some 3 else None)"

definition in_pair :: "nat option \<Rightarrow> wcall \<Rightarrow> wcall list" where
  "in_pair c x = (case c of Some p \<Rightarrow> [Pair_on p, x, Pair_off p] | None \<Rightarrow> [x])"

text \<open>After every third cell the line changes.\<close>

definition next_line :: "int \<Rightarrow> nat \<Rightarrow> int \<times> wcall list" where
  "next_line linepos shown = (if shown mod 3 = 0
     then (linepos + 1, [Move_print (linepos + 1) 1 (replicate 12 SPC)]) else (linepos, []))"

fun temp_cells :: "temp_data_t list \<Rightarrow> int \<Rightarrow> nat \<Rightarrow> (int \<times> wcall list) option" where
  "temp_cells [] linepos shown = Some (linepos, [])"
| "temp_cells (t # ts) linepos shown =
     (if flt (Fin False 0 0) (temp_value t) then do {
        lab \<leftarrow> temp_label (temp_name t);
        s \<leftarrow> cell_text (lab @ '': '' @ fmt_f 1 (temp_value t) @ ''C'');
        let (l, nl) = next_line linepos (shown + 1);
        (l', cs) \<leftarrow> temp_cells ts l (shown + 1);
        Some (l', in_pair (temp_color (temp_value t)) (Print (s @ '' '')) @ nl @ cs)
      } else temp_cells ts linepos shown)"

fun fan_cells :: "fan_data_t list \<Rightarrow> int \<Rightarrow> nat \<Rightarrow> (int \<times> wcall list) option" where
  "fan_cells [] linepos shown = Some (linepos, [])"
| "fan_cells (t # ts) linepos shown =
     (if fan_value t \<ge> 0 then do {
        lab \<leftarrow> fan_label (fan_name t);
        s \<leftarrow> cell_text (lab @ '': '' @ fmt_d (fan_value t) @ '' RPM'');
        let (l, nl) = next_line linepos (shown + 1);
        (l', cs) \<leftarrow> fan_cells ts l (shown + 1);
        Some (l', [Print (s @ '' '')] @ nl @ cs)
      } else fan_cells ts linepos shown)"

text \<open>The line of a test; the last message goes through a format built from the width.\<close>

definition msg_text :: "int \<Rightarrow> string \<Rightarrow> string option" where
  "msg_text width m = (if width < 0 then None else Some (take (nat width) m))"

definition test_cells :: "int \<Rightarrow> int \<Rightarrow> burnin_scripts_t \<Rightarrow> wcall list option" where
  "test_cells cols pos b = do {
     msg \<leftarrow> msg_text (cols - 27 - 3) (last_msg b);
     Some (in_pair (if running b = 1 then Some 2 else None) (Move_print pos 1 (name b)) @
       [Vline pos 16 NUL 1, Vline pos 21 NUL 1, Vline pos 26 NUL 1,
        Move_print pos 17 (fmt_wd 4 (sint (pass_count b)))] @
       in_pair (if fail_count b > 0 then Some 1 else None) (Move_print pos 22 (fmt_wd 4 (sint (fail_count b)))) @
       [Move_print pos 27 msg])
   }"

text \<open>The calls for the statistics window and for the bottom bar.\<close>

definition draw_stat_window ::
  "string \<Rightarrow> int \<Rightarrow> breakin \<Rightarrow> (wcall list \<times> wcall list) option"
where
  "draw_stat_window version cols w =
     (let s = sens w; n = burnin_script_count (mach w) in do {
        u \<leftarrow> rd (cpu_usage s) 0;
        g1 \<leftarrow> draw_graph cols 2 ''CPU usage'' (percent u);
        g2 \<leftarrow> draw_graph cols 3 ''Mem Usage'' (mem_percent (mem_info s));
        (l, ts) \<leftarrow> temp_cells (take (temp_qty s) (temp_data s)) 4 0;
        let ts = ts @ (if temp_qty s = 0 then [Print ''Not supported''] else []);
        let l = l + 1;
        (l', fs) \<leftarrow> fan_cells (take (fan_qty s) (fan_data s)) l 0;
        let fs = fs @ (if fan_qty s = 0 then [Print ''Not supported''] else []);
        let start = l' + 3;
        bs \<leftarrow> out_loop (\<lambda>i. do {
            b \<leftarrow> rd (burnin_scripts (mach w)) (int i);
            test_cells cols (start + 2 + int i) b
          }) 0 n;
        Some ([Move_print 0 1 (''Advanced Clustering Breakin Version: '' @ version), Hline 1 0 NUL cols] @ g1 @ g2 @
          [Move_print 4 1 ''Temps       ''] @ ts @ [Move_print l 1 ''Fans        ''] @ fs @
          [Hline (l' + 2) 0 NUL cols, Move_print start 6 ''Test'', Move_print start 17 ''Pass'',
           Move_print start 22 ''Fail'', Move_print start (cols - 27 - 6) ''Last message'',
           Hline (start + 1) 0 NUL cols, Hline (start + int n + 2) 0 NUL cols] @ bs,
          [Move_print 1 0 '' [F2]=hardware info  [F3]=dump log to usb [F4]=redraw scr. [F8]=quit'',
           Pair_on 2, Move_print 1 (cols - 13) (running_time (blog w)), Pair_off 2])
      })"

section \<open>setup_screen\<close>

text \<open>Height, width, top row and left column.\<close>

record geometry =
  g_height :: int
  g_width :: int
  g_y :: int
  g_x :: int

definition STAT_MIN_ROWS :: int where "STAT_MIN_ROWS = 10"

definition stat_geometry :: "int \<Rightarrow> breakin \<Rightarrow> geometry" where
  "stat_geometry cols w = \<lparr>g_height = STAT_MIN_ROWS + int (temp_qty (sens w) div 3) + int (fan_qty (sens w) div 3) +
     int (burnin_script_count (mach w)), g_width = cols, g_y = 0, g_x = 0\<rparr>"

definition log_geometry :: "int \<Rightarrow> int \<Rightarrow> breakin \<Rightarrow> geometry" where
  "log_geometry lines cols w = (let h = g_height (stat_geometry cols w) in
     \<lparr>g_height = lines - h - 3, g_width = cols, g_y = h + 1, g_x = 0\<rparr>)"

text \<open>The six windows.\<close>

record layout =
  main_g :: geometry
  log_g :: geometry
  stat_g :: geometry
  bottom_g :: geometry
  border_g :: geometry
  details_g :: geometry

definition setup_screen :: "int \<Rightarrow> int \<Rightarrow> breakin \<Rightarrow> layout" where
  "setup_screen lines cols w =
     \<lparr>main_g = \<lparr>g_height = lines, g_width = cols, g_y = 0, g_x = 0\<rparr>,
      log_g = log_geometry lines cols w, stat_g = stat_geometry cols w,
      bottom_g = \<lparr>g_height = 2, g_width = cols, g_y = lines - 2, g_x = 0\<rparr>,
      border_g = \<lparr>g_height = 22, g_width = 72, g_y = 1, g_x = 4\<rparr>,
      details_g = \<lparr>g_height = 20, g_width = 68, g_y = 2, g_x = 6\<rparr>\<rparr>"

section \<open>handle_keypress\<close>

datatype key_action = Show_details | Start_dump | Redraw | Endwin | Close_logdev | Exec_stop | Hide_details

definition KEY_F :: "int \<Rightarrow> int" where
  "KEY_F n = 264 + n"

definition ESCAPE :: int where
  "ESCAPE = 27"

text \<open>What one key does. \<open>F2\<close> is tested apart from the others.\<close>

definition handle_key :: "breakin \<Rightarrow> int \<Rightarrow> key_action list" where
  "handle_key w ch =
     (if ch = KEY_F 2 then [Show_details] else []) @
     (if ch = KEY_F 3 then [Start_dump]
      else if ch = KEY_F 4 then [Redraw]
      else if ch = KEY_F 8 then [Endwin] @ (if logdev_file (blog w) \<noteq> None then [Close_logdev] else []) @ [Exec_stop]
      else if ch = ESCAPE then [Hide_details]
      else [])"

end
