(* ===== verification/Bench.thy ===== *)
theory Bench
  imports Report
begin

text \<open>
  The benchmarks: \<open>bench_stream.c\<close> (memory), \<open>bench_disk.c\<close> (disks), \<open>run_benchmarks\<close> of
  \<open>breakin.c\<close>, and the program \<open>cryptpasswd.c\<close>. The times the clock shows, the answers of the
  system calls and the order in which the iterations of a parallel loop are carried out are
  arguments.
\<close>

section \<open>mysecond\<close>

text \<open>\<open>(double) tp.tv_sec + (double) tp.tv_usec * 1.e-6\<close>\<close>

definition mysecond :: "int \<times> int \<Rightarrow> f64" where
  "mysecond tp = fadd (f64_of_int (fst tp)) (fmul (f64_of_int (snd tp)) (f64_ratio 1 1000000))"

section \<open>bench_stream\<close>

definition STREAM_N :: nat where "STREAM_N = 5000000"
definition STREAM_NTIMES :: nat where "STREAM_NTIMES = 10"

record arrays =
  arr_a :: "f64 list"
  arr_b :: "f64 list"
  arr_c :: "f64 list"

text \<open>The body of a loop is run for the indices of a list.\<close>

fun for_each :: "(nat \<Rightarrow> 's \<Rightarrow> 's option) \<Rightarrow> nat list \<Rightarrow> 's \<Rightarrow> 's option" where
  "for_each f [] s = Some s"
| "for_each f (j # js) s = do { s' \<leftarrow> f j s; for_each f js s' }"

definition init_body :: "nat \<Rightarrow> arrays \<Rightarrow> arrays option" where
  "init_body j s = do {
     a \<leftarrow> wr (arr_a s) (int j) (f64_of_int 1);
     b \<leftarrow> wr (arr_b s) (int j) (f64_of_int 2);
     c \<leftarrow> wr (arr_c s) (int j) (f64_of_int 0);
     Some (s\<lparr>arr_a := a, arr_b := b, arr_c := c\<rparr>)
   }"

definition double_body :: "nat \<Rightarrow> arrays \<Rightarrow> arrays option" where
  "double_body j s = do {
     x \<leftarrow> rd (arr_a s) (int j);
     a \<leftarrow> wr (arr_a s) (int j) (fmul (f64_of_int 2) x);
     Some (s\<lparr>arr_a := a\<rparr>)
   }"

definition copy_body :: "nat \<Rightarrow> arrays \<Rightarrow> arrays option" where
  "copy_body j s = do {
     x \<leftarrow> rd (arr_a s) (int j);
     c \<leftarrow> wr (arr_c s) (int j) x;
     Some (s\<lparr>arr_c := c\<rparr>)
   }"

definition scale_body :: "nat \<Rightarrow> arrays \<Rightarrow> arrays option" where
  "scale_body j s = do {
     z \<leftarrow> rd (arr_c s) (int j);
     b \<leftarrow> wr (arr_b s) (int j) (fmul (f64_of_int 3) z);
     Some (s\<lparr>arr_b := b\<rparr>)
   }"

definition add_body :: "nat \<Rightarrow> arrays \<Rightarrow> arrays option" where
  "add_body j s = do {
     x \<leftarrow> rd (arr_a s) (int j);
     y \<leftarrow> rd (arr_b s) (int j);
     c \<leftarrow> wr (arr_c s) (int j) (fadd x y);
     Some (s\<lparr>arr_c := c\<rparr>)
   }"

definition triad_body :: "nat \<Rightarrow> arrays \<Rightarrow> arrays option" where
  "triad_body j s = do {
     y \<leftarrow> rd (arr_b s) (int j);
     z \<leftarrow> rd (arr_c s) (int j);
     a \<leftarrow> wr (arr_a s) (int j) (fadd y (fmul (f64_of_int 3) z));
     Some (s\<lparr>arr_a := a\<rparr>)
   }"

text \<open>The rounds from \<open>k\<close> on. Each of the four loops runs over the indices below \<open>n\<close>, in an order that
  the parallel run makes of them: \<open>ord k i\<close> is that of the \<open>i\<close>-th loop of the round \<open>k\<close>.\<close>

type_synonym schedule = "nat \<Rightarrow> nat \<Rightarrow> nat list \<Rightarrow> nat list"

fun rounds :: "nat \<Rightarrow> schedule \<Rightarrow> nat \<Rightarrow> nat \<Rightarrow> arrays \<Rightarrow> arrays option" where
  "rounds n ord k 0 s = Some s"
| "rounds n ord k (Suc m) s = do {
     s \<leftarrow> for_each copy_body (ord k 0 [0..<n]) s;
     s \<leftarrow> for_each scale_body (ord k 1 [0..<n]) s;
     s \<leftarrow> for_each add_body (ord k 2 [0..<n]) s;
     s \<leftarrow> for_each triad_body (ord k 3 [0..<n]) s;
     rounds n ord (k + 1) m s
   }"

text \<open>The clock is read twice before the rounds and around each of the four loops of a round;
  \<open>tm i\<close> is what the \<open>i\<close>-th call of \<open>mysecond\<close> returns.\<close>

definition loop_time :: "(nat \<Rightarrow> f64) \<Rightarrow> nat \<Rightarrow> nat \<Rightarrow> f64" where
  "loop_time tm j k = fsub (tm (2 + 8 * k + 2 * j + 1)) (tm (2 + 8 * k + 2 * j))"

definition STREAM_MIN :: "f64 \<Rightarrow> f64 \<Rightarrow> f64" where
  "STREAM_MIN x y = (if flt x y then x else y)"

text \<open>\<open>FLT_MAX\<close> is \<open>2 ^ 128 - 2 ^ 104\<close>. The first round is skipped. \<open>mintime\<close>, as the static array
  of the function, keeps its values from one call to the next. (\<open>avgtime\<close> and \<open>maxtime\<close> are computed in the
  same loop and never used.)\<close>

definition FLT_MAX :: f64 where
  "FLT_MAX = f64_of_int (2 ^ 128 - 2 ^ 104)"

definition min_time :: "(nat \<Rightarrow> f64) \<Rightarrow> nat \<Rightarrow> f64 \<Rightarrow> f64" where
  "min_time tm j m = fold (\<lambda>k m. STREAM_MIN m (loop_time tm j k)) [1..<STREAM_NTIMES] m"

definition rate :: "nat \<Rightarrow> nat \<Rightarrow> f64 \<Rightarrow> f64" where
  "rate n words t = fdiv (fmul (f64_ratio 1 1000000) (f64_of_int (int (words * 8 * n)))) t"

text \<open>\<open>mt\<close> are the four minima before the call.\<close>

definition stream_of_size ::
  "nat \<Rightarrow> schedule \<Rightarrow> (nat \<Rightarrow> f64) \<Rightarrow> (nat \<Rightarrow> f64) \<Rightarrow> arrays \<Rightarrow>
   (bench_stream_t \<times> (nat \<Rightarrow> f64) \<times> arrays) option"
where
  "stream_of_size n ord tm mt s = do {
     s \<leftarrow> for_each init_body [0..<n] s;
     s \<leftarrow> for_each double_body [0..<n] s;
     s \<leftarrow> rounds n ord 0 STREAM_NTIMES s;
     let mt = (\<lambda>j. min_time tm j (mt j));
     Some (\<lparr>bs_copy = rate n 2 (mt 0), bs_scale = rate n 2 (mt 1),
            bs_add = rate n 3 (mt 2), bs_triad = rate n 3 (mt 3)\<rparr>, mt, s)
   }"

definition bench_stream ::
  "schedule \<Rightarrow> (nat \<Rightarrow> f64) \<Rightarrow> (nat \<Rightarrow> f64) \<Rightarrow> arrays \<Rightarrow>
   (bench_stream_t \<times> (nat \<Rightarrow> f64) \<times> arrays) option"
where
  "bench_stream = stream_of_size STREAM_N"

text \<open>\<open>checktick\<close>: twenty distinct times are collected, each by waiting until the clock has advanced
  by a microsecond. \<open>i\<close> counts the calls of \<open>mysecond\<close>; a clock that stands still is waited for for
  ever (\<open>None\<close>).\<close>

definition STREAM_M :: nat where "STREAM_M = 20"

partial_function (option) await_tick :: "(nat \<Rightarrow> f64) \<Rightarrow> f64 \<Rightarrow> nat \<Rightarrow> (f64 \<times> nat) option" where
  [code]: "await_tick tm t1 i =
     (if flt (fsub (tm i) t1) (f64_ratio 1 1000000) then await_tick tm t1 (i + 1) else Some (tm i, i + 1))"

fun ticks :: "(nat \<Rightarrow> f64) \<Rightarrow> nat \<Rightarrow> nat \<Rightarrow> f64 list option" where
  "ticks tm i 0 = Some []"
| "ticks tm i (Suc n) = do {
     (t2, i') \<leftarrow> await_tick tm (tm i) (i + 1);
     ts \<leftarrow> ticks tm i' n;
     Some (t2 # ts)
   }"

fun min_delta :: "f64 list \<Rightarrow> int \<Rightarrow> int option" where
  "min_delta (x # y # ts) m = do {
     d \<leftarrow> f64_trunc (fmul (f64_of_int 1000000) (fsub y x));
     if - (2 ^ 31) \<le> d \<and> d < 2 ^ 31
     then (let e = (if d > 0 then d else 0) in min_delta (y # ts) (if m < e then m else e)) else None
   }"
| "min_delta ts m = Some m"

definition checktick :: "(nat \<Rightarrow> f64) \<Rightarrow> int option" where
  "checktick tm = do { ts \<leftarrow> ticks tm 0 STREAM_M; min_delta ts 1000000 }"

section \<open>bench_disk\<close>

definition TIMING_BUF_BYTES :: int where
  "TIMING_BUF_BYTES = 2 * 1024 * 1024"

text \<open>The answers: \<open>reads i\<close> is the result of the \<open>i\<close>-th \<open>read\<close>, \<open>timer i\<close> the value of the \<open>i\<close>-th
  \<open>getitimer\<close> in seconds and microseconds.\<close>

record disk_env =
  fd_ok :: bool
  shmget_ok :: bool
  shm_lock_ok :: bool
  shmat_ok :: bool
  reads :: "nat \<Rightarrow> int"
  timer :: "nat \<Rightarrow> int \<times> int"

text \<open>\<open>True\<close> is the result 1. (The bytes of the buffer are not used.)\<close>

definition read_big_block :: "int \<Rightarrow> bool" where
  "read_big_block rc \<longleftrightarrow> rc \<noteq> TIMING_BUF_BYTES"

definition elapsed_since :: "int \<times> int \<Rightarrow> int \<times> int \<Rightarrow> f64" where
  "elapsed_since e1 e2 = fadd (f64_of_int (fst e1 - fst e2))
     (fdiv (f64_of_int (snd e1 - snd e2)) (f64_of_int 1000000))"

text \<open>The loop after \<open>i\<close> iterations, \<open>k\<close> of the 1024 left: the iterations and the elapsed time, or
  \<open>None\<close> after \<open>goto quit\<close>.\<close>

fun disk_loop :: "disk_env \<Rightarrow> nat \<Rightarrow> nat \<Rightarrow> (nat \<times> f64) option" where
  "disk_loop e i 0 = None"
| "disk_loop e i (Suc k) =
     (if read_big_block (reads e i) then None
      else let el = elapsed_since (timer e 0) (timer e (i + 1)) in
        if flt el (f64_of_int 3) \<and> i + 1 < 1024 then disk_loop e (i + 1) k
        else Some (i + 1, el))"

text \<open>The value returned and whether the device was closed. After \<open>goto quit\<close> \<open>total_MB\<close> has no
  value.\<close>

definition bench_disk :: "disk_env \<Rightarrow> (f64 \<times> bool) option" where
  "bench_disk e =
     (if \<not> fd_ok e then Some (f64_of_int 1, True)
      else if \<not> shmget_ok e then Some (f64_of_int 1, False)
      else if \<not> shm_lock_ok e then Some (f64_of_int 1, False)
      else if \<not> shmat_ok e then Some (f64_of_int 1, False)
      else do {
        (n, el) \<leftarrow> disk_loop e 0 1024;
        Some (fdiv (f64_of_int (uint (word_of_int (int n) * 2 :: 32 word))) el, True)
      })"

text \<open>\<open>do_blkgetsize\<close>: the result of the two \<open>ioctl\<close> calls and what they store.\<close>

definition do_blkgetsize :: "int \<times> 64 word \<Rightarrow> int \<times> 32 word \<Rightarrow> int \<times> 64 word" where
  "do_blkgetsize r64 r32 =
     (if fst r64 = 0 then (0, snd r64 div 512) else (fst r32, ucast (snd r32)))"

section \<open>run_benchmarks\<close>

fun disk_benchmarks :: "(string \<Rightarrow> disk_env) \<Rightarrow> nat \<Rightarrow> nat \<Rightarrow> breakin \<Rightarrow> breakin option" where
  "disk_benchmarks env i 0 w = Some w"
| "disk_benchmarks env i (Suc k) w = do {
     x \<leftarrow> rd (disk_info (sens w)) (int i);
     d \<leftarrow> cstr (device x) 0;
     buf \<leftarrow> sprintf_s BUFSIZ (''Running disk benchmark on '' @ d);
     let w = set_log (log_message buf (blog w)) w;
     (r, closed) \<leftarrow> bench_disk (env (''/dev/'' @ d));
     disk_benchmarks env (i + 1) k (w\<lparr>sens := (sens w)\<lparr>disk_info :=
       (disk_info (sens w))[i := x\<lparr>performance := r\<rparr>]\<rparr>\<rparr>)
   }"

record bench_env =
  loop_order :: schedule
  clock_reads :: "nat \<Rightarrow> f64"
  minima :: "nat \<Rightarrow> f64"
  start_arrays :: arrays
  disk_answers :: "string \<Rightarrow> disk_env"

definition run_benchmarks :: "bench_env \<Rightarrow> breakin \<Rightarrow> breakin option" where
  "run_benchmarks e w = do {
     let w = set_log (log_message ''Running memory performance benchmark'' (blog w)) w;
     (st, mt, arr) \<leftarrow> bench_stream (loop_order e) (clock_reads e) (minima e) (start_arrays e);
     let w = w\<lparr>benchmarks := (benchmarks w)\<lparr>bstream := st\<rparr>\<rparr>;
     w \<leftarrow> disk_benchmarks (disk_answers e) 0 (disk_qty (sens w)) w;
     Some (w\<lparr>benchmarks := (benchmarks w)\<lparr>completed := True\<rparr>\<rparr>)
   }"

section \<open>cryptpasswd\<close>

text \<open>\<open>snprintf(salt, 3, "%s", argv[1])\<close> into \<open>char salt[2]\<close>; \<open>crypt\<close> is the function of libcrypt.\<close>

definition cryptpasswd_main :: "(string \<Rightarrow> string \<Rightarrow> string option) \<Rightarrow> string option \<Rightarrow> string option" where
  "cryptpasswd_main crypt arg = do {
     a \<leftarrow> arg;
     salt \<leftarrow> sprintf_s 2 (snprintf_s 3 a);
     password \<leftarrow> crypt a salt;
     Some (password @ [NL])
   }"

end
