(* ===== verification/Startup.thy ===== *)
theory Startup
  imports Screen Bench
begin

text \<open>
  How \<open>breakin.c\<close> is put together: the options and the phases of \<open>main\<close> up to the burn-in loop, one
  round of \<open>update_stats\<close>, which runs the collectors, the drawing and the report, and the loop of
  \<open>dump_log\<close>. What is read from outside is an argument: the options found by \<open>getopt_long\<close>, the
  contents of files and directories, the clock. The update, upload and key threads run beside the
  start-up; here each of their rounds is an operation of its own.
\<close>

section \<open>Options\<close>

definition DEFAULT_UPDATE_INTERVAL :: int where "DEFAULT_UPDATE_INTERVAL = 300"

text \<open>\<open>snprintf(breakin_disable, 1024, "%s", optarg)\<close> leaves the bytes behind the terminator.\<close>

definition put_disable :: "string \<Rightarrow> machine \<Rightarrow> machine" where
  "put_disable s m = (let t = snprintf_s 1024 s in
     m\<lparr>breakin_disable := t @ NUL # drop (length t + 1) (breakin_disable m)\<rparr>)"

text \<open>One option with its argument; \<open>None\<close> is the usage message and \<open>exit(1)\<close>.\<close>

definition set_option :: "char \<times> string \<Rightarrow> breakin \<Rightarrow> breakin option" where
  "set_option x w =
     (let (c, optarg) = x; o1 = opts w in
      if c = CHR ''u'' then Some (w\<lparr>opts := o1\<lparr>enable_updates := True, update_url := snprintf_s 1024 optarg\<rparr>\<rparr>)
      else if c = CHR ''i'' then
        (let n = atoi optarg in Some (w\<lparr>opts := o1\<lparr>update_interval := (if n < 10 then DEFAULT_UPDATE_INTERVAL else n)\<rparr>\<rparr>))
      else if c = CHR ''b'' then Some (w\<lparr>opts := o1\<lparr>enable_benchmarks := False\<rparr>\<rparr>)
      else if c = CHR ''s'' then Some (w\<lparr>opts := o1\<lparr>enabled_ssh := True\<rparr>\<rparr>)
      else if c = CHR ''r'' then Some (w\<lparr>opts := o1\<lparr>serial_baud := atoi optarg\<rparr>\<rparr>)
      else if c = CHR ''d'' then
        Some (set_log ((blog w)\<lparr>serial_enabled := True\<rparr>) (w\<lparr>opts := o1\<lparr>serial_dev := snprintf_s 1024 optarg\<rparr>\<rparr>))
      else if c = CHR ''t'' then Some (w\<lparr>mach := put_disable optarg (mach w)\<rparr>)
      else None)"

definition set_options :: "(char \<times> string) list \<Rightarrow> breakin \<Rightarrow> breakin option" where
  "set_options xs w = fold_opt set_option xs w"

section \<open>update_stats\<close>

record stat_env =
  syslog_text :: "string option"
  errlog_text :: "string option"
  proc_stat_text :: "string option"
  meminfo_text :: "string option"
  temps_text :: "string option"
  fans_text :: "string option"
  block_dir :: "string list option"
  sys_file :: "string \<Rightarrow> string option"
  sock_ok :: bool
  ifs :: ifconf
  tmp_ok :: bool
  columns :: int
  version :: string

definition set_sens :: "sensors \<Rightarrow> breakin \<Rightarrow> breakin" where
  "set_sens s w = w\<lparr>sens := s\<rparr>"

text \<open>The collectors, in the order of the calls.\<close>

definition collect :: "stat_env \<Rightarrow> breakin \<Rightarrow> breakin option" where
  "collect e w = do {
     l \<leftarrow> monitor_syslog (syslog_text e) (blog w);
     s \<leftarrow> get_cpu_usage (proc_stat_text e) (sens w);
     s \<leftarrow> get_mem_usage (meminfo_text e) s;
     s \<leftarrow> get_ipmi_sensors (temps_text e) (fans_text e) s;
     s \<leftarrow> get_hd_info (block_dir e) (sys_file e) s;
     (s, l) \<leftarrow> get_nic_info (hardware_finished w) (sock_ok e) (ifs e) (s, l);
     l \<leftarrow> show_log (errlog_text e) l;
     Some (set_log l (set_sens s w))
   }"

text \<open>One round: collect, draw, write the statistics.\<close>

definition update_stats :: "stat_env \<Rightarrow> breakin \<Rightarrow> (breakin \<times> wcall list \<times> wcall list \<times> wcall list) option" where
  "update_stats e w = do {
     w \<leftarrow> collect e w;
     (stat_calls, bar_calls) \<leftarrow> draw_stat_window (version e) (columns e) w;
     detail_calls \<leftarrow> draw_detail_window (columns e) w;
     w \<leftarrow> dump_stats (tmp_ok e) w;
     Some (w, stat_calls, bar_calls, detail_calls)
   }"

section \<open>Commands that are followed to their end\<close>

definition set_kern :: "log_state \<Rightarrow> kernel \<Rightarrow> breakin \<Rightarrow> breakin" where
  "set_kern l k w = w\<lparr>mach := (mach w)\<lparr>logs := l, kern := k\<rparr>\<rparr>"

text \<open>A line as \<open>%s\<close> prints it.\<close>

definition as_text :: "string \<Rightarrow> string" where
  "as_text l = takeWhile (\<lambda>c. c \<noteq> NUL) l"

text \<open>One round of the hardware loop of \<open>main\<close> over the stream \<open>f\<close> and the child \<open>p\<close>: the output is
  printed, and the child waited for. In between the system does \<open>ev\<close>.\<close>

definition hardware_round :: "nat \<Rightarrow> int \<Rightarrow> (kernel \<Rightarrow> kernel) \<Rightarrow> breakin \<Rightarrow> breakin option" where
  "hardware_round f p ev w = do {
     (ls, k) \<leftarrow> drain f (kern (mach w));
     let l = fold (wprintw 0) (map as_text ls) (blog w);
     (case waitpid p (ev k) of
        (Wait_Zero, k) \<Rightarrow> Some (set_kern l k w)
      | (_, k) \<Rightarrow> do {
          k \<leftarrow> fclose f k;
          Some ((set_kern (log_message ''Finished hardware setup'' l) k w)\<lparr>hardware_finished := True\<rparr>)
        })
   }"

text \<open>\<open>while (!hardware_finished && hw_fp != NULL)\<close>: an element of \<open>evs\<close> is what the system does before
  a round and between its two steps. The loop ends with the list if the command is still running then.\<close>

type_synonym round_events = "(kernel \<Rightarrow> kernel) \<times> (kernel \<Rightarrow> kernel)"

fun hardware_loop :: "round_events list \<Rightarrow> nat \<Rightarrow> int \<Rightarrow> breakin \<Rightarrow> breakin option" where
  "hardware_loop [] f p w = Some w"
| "hardware_loop (ev # evs) f p w =
     (if hardware_finished w then Some w
      else do {
        w \<leftarrow> hardware_round f p (snd ev) (w\<lparr>mach := (mach w)\<lparr>kern := fst ev (kern (mach w))\<rparr>\<rparr>);
        hardware_loop evs f p w
      })"

definition hardware_setup :: "fork_env \<Rightarrow> round_events list \<Rightarrow> breakin \<Rightarrow> breakin option" where
  "hardware_setup fe evs w = do {
     (rp, fp, l, k) \<leftarrow> fork_cmd fe (Some ''Starting hardware setup'') ''/usr/local/etc/breakin/hardware.sh'' (blog w, kern (mach w));
     let w = (set_kern l k w)\<lparr>hardware_finished := False\<rparr>;
     (case (rp, fp) of (Some p, Some f) \<Rightarrow> hardware_loop evs f p w | _ \<Rightarrow> Some w)
   }"

text \<open>One round of \<open>dump_log\<close>; the result tells whether it has finished.\<close>

definition dump_log_round :: "nat \<Rightarrow> int \<Rightarrow> (kernel \<Rightarrow> kernel) \<Rightarrow> breakin \<Rightarrow> (bool \<times> breakin) option" where
  "dump_log_round f p ev w = do {
     (ls, k) \<leftarrow> drain f (kern (mach w));
     let l = fold log_message (map as_text ls) (blog w);
     (case waitpid p (ev k) of
        (Wait_Zero, k) \<Rightarrow> Some (False, set_kern l k w)
      | (_, k) \<Rightarrow> do { k \<leftarrow> fclose f k; Some (True, set_kern l k w) })
   }"

section \<open>main\<close>

record start_env =
  uid :: int
  option_list :: "(char \<times> string) list"
  test_dir :: "string list option"
  start_temps :: "string option"
  start_fans :: "string option"
  dmi_os :: os
  cpuinfo_text :: "string option"
  now :: int
  log_ok :: bool

text \<open>The phases before the hardware setup. \<open>Exit\<close> is the status with which the program ends.\<close>

definition prepare :: "start_env \<Rightarrow> breakin \<Rightarrow> breakin exits option" where
  "prepare e w =
     (let w = w\<lparr>benchmarks := (benchmarks w)\<lparr>completed := False\<rparr>\<rparr> in
      if uid e \<noteq> 0 then Some (Exit 255)
      else case set_options (option_list e) w of
          None \<Rightarrow> Some (Exit 1)
        | Some w \<Rightarrow> do {
            m \<leftarrow> find_burnin_tests (test_dir e) (mach w);
            s \<leftarrow> get_ipmi_sensors (start_temps e) (start_fans e) (sens w);
            r \<leftarrow> do_dmi_decode mem_chunk release (dmi_data w, dmi_os e);
            (case r of
               Exit n \<Rightarrow> Some (Exit n)
             | Returns (d, os) \<Rightarrow> do {
                 s \<leftarrow> get_cpu_info (cpuinfo_text e) s;
                 let l = (logs m)\<lparr>start_time := now e, log_file := (if log_ok e then Some [] else None)\<rparr>;
                 Some (Returns (w\<lparr>mach := m\<lparr>logs := l\<rparr>, sens := s, dmi_data := d\<rparr>))
               })
          })"

text \<open>The messages between the hardware setup and the burn-in loop.\<close>

definition announce_disabled :: "breakin \<Rightarrow> breakin option" where
  "announce_disabled w = do {
     d \<leftarrow> cstr (breakin_disable (mach w)) 0;
     if d \<noteq> [] then do {
       buf \<leftarrow> sprintf_s BUFSIZ (''Was asked to disable the following tests: '' @ d);
       Some (set_log (log_message buf (blog w)) w)
     } else Some w
   }"

definition announce :: "breakin \<Rightarrow> breakin option" where
  "announce w = do {
     w \<leftarrow> (if enable_updates (opts w) then do {
           buf \<leftarrow> sprintf_s BUFSIZ (''Sending updates to '' @ update_url (opts w) @ '' every '' @
             fmt_d (update_interval (opts w)) @ '' seconds'');
           Some (set_log (log_message buf (blog w)) w)
         } else Some w);
     w \<leftarrow> (if serial_enabled (blog w) then do {
           buf \<leftarrow> sprintf_s BUFSIZ (''Serial logging enabled on '' @ serial_dev (opts w) @ '' baud '' @
             fmt_d (serial_baud (opts w)));
           Some (set_log (log_message buf (blog w)) w)
         } else Some w);
     let w = (if enabled_ssh (opts w) then set_log (log_message ''SSH server listing on port 22'' (blog w)) w else w);
     Some (set_log (log_message ''Starting burnin tests'' (blog w)) w)
   }"

record phase_env =
  hw_fork :: fork_env
  hw_events :: "round_events list"
  logdev_ok :: bool
  serial_opened :: bool
  serial_attached :: bool
  bench_answers :: bench_env

text \<open>From the hardware setup to the burn-in loop.\<close>

definition setup_phases :: "phase_env \<Rightarrow> breakin \<Rightarrow> breakin option" where
  "setup_phases e w = do {
     w \<leftarrow> hardware_setup (hw_fork e) (hw_events e) w;
     w \<leftarrow> announce_disabled w;
     w \<leftarrow> start_logdev (logdev_ok e) (serial_opened e) (serial_attached e) w;
     w \<leftarrow> (if enable_benchmarks (opts w) then run_benchmarks (bench_answers e) w else Some w);
     announce w
   }"

end
