(* ===== verification/SensorSpec.thy ===== *)
theory SensorSpec
  imports Devices
begin

text \<open>
  What the collectors promise: the tables keep their sizes and the quantities stay within them
  whatever the files hold; the CPU counters survive the wrap of 32 bits; the tables of
  temperatures, disks and network cards are computed from well-formed input as specified.
\<close>

section \<open>The shape of the tables\<close>

definition sensors_ok :: "sensors \<Rightarrow> bool" where
  "sensors_ok s \<longleftrightarrow>
     length (cpu_usage s) = MAX_CPUS \<and> 0 \<le> cpu_qty s \<and> cpu_qty s \<le> int MAX_CPUS \<and>
     length (temp_data s) = MAX_TEMPS \<and> temp_qty s \<le> MAX_TEMPS \<and>
     (\<forall>t \<in> set (temp_data s). length (temp_name t) < 16) \<and>
     length (fan_data s) = MAX_FANS \<and> fan_qty s \<le> MAX_FANS \<and>
     (\<forall>t \<in> set (fan_data s). length (fan_name t) < 16) \<and>
     length (disk_info s) = MAX_DISKS \<and> disk_qty s \<le> MAX_DISKS \<and>
     (\<forall>d \<in> set (disk_info s). length (device d) = 30) \<and>
     length (nic_data s) = MAX_NUM_NICS \<and> nic_qty s \<le> MAX_NUM_NICS \<and>
     (\<forall>n \<in> set (nic_data s). length (nic_name n) < 16)"

lemma set_update_ball: "\<forall>x \<in> set xs. P x \<Longrightarrow> P y \<Longrightarrow> \<forall>x \<in> set (xs[i := y]). P x"
  using set_update_subset_insert [of xs i y] by auto

lemma cpu_lines_ok:
  "cpu_lines ls n cs us = Some (n', us') \<Longrightarrow> n \<le> MAX_CPUS \<Longrightarrow> length us' = length us \<and> n' \<le> MAX_CPUS"
  by (induction ls n cs us rule: cpu_lines.induct)
    (auto simp: Let_def split: if_splits bind_splits list.splits option.splits)

lemma get_cpu_usage_ok: "get_cpu_usage f s = Some s' \<Longrightarrow> sensors_ok s \<Longrightarrow> sensors_ok s'"
  by (auto simp: get_cpu_usage_def sensors_ok_def split: option.splits bind_splits dest!: cpu_lines_ok)

lemma get_cpu_info_ok: "get_cpu_info f s = Some s' \<Longrightarrow> sensors_ok s \<Longrightarrow> sensors_ok s'"
  by (auto simp: get_cpu_info_def sensors_ok_def split: option.splits bind_splits)

lemma get_mem_usage_ok: "get_mem_usage f s = Some s' \<Longrightarrow> sensors_ok s \<Longrightarrow> sensors_ok s'"
  by (auto simp: get_mem_usage_def sensors_ok_def Let_def split: option.splits bind_splits)

lemma snprintf_s_16: "length (snprintf_s 16 n) < 16"
  by (rule snprintf_s_length) simp

lemma put_temp_ok: "put_temp n v s = Some s' \<Longrightarrow> sensors_ok s \<Longrightarrow> sensors_ok s'"
  by (auto simp: put_temp_def sensors_ok_def snprintf_s_16 split: if_splits bind_splits
      dest!: set_update_subset_insert [THEN subsetD])

lemma put_fan_ok: "put_fan n v s = Some s' \<Longrightarrow> sensors_ok s \<Longrightarrow> sensors_ok s'"
  by (auto simp: put_fan_def sensors_ok_def snprintf_s_16 split: if_splits bind_splits
      dest!: set_update_subset_insert [THEN subsetD])

lemma sensor_lines_ok:
  assumes "\<And>n v s s'. put n v s = Some s' \<Longrightarrow> sensors_ok s \<Longrightarrow> sensors_ok s'"
  shows "sensor_lines k put ls st = Some st' \<Longrightarrow> sensors_ok (snd st) \<Longrightarrow> sensors_ok (snd st')"
proof (induction ls arbitrary: st)
  case Nil
  then show ?case by simp
next
  case (Cons l ls)
  obtain v s where st: "st = (v, s)" by fastforce
  with Cons.prems(1) have "\<exists>(c :: chunk_state) s1.
    (if found_label c \<and> found_value c then put (label c) (ipmi_value c) s else Some s) = Some s1 \<and>
    sensor_lines k put ls (ipmi_value c, s1) = Some st'"
    by (clarsimp split: bind_splits split del: if_split) blast
  then obtain c :: chunk_state and s1 where
    "(if found_label c \<and> found_value c then put (label c) (ipmi_value c) s else Some s) = Some s1"
    "sensor_lines k put ls (ipmi_value c, s1) = Some st'" by blast
  moreover have "sensors_ok s1" using calculation(1) assms Cons.prems(2) st by (auto split: if_splits)
  ultimately show ?case using Cons.IH by simp
qed

lemma sensor_file_ok:
  assumes "\<And>n v s s'. put n v s = Some s' \<Longrightarrow> sensors_ok s \<Longrightarrow> sensors_ok s'"
  shows "sensor_file k put f st = Some st' \<Longrightarrow> sensors_ok (snd st) \<Longrightarrow> sensors_ok (snd st')"
  using sensor_lines_ok [of put] assms by (auto simp: sensor_file_def split: option.splits)

lemma get_ipmi_sensors_ok:
  assumes "get_ipmi_sensors tf ff s = Some s'" and "sensors_ok s"
  shows "sensors_ok s'"
proof -
  obtain st1 st2 where f: "sensor_file 0 put_temp tf (0, s\<lparr>fan_qty := 0, temp_qty := 0\<rparr>) = Some st1"
    "sensor_file 3 put_fan ff st1 = Some st2" "s' = snd st2"
    using assms(1) by (auto simp: get_ipmi_sensors_def split: bind_splits)
  have "sensors_ok (s\<lparr>fan_qty := 0, temp_qty := 0\<rparr>)" using assms(2) by (simp add: sensors_ok_def)
  then have "sensors_ok (snd st1)"
    using sensor_file_ok [OF put_temp_ok f(1)] by simp
  then show ?thesis using sensor_file_ok [OF put_fan_ok f(2)] f(3) by simp
qed

lemma hd_loop_ok:
  "hd_loop fs es n buf ds = Some (n', ds') \<Longrightarrow> n \<le> MAX_DISKS \<Longrightarrow> \<forall>d \<in> set ds. length (device d) = 30 \<Longrightarrow>
   length ds' = length ds \<and> n' \<le> MAX_DISKS \<and> (\<forall>d \<in> set ds'. length (device d) = 30)"
proof (induction es arbitrary: n buf ds)
  case Nil
  then show ?case by simp
next
  case (Cons d es)
  show ?case
  proof (cases "n < MAX_DISKS \<and> is_disk d")
    case False
    then have "hd_loop fs es n buf ds = Some (n', ds') \<or> (n' = n \<and> ds' = ds)"
      using Cons.prems(1) by (auto split: if_splits)
    then show ?thesis using Cons by blast
  next
    case True
    then consider buf1 where "hd_loop fs es n buf1 ds = Some (n', ds')"
      | buf1 x where "hd_loop fs es (n + 1) buf1 (ds[n := x]) = Some (n', ds')" "length (device x) = 30"
      using Cons.prems(1)
      by (auto simp: strncpy_pad_def split: if_splits bind_splits option.splits)
    then show ?thesis
    proof cases
      case 1
      then show ?thesis using Cons by blast
    next
      case 2
      have "\<forall>d \<in> set (ds[n := x]). length (device d) = 30"
        using set_update_ball [OF Cons.prems(3) 2(2)] .
      then show ?thesis using Cons.IH [OF 2(1)] True by simp
    qed
  qed
qed

lemma get_hd_info_ok: "get_hd_info dir fs s = Some s' \<Longrightarrow> sensors_ok s \<Longrightarrow> sensors_ok s'"
  by (auto simp: get_hd_info_def sensors_ok_def split: option.splits bind_splits dest!: hd_loop_ok)

lemma nic_loop_ok:
  "nic_loop rs n ns = Some (n', ns') \<Longrightarrow> n \<le> length ns \<Longrightarrow> \<forall>x \<in> set ns. length (nic_name x) < 16 \<Longrightarrow>
   length ns' = length ns \<and> n' \<le> length ns \<and> (\<forall>x \<in> set ns'. length (nic_name x) < 16)"
proof (induction rs arbitrary: n ns)
  case Nil
  then show ?case by simp
next
  case (Cons r rs)
  show ?case
  proof (cases "hwaddr r = None \<or> starts ''lo'' (ifr_name r)")
    case True
    then have "nic_loop rs n ns = Some (n', ns')" using Cons.prems(1) by (auto split: option.splits)
    then show ?thesis using Cons by blast
  next
    case False
    then obtain b where b: "hwaddr r = Some b" "\<not> starts ''lo'' (ifr_name r)" by auto
    then have n: "n < length ns" using Cons.prems(1) by (auto simp: rd_Some_iff split: bind_splits)
    let ?x = "(ns ! n)\<lparr>nic_name := snprintf_s 16 (ifr_name r), macaddr := mac_colons b,
      macaddr_num := mac_plain b\<rparr>"
    have l: "length (nic_name ?x) < 16" "length (nic_name (?x\<lparr>ipaddr := ip\<rparr>)) < 16" for ip
      by (simp_all add: snprintf_s_16)
    have "\<exists>x. length (nic_name x) < 16 \<and> (nic_loop rs n (ns[n := x]) = Some (n', ns') \<or>
        nic_loop rs (n + 1) (ns[n := x]) = Some (n', ns'))"
    proof (cases "addr r")
      case None
      then have "nic_loop rs n (ns[n := ?x]) = Some (n', ns')"
        using b Cons.prems(1) n by (simp add: cmem)
      with l(1) show ?thesis by blast
    next
      case (Some a)
      then obtain ip where "nic_loop rs (n + 1) (ns[n := ?x\<lparr>ipaddr := ip\<rparr>]) = Some (n', ns')"
        using b Cons.prems(1) n by (auto simp: cmem split: bind_splits)
      with l(2) show ?thesis by blast
    qed
    then obtain x where x: "length (nic_name x) < 16"
      "nic_loop rs n (ns[n := x]) = Some (n', ns') \<or> nic_loop rs (n + 1) (ns[n := x]) = Some (n', ns')" by blast
    have "\<forall>y \<in> set (ns[n := x]). length (nic_name y) < 16" using set_update_ball [OF Cons.prems(3) x(1)] .
    with x(2) show ?thesis using Cons.IH [of n "ns[n := x]"] Cons.IH [of "n + 1" "ns[n := x]"] n by auto
  qed
qed

lemma get_nic_info_ok:
  "get_nic_info hf so cf (s, w) = Some (s', w') \<Longrightarrow> sensors_ok s \<Longrightarrow> sensors_ok s'"
  by (auto simp: get_nic_info_def sensors_ok_def Let_def split: if_splits ifconf.splits bind_splits
      dest!: nic_loop_ok)

lemmas collectors_ok = get_cpu_usage_ok get_cpu_info_ok get_mem_usage_ok get_ipmi_sensors_ok
  get_hd_info_ok get_nic_info_ok

section \<open>CPU counters\<close>

text \<open>A line of \<open>/proc/stat\<close>: a label, blanks, the four counters and the rest of the line. The first line
  has the label \<open>cpu\<close>, two blanks and the sums over all CPUs; the lines of the CPUs have one blank.\<close>

record stat_cpu =
  cpu_label :: string
  st_gap :: string
  st_user :: nat
  st_nice :: nat
  st_sys :: nat
  st_idle :: nat
  st_rest :: string

definition stat_line :: "stat_cpu \<Rightarrow> string" where
  "stat_line c = cpu_label c @ st_gap c @ fmt_d (int (st_user c)) @ SPC # fmt_d (int (st_nice c)) @ SPC #
     fmt_d (int (st_sys c)) @ SPC # fmt_d (int (st_idle c)) @ SPC # st_rest c"

definition stat_ok :: "stat_cpu \<Rightarrow> bool" where
  "stat_ok c \<longleftrightarrow> starts ''cpu'' (cpu_label c) \<and> length (cpu_label c) < 12 \<and>
     (\<forall>x \<in> set (cpu_label c). \<not> isspace x \<and> x \<noteq> NUL) \<and>
     st_gap c \<noteq> [] \<and> set (st_gap c) \<subseteq> {SPC, TAB} \<and> nul_free (st_rest c) \<and> NL \<notin> set (st_rest c) \<and>
     length (stat_line c) + 1 < BUFSIZ \<and>
     st_user c < 2 ^ 63 \<and> st_nice c < 2 ^ 63 \<and> st_sys c < 2 ^ 63 \<and> st_idle c < 2 ^ 63"

lemma scan_word_label:
  assumes "w \<noteq> []" and "\<forall>x \<in> set w. \<not> isspace x" and "isspace b"
  shows "scan_word (w @ b # r) = Some (w, b # r)"
proof -
  have "takeWhile (\<lambda>c. \<not> isspace c) (w @ b # r) = w" "dropWhile (\<lambda>c. \<not> isspace c) (w @ b # r) = b # r"
    using assms(2,3) by (simp_all add: takeWhile_append2 dropWhile_append2)
  moreover have "dropWhile isspace (w @ b # r) = w @ b # r" using assms by (cases w) auto
  ultimately show ?thesis using assms(1) by (simp add: scan_word_def Let_def)
qed

lemma scan_int_gap: "set g \<subseteq> {SPC, TAB} \<Longrightarrow> scan_int (g @ fmt_d i @ SPC # r) = Scan_Ok i (SPC # r)"
proof -
  assume "set g \<subseteq> {SPC, TAB}"
  then have "scan_int (g @ s) = scan_int s" for s by (induction g) (auto simp: scan_int_def isspace_def)
  then show ?thesis using scan_int_fmt_d [of "SPC # r" i] by (simp add: isdigit_def)
qed

lemmas scan_int_field = scan_int_gap [of "[SPC]", simplified]

lemma to_u32_nat: "n < 2 ^ 63 \<Longrightarrow> to_u32 (int n) = of_nat n"
  by (simp add: to_u32_def clamp_i64_def)

lemma stat_ok_label: "stat_ok c \<Longrightarrow> cpu_label c \<noteq> [] \<and> \<not> 12 \<le> length (cpu_label c) \<and>
    (\<forall>x \<in> set (cpu_label c). \<not> isspace x) \<and> st_gap c \<noteq> [] \<and> set (st_gap c) \<subseteq> {SPC, TAB}"
proof -
  assume c: "stat_ok c"
  then have "starts ''cpu'' (cpu_label c)" unfolding stat_ok_def by blast
  then have "cpu_label c \<noteq> []" by (auto simp: starts_def)
  with c show ?thesis unfolding stat_ok_def not_le by blast
qed

lemma stat_ok_small: "stat_ok c \<Longrightarrow> st_user c < 2 ^ 63 \<and> st_nice c < 2 ^ 63 \<and> st_sys c < 2 ^ 63 \<and> st_idle c < 2 ^ 63"
  unfolding stat_ok_def by blast

lemma scan_cpu_line:
  assumes "stat_ok c"
  shows "scan_cpu (stat_line c @ r) [a, b, d, e] =
    Some [Some (of_nat (st_user c)), Some (of_nat (st_nice c)), Some (of_nat (st_sys c)), Some (of_nat (st_idle c))]"
proof -
  note l = stat_ok_label [OF assms] and m = stat_ok_small [OF assms]
  let ?r = "fmt_d (int (st_user c)) @ SPC # fmt_d (int (st_nice c)) @ SPC #
     fmt_d (int (st_sys c)) @ SPC # fmt_d (int (st_idle c)) @ SPC # st_rest c @ r"
  obtain b0 g where g: "st_gap c = b0 # g" "isspace b0" using l by (cases "st_gap c") (auto simp: isspace_def)
  have s: "stat_line c @ r = cpu_label c @ b0 # g @ ?r" by (simp add: stat_line_def g(1))
  have "scan_word (cpu_label c @ b0 # g @ ?r) = Some (cpu_label c, b0 # g @ ?r)"
    using l g(2) by (intro scan_word_label) blast+
  moreover have "scan_int (b0 # g @ ?r) = Scan_Ok (int (st_user c)) (drop (length (fmt_d (int (st_user c)))) ?r)"
    using scan_int_gap [of "b0 # g" "int (st_user c)"] l g(1) by simp
  then have "scan_ints 4 (b0 # g @ ?r) =
    [int (st_user c), int (st_nice c), int (st_sys c), int (st_idle c)]"
    by (simp add: scan_int_field numeral_eq_Suc)
  ultimately show ?thesis unfolding s scan_cpu_def using l m by (simp add: to_u32_nat)
qed

lemma isdigit_fmt: "c \<in> set (fmt_d (int n)) \<Longrightarrow> isdigit c"
  using show_nat_digits [of n] by (simp add: fmt_d_def)

lemma fmt_clean: "NUL \<notin> set (fmt_d (int n))" "NL \<notin> set (fmt_d (int n))"
  using isdigit_fmt [of NUL n] isdigit_fmt [of NL n] by (auto simp: isdigit_def)

lemma stat_line_clean:
  assumes "stat_ok c"
  shows "nul_free (stat_line c) \<and> NL \<notin> set (stat_line c) \<and> starts ''cpu'' (stat_line c)"
proof -
  have l: "\<forall>x \<in> set (cpu_label c). \<not> isspace x \<and> x \<noteq> NUL" and r: "nul_free (st_rest c)" "NL \<notin> set (st_rest c)"
    and s: "starts ''cpu'' (cpu_label c)"
    using assms unfolding stat_ok_def by blast+
  have "isspace NL" by (simp add: isspace_def)
  with l have "NL \<notin> set (cpu_label c)" "NUL \<notin> set (cpu_label c)" by blast+
  moreover have "NL \<notin> set (st_gap c)" "NUL \<notin> set (st_gap c)" using stat_ok_label [OF assms] by auto
  moreover have "starts ''cpu'' (stat_line c)" using s unfolding starts_iff stat_line_def by force
  ultimately show ?thesis using r by (simp add: stat_line_def nul_free_def fmt_clean)
qed

text \<open>The counters of a CPU go into its entry.\<close>

definition cpu_entry :: "stat_cpu \<Rightarrow> cpu_usage_t \<Rightarrow> cpu_usage_t" where
  "cpu_entry c u = cpu_update (of_nat (st_user c)) (of_nat (st_nice c)) (of_nat (st_sys c)) (of_nat (st_idle c)) u"

lemma cpu_lines_run:
  "\<forall>c \<in> set cs. stat_ok c \<Longrightarrow> length us = MAX_CPUS \<Longrightarrow> length z = 4 \<Longrightarrow> n \<le> MAX_CPUS \<Longrightarrow>
   \<exists>us'. cpu_lines (map (\<lambda>c. stat_line c @ [NL]) cs) n z us = Some (min MAX_CPUS (n + length cs), us') \<and>
     length us' = MAX_CPUS \<and> (\<forall>i < n. us' ! i = us ! i) \<and>
     (\<forall>i. i < length cs \<and> n + i < MAX_CPUS \<longrightarrow> us' ! (n + i) = cpu_entry (cs ! i) (us ! (n + i)))"
proof (induction cs arbitrary: n z us)
  case Nil
  then show ?case by simp
next
  case (Cons c cs)
  have c: "nul_free (stat_line c)" "starts ''cpu'' (stat_line c)" and ok: "stat_ok c"
    using stat_line_clean Cons.prems(1) by simp_all
  have tw: "takeWhile (\<lambda>c. c \<noteq> NUL) (stat_line c @ [NL]) = stat_line c @ [NL]"
    using c(1) by (intro takeWhile_nul_free_id) simp
  have st: "starts ''cpu'' (stat_line c @ [NL])" using c(2) by (auto simp: starts_iff)
  show ?case
  proof (cases "n < MAX_CPUS")
    case True
    obtain a b d e where z: "z = [a, b, d, e]" using Cons.prems(3)
      by (auto simp: length_Suc_conv numeral_eq_Suc)
    note sc = scan_cpu_line [OF ok, of "[NL]" a b d e]
    have step: "cpu_lines (map (\<lambda>c. stat_line c @ [NL]) (c # cs)) n z us =
      cpu_lines (map (\<lambda>c. stat_line c @ [NL]) cs) (n + 1)
        [Some (of_nat (st_user c)), Some (of_nat (st_nice c)), Some (of_nat (st_sys c)), Some (of_nat (st_idle c))]
        (us[n := cpu_entry c (us ! n)])"
      using True st tw Cons.prems(2) sc by (simp add: Let_def cmem cpu_entry_def z)
    obtain us' where u: "cpu_lines (map (\<lambda>c. stat_line c @ [NL]) cs) (n + 1)
        [Some (of_nat (st_user c)), Some (of_nat (st_nice c)), Some (of_nat (st_sys c)), Some (of_nat (st_idle c))]
        (us[n := cpu_entry c (us ! n)]) = Some (min MAX_CPUS (n + 1 + length cs), us')"
      "length us' = MAX_CPUS" "\<forall>i < n + 1. us' ! i = us[n := cpu_entry c (us ! n)] ! i"
      "\<forall>i. i < length cs \<and> n + 1 + i < MAX_CPUS \<longrightarrow>
        us' ! (n + 1 + i) = cpu_entry (cs ! i) (us[n := cpu_entry c (us ! n)] ! (n + 1 + i))"
      using Cons.IH [of "us[n := cpu_entry c (us ! n)]"
        "[Some (of_nat (st_user c)), Some (of_nat (st_nice c)), Some (of_nat (st_sys c)), Some (of_nat (st_idle c))]"
        "n + 1"] Cons.prems True by auto
    have "us' ! (n + i) = cpu_entry ((c # cs) ! i) (us ! (n + i))"
      if i: "i < length (c # cs)" "n + i < MAX_CPUS" for i
      using u(3,4) True Cons.prems(2) i by (cases i) auto
    moreover have "us' ! i = us ! i" if "i < n" for i using u(3) that by simp
    ultimately show ?thesis unfolding step using u(1,2) by auto
  next
    case False
    then have "cpu_lines (map (\<lambda>c. stat_line c @ [NL]) (c # cs)) n z us =
      cpu_lines (map (\<lambda>c. stat_line c @ [NL]) cs) n z us" by (simp add: Let_def)
    then show ?thesis using Cons.IH [of us z n] Cons.prems False by auto
  qed
qed

text \<open>Subtracting two counters modulo \<open>2 ^ 32\<close> gives their true distance, however often they have
  wrapped, as long as it is below \<open>2 ^ 32\<close>.\<close>

lemma uint_small: "n < 2 ^ 32 \<Longrightarrow> uint (of_nat n :: 32 word) = int n"
  by (simp add: unsigned_of_nat take_bit_nat_eq_self)

lemma uint_counter_diff:
  assumes "a \<le> b" and "b - a < 2 ^ 32"
  shows "uint (of_nat b - of_nat a :: 32 word) = int (b - a)"
  unfolding of_nat_diff [OF assms(1), symmetric] by (rule uint_small [OF assms(2)])

definition busy :: "stat_cpu \<Rightarrow> nat" where
  "busy c = st_user c + st_nice c + st_sys c"

lemma cpu_entry_delta:
  assumes "busy c \<le> busy c'" and "st_idle c \<le> st_idle c'"
    and "(busy c' - busy c) + (st_idle c' - st_idle c) < 2 ^ 32"
  shows "percent (cpu_entry c' (cpu_entry c u)) =
    fmul (fdiv (f64_of_int (int (busy c' - busy c)))
      (f64_of_int (int ((busy c' - busy c) + (st_idle c' - st_idle c))))) (f64_of_int 100)"
proof -
  have b: "of_nat (st_user x) + of_nat (st_nice x) + of_nat (st_sys x) = (of_nat (busy x) :: 32 word)" for x
    by (simp add: busy_def)
  let ?u = "of_nat (busy c') - of_nat (busy c) :: 32 word"
    and ?i = "of_nat (st_idle c') - of_nat (st_idle c) :: 32 word"
  have m: "busy c' - busy c < 2 ^ 32" "st_idle c' - st_idle c < 2 ^ 32" using assms(3) by linarith+
  note u = uint_counter_diff [OF assms(1) m(1)]
  have "?i + ?u = of_nat ((busy c' - busy c) + (st_idle c' - st_idle c))"
    unfolding of_nat_add of_nat_diff [OF assms(1)] of_nat_diff [OF assms(2)] by (rule add.commute)
  then have t: "uint (?i + ?u) = int ((busy c' - busy c) + (st_idle c' - st_idle c))"
    using uint_small [OF assms(3)] by (simp only:)
  have "percent (cpu_entry c' (cpu_entry c u)) = cpu_percent ?i ?u"
    by (simp add: cpu_entry_def cpu_update_def Let_def b)
  then show ?thesis by (simp add: cpu_percent_def Let_def u t)
qed

section \<open>Temperatures\<close>

text \<open>A line of the sensor file: the label, the value and what follows, between bars.\<close>

record ipmi_line =
  il_label :: string
  il_value :: string
  il_more :: "string list"

definition bars :: "string list \<Rightarrow> string" where
  "bars xs = concat (map (\<lambda>x. CHR ''|'' # x) xs)"

definition ipmi_text :: "ipmi_line \<Rightarrow> string" where
  "ipmi_text l = il_label l @ CHR ''|'' # il_value l @ bars (il_more l)"

definition ipmi_ok :: "ipmi_line \<Rightarrow> bool" where
  "ipmi_ok l \<longleftrightarrow> \<not> all_blank (il_label l) \<and> length (ipmi_text l) + 1 < BUFSIZ \<and>
     (\<forall>x \<in> insert (il_label l) (insert (il_value l) (set (il_more l))).
        nul_free x \<and> CHR ''|'' \<notin> set x \<and> NL \<notin> set x)"

text \<open>The chunks from the third on change nothing.\<close>

lemma chunk_loop_tail:
  "i \<ge> 2 \<Longrightarrow> (\<forall>p. q = Some p \<longrightarrow> p < length m \<and> last m = NUL) \<Longrightarrow> chunk_loop k m q i c = Some c"
proof (induction k m q i c rule: chunk_loop.induct)
  case (1 k m i c)
  then show ?case by (subst chunk_loop.simps) simp
next
  case (2 k m p i c)
  then have p: "p < length m" "last m = NUL" by simp_all
  then have "last (drop p m) = NUL" "drop p m \<noteq> []" by (simp_all add: last_drop)
  then have "NUL \<in> set (drop p m)" by (metis last_in_set)
  then obtain s where s: "cstr m p = Some s" using p by (simp add: cstr_def)
  then have "\<exists>x. strsep (CHR ''|'') m p = Some x"
    by (cases "index_of (CHR ''|'') s") (simp_all add: strsep_def)
  then obtain m1 q where st: "strsep (CHR ''|'') m p = Some (m1, q)" by auto
  have "\<forall>p'. q = Some p' \<longrightarrow> p' < length m1 \<and> last m1 = NUL"
  proof (intro allI impI)
    fix p' assume q: "q = Some p'"
    then obtain k' where k': "index_of (CHR ''|'') s = Some k'" "p' = p + k' + 1" "m1 = m[p + k' := NUL]"
      using st s by (auto simp: strsep_def split: option.splits)
    have "p + length s < length m" using s by (rule cstr_split) simp
    then have l: "p' < length m1" using index_of_bound [OF k'(1)] k'(2,3) by simp
    then have "m1 \<noteq> []" "p + k' \<noteq> length m - 1" using k'(2,3) by auto
    then have "last m1 = last m" using k'(3) by (auto simp: last_conv_nth)
    with l p show "p' < length m1 \<and> last m1 = NUL" by simp
  qed
  moreover have "chunk_step k m1 p i c = Some (m1, c)" using "2.prems"(1) by (simp add: chunk_step_def)
  ultimately have "chunk_loop k m1 q (i + 1) c = Some c"
    using "2.IH" [OF st] "2.prems"(1) by auto
  then show ?case using st "2.prems"(1) by (subst chunk_loop.simps) (simp add: chunk_step_def)
qed

lemma bars_clean: "\<forall>x \<in> set xs. nul_free x \<Longrightarrow> nul_free (bars xs)"
  by (induction xs) (auto simp: bars_def)

text \<open>The two chunks of a line that count, for the temperatures.\<close>

lemma chunk_loop_line:
  assumes "ipmi_ok l" and c: "c = \<lparr>label = [], found_label = False, found_value = False, ipmi_value = v\<rparr>"
  shows "chunk_loop 0 (ipmi_text l @ NL # [NUL]) (Some 0) 0 c =
    Some (scan_value (il_value l @ (if il_more l = [] then [NL] else []))
      (c\<lparr>label := snprintf_s 20 (strip (il_label l)), found_label := True\<rparr>))"
proof -
  let ?a = "il_label l" and ?v = "il_value l"
  define b r where "b = ?v @ (if il_more l = [] then [NL] else [])"
    and "r = (if il_more l = [] then [] else bars (il_more l) @ [NL])"
  have cl: "nul_free ?a" "CHR ''|'' \<notin> set ?a" "nul_free b" "CHR ''|'' \<notin> set b" "nul_free r"
    "\<not> all_blank ?a"
    using assms(1) bars_clean [of "il_more l"] by (auto simp: ipmi_ok_def b_def r_def)
  have r: "r = [] \<or> (\<exists>t. r = CHR ''|'' # t)" by (cases "il_more l") (auto simp: r_def bars_def)
  have m: "ipmi_text l @ NL # [NUL] = ?a @ CHR ''|'' # b @ r @ [NUL]"
    by (simp add: ipmi_text_def b_def r_def bars_def)
  let ?m1 = "?a @ NUL # b @ r @ [NUL]"
  have c0: "cstr (?a @ CHR ''|'' # b @ r @ [NUL]) 0 = Some (?a @ CHR ''|'' # b @ r)"
    using cl cstr_start [of "?a @ CHR ''|'' # b @ r" "[]"] by simp
  have s0: "strsep (CHR ''|'') (?a @ CHR ''|'' # b @ r @ [NUL]) 0 = Some (?m1, Some (length ?a + 1))"
    using cl c0 by (simp add: strsep_def list_update_append)
  obtain z where z: "length z = length ?a - length (strip ?a)" "last (NUL # z) = NUL"
    "trim ?m1 0 = Some (strip ?a @ NUL # z @ b @ r @ [NUL])"
    using trim_strip [OF cl(1,6), of "[]" "b @ r @ [NUL]"] by auto
  let ?m2 = "strip ?a @ NUL # z @ b @ r @ [NUL]"
  let ?c1 = "c\<lparr>label := snprintf_s 20 (strip ?a), found_label := True\<rparr>"
  have st0: "chunk_step 0 ?m1 0 0 c = Some (?m2, ?c1)"
    using z(3) cl cstr_start [of "strip ?a" "z @ b @ r @ [NUL]"] by (simp add: chunk_step_def)
  let ?pre = "strip ?a @ NUL # z"
  have lp: "length ?pre = length ?a + 1" using z(1) strip_length [of ?a] by simp
  have m2: "?m2 = ?pre @ (b @ r) @ NUL # []" by simp
  have c1: "cstr ?m2 (length ?a + 1) = Some (b @ r)"
    unfolding m2 lp [symmetric] by (rule cstr_append) (use cl in simp)
  have "\<exists>m3 q. strsep (CHR ''|'') ?m2 (length ?a + 1) = Some (m3, q) \<and>
    cstr m3 (length ?a + 1) = Some b \<and> (\<forall>p. q = Some p \<longrightarrow> p < length m3 \<and> last m3 = NUL)"
  proof (cases "r = []")
    case True
    then have "index_of (CHR ''|'') (b @ r) = None" using cl by (simp add: index_of_None)
    then have "strsep (CHR ''|'') ?m2 (length ?a + 1) = Some (?m2, None)" using c1 by (simp add: strsep_def)
    with c1 True show ?thesis by auto
  next
    case False
    then obtain t where t: "r = CHR ''|'' # t" using r by blast
    let ?m3 = "?pre @ b @ NUL # t @ [NUL]"
    have "strsep (CHR ''|'') ?m2 (length ?a + 1) = Some (?m3, Some (length ?a + 1 + length b + 1))"
    proof -
      have "?m2[length ?pre + length b := NUL] = ?m3"
        by (simp add: t list_update_append)
      then show ?thesis using c1 cl lp by (simp add: strsep_def t)
    qed
    moreover have "cstr ?m3 (length ?a + 1) = Some b"
      unfolding lp [symmetric] by (rule cstr_append) (rule cl)
    moreover have "length ?a + 1 + length b + 1 < length ?m3" using lp by simp
    ultimately show ?thesis by auto
  qed
  then obtain m3 q where s1: "strsep (CHR ''|'') ?m2 (length ?a + 1) = Some (m3, q)"
    "cstr m3 (length ?a + 1) = Some b" "\<forall>p. q = Some p \<longrightarrow> p < length m3 \<and> last m3 = NUL" by blast
  have st1: "chunk_step 0 m3 (length ?a + 1) 1 ?c1 = Some (m3, scan_value b ?c1)"
    using s1(2) by (simp add: chunk_step_def)
  have e: "chunk_loop 0 m3 q 2 (scan_value b ?c1) = Some (scan_value b ?c1)"
    by (rule chunk_loop_tail) (use s1(3) in simp_all)
  have "chunk_loop 0 ?m2 (Some (length ?a + 1)) 1 ?c1 = Some (scan_value b ?c1)"
    using s1(1) st1 e by (subst chunk_loop.simps) (simp add: numeral_2_eq_2)
  then have "chunk_loop 0 (?a @ CHR ''|'' # b @ r @ [NUL]) (Some 0) 0 c = Some (scan_value b ?c1)"
    using s0 st0 by (subst chunk_loop.simps) simp
  then show ?thesis unfolding m b_def .
qed

text \<open>The readings of a file: a value that cannot be read is left out, an empty value repeats the
  one before it.\<close>

definition value_text :: "ipmi_line \<Rightarrow> string" where
  "value_text l = il_value l @ (if il_more l = [] then [NL] else [])"

fun readings :: "int \<Rightarrow> ipmi_line list \<Rightarrow> (string \<times> int) list" where
  "readings v [] = []"
| "readings v (l # ls) = (case scan_int (value_text l) of
     Scan_Ok n r \<Rightarrow> (let n = to_i32 (clamp_i64 n) in
       (take 15 (strip (il_label l)), n) # readings n ls)
   | Scan_Eof \<Rightarrow> (take 15 (strip (il_label l)), v) # readings v ls
   | Scan_Fail \<Rightarrow> readings v ls)"

definition temps_shown :: "sensors \<Rightarrow> (string \<times> f64) list" where
  "temps_shown s = map (\<lambda>t. (temp_name t, temp_value t)) (take (temp_qty s) (temp_data s))"

lemma put_temp_shown:
  assumes "length (temp_data s) = MAX_TEMPS" and "temp_qty s \<le> MAX_TEMPS"
  shows "\<exists>s'. put_temp n v s = Some s' \<and> length (temp_data s') = MAX_TEMPS \<and> temp_qty s' \<le> MAX_TEMPS \<and>
    temps_shown s' = take MAX_TEMPS (temps_shown s @ [(take 15 n, f64_of_int v)])"
proof (cases "temp_qty s < MAX_TEMPS")
  case True
  then have "put_temp n v s = Some (s\<lparr>temp_data := (temp_data s)[temp_qty s :=
      (temp_data s ! temp_qty s)\<lparr>temp_name := snprintf_s 16 n, temp_value := f64_of_int v\<rparr>],
      temp_qty := temp_qty s + 1\<rparr>)"
    using assms(1) by (simp add: put_temp_def cmem)
  then show ?thesis using True assms
    by (simp add: temps_shown_def take_Suc_conv_app_nth snprintf_s_def)
next
  case False
  then have "length (temps_shown s) = MAX_TEMPS" using assms by (simp add: temps_shown_def)
  with False assms show ?thesis by (simp add: put_temp_def)
qed

lemma ipmi_text_clean: "ipmi_ok l \<Longrightarrow> NL \<notin> set (ipmi_text l) \<and> length (ipmi_text l) + 1 < BUFSIZ"
  unfolding ipmi_ok_def by (auto simp: ipmi_text_def bars_def simp del: One_nat_def)

lemma line_ends: "ipmi_ok l \<Longrightarrow> (ipmi_text l @ [NL]) @ [NUL] = ipmi_text l @ NL # [NUL]"
  by simp

lemma sensor_lines_temps:
  "\<forall>l \<in> set ls. ipmi_ok l \<Longrightarrow> length (temp_data s) = MAX_TEMPS \<Longrightarrow> temp_qty s \<le> MAX_TEMPS \<Longrightarrow>
   \<exists>v' s'. sensor_lines 0 put_temp (map (\<lambda>l. ipmi_text l @ [NL]) ls) (v, s) = Some (v', s') \<and>
     length (temp_data s') = MAX_TEMPS \<and> temp_qty s' \<le> MAX_TEMPS \<and>
     temps_shown s' = take MAX_TEMPS (temps_shown s @ map (\<lambda>(n, x). (n, f64_of_int x)) (readings v ls))"
proof (induction ls arbitrary: v s)
  case Nil
  then have "length (temps_shown s) \<le> MAX_TEMPS" by (simp add: temps_shown_def)
  with Nil show ?case by simp
next
  case (Cons l ls)
  let ?c = "scan_value (value_text l) \<lparr>label = snprintf_s 20 (strip (il_label l)), found_label = True,
    found_value = False, ipmi_value = v\<rparr>"
  have ok: "ipmi_ok l" using Cons.prems(1) by simp
  have chunk: "chunk_loop 0 ((ipmi_text l @ [NL]) @ [NUL]) (Some 0) 0
    \<lparr>label = [], found_label = False, found_value = False, ipmi_value = v\<rparr> = Some ?c"
    using chunk_loop_line [OF ok refl, of v] by (simp add: value_text_def)
  have lab: "label ?c = snprintf_s 20 (strip (il_label l))" "found_label ?c"
    by (auto simp: scan_value_def split: scan.splits)
  have tk: "take 15 (snprintf_s 20 x) = take 15 x" for x by (simp add: snprintf_s_def)
  show ?case
  proof (cases "found_value ?c")
    case True
    obtain s1 where s1: "put_temp (label ?c) (ipmi_value ?c) s = Some s1" "length (temp_data s1) = MAX_TEMPS"
      "temp_qty s1 \<le> MAX_TEMPS"
      "temps_shown s1 = take MAX_TEMPS (temps_shown s @ [(take 15 (label ?c), f64_of_int (ipmi_value ?c))])"
      using put_temp_shown [OF Cons.prems(2,3)] by blast
    obtain v' s' where r: "sensor_lines 0 put_temp (map (\<lambda>l. ipmi_text l @ [NL]) ls) (ipmi_value ?c, s1) = Some (v', s')"
      "length (temp_data s') = MAX_TEMPS" "temp_qty s' \<le> MAX_TEMPS"
      "temps_shown s' = take MAX_TEMPS (temps_shown s1 @ map (\<lambda>(n, x). (n, f64_of_int x)) (readings (ipmi_value ?c) ls))"
      using Cons.IH [OF _ s1(2,3)] Cons.prems(1) by fastforce
    have "readings v (l # ls) = (take 15 (strip (il_label l)), ipmi_value ?c) # readings (ipmi_value ?c) ls"
      using True by (auto simp: scan_value_def Let_def split: scan.splits)
    then have "temps_shown s' = take MAX_TEMPS (temps_shown s @ map (\<lambda>(n, x). (n, f64_of_int x)) (readings v (l # ls)))"
      unfolding r(4) s1(4) lab(1) tk by (cases "length (temps_shown s) < MAX_TEMPS") simp_all
    then show ?thesis using chunk True lab(2) s1(1) r(1-3) by simp
  next
    case False
    then have "readings v (l # ls) = readings v ls" "ipmi_value ?c = v"
      by (auto simp: scan_value_def split: scan.splits)
    then show ?thesis using chunk False Cons.IH [OF _ Cons.prems(2,3), of v] Cons.prems(1) by simp
  qed
qed

section \<open>Network cards\<close>

definition nic_listed :: "ifreq \<Rightarrow> bool" where
  "nic_listed r \<longleftrightarrow> hwaddr r \<noteq> None \<and> \<not> starts ''lo'' (ifr_name r) \<and> addr r \<noteq> None"

definition nic_entry :: "ifreq \<Rightarrow> nic_data_t" where
  "nic_entry r = \<lparr>nic_name = take 15 (ifr_name r), macaddr = mac_colons (the (hwaddr r)),
     macaddr_num = mac_plain (the (hwaddr r)), ipaddr = the (addr r)\<rparr>"

lemma nic_loop_run:
  "\<forall>r \<in> set rs. \<forall>ip. addr r = Some ip \<longrightarrow> length ip < 32 \<Longrightarrow> n + length rs \<le> length ns \<Longrightarrow>
   \<exists>ns'. nic_loop rs n ns = Some (n + length (filter nic_listed rs), ns') \<and> length ns' = length ns \<and>
     take (n + length (filter nic_listed rs)) ns' = take n ns @ map nic_entry (filter nic_listed rs)"
proof (induction rs arbitrary: n ns)
  case Nil
  then show ?case by simp
next
  case (Cons r rs)
  show ?case
  proof (cases "hwaddr r = None \<or> starts ''lo'' (ifr_name r)")
    case True
    then have "nic_loop (r # rs) n ns = nic_loop rs n ns" "\<not> nic_listed r"
      by (auto simp: nic_listed_def split: option.splits)
    then show ?thesis using Cons.IH [of n ns] Cons.prems by simp
  next
    case False
    then obtain b where b: "hwaddr r = Some b" "\<not> starts ''lo'' (ifr_name r)" by auto
    have n: "n < length ns" using Cons.prems(2) by simp
    let ?x = "(ns ! n)\<lparr>nic_name := snprintf_s 16 (ifr_name r), macaddr := mac_colons b, macaddr_num := mac_plain b\<rparr>"
    show ?thesis
    proof (cases "addr r")
      case None
      then have "nic_loop (r # rs) n ns = nic_loop rs n (ns[n := ?x])" "\<not> nic_listed r"
        using b n by (simp_all add: cmem nic_listed_def)
      then show ?thesis using Cons.IH [of n "ns[n := ?x]"] Cons.prems by simp
    next
      case (Some ip)
      let ?y = "?x\<lparr>ipaddr := ip\<rparr>"
      have y: "?y = nic_entry r" using b Some by (simp add: nic_entry_def snprintf_s_def)
      have l: "nic_listed r" using b Some by (simp add: nic_listed_def)
      have "nic_loop (r # rs) n ns = nic_loop rs (n + 1) (ns[n := ?y])"
        using b n Some Cons.prems(1) by (simp add: cmem)
      moreover have "take (n + 1) (ns[n := ?y]) = take n ns @ [nic_entry r]"
        unfolding y using n by (simp add: take_Suc_conv_app_nth)
      ultimately show ?thesis using Cons.IH [of "n + 1" "ns[n := ?y]"] Cons.prems l by auto
    qed
  qed
qed

section \<open>The number of CPUs\<close>

text \<open>\<open>cpu_info.qty\<close> is the number of lines that start with \<open>processor\<close>.\<close>

definition processors :: "string \<Rightarrow> nat" where
  "processors c = length (filter (\<lambda>l. starts ''processor'' (takeWhile (\<lambda>c. c \<noteq> NUL) l)) (fgets_all BUFSIZ c))"

lemma cpu_info_lines_count:
  "fold_opt cpu_info_line ls (n, ci) = Some (n', ci') \<Longrightarrow>
   n' = n + length (filter (\<lambda>l. starts ''processor'' (takeWhile (\<lambda>c. c \<noteq> NUL) l)) ls)"
proof (induction ls arbitrary: n ci)
  case Nil
  then show ?case by simp
next
  case (Cons l ls)
  then obtain n1 ci1 where l: "cpu_info_line l (n, ci) = Some (n1, ci1)" "fold_opt cpu_info_line ls (n1, ci1) = Some (n', ci')"
    by (auto split: bind_splits)
  have "n1 = n + (if starts ''processor'' (takeWhile (\<lambda>c. c \<noteq> NUL) l) then 1 else 0)"
    using l(1) by (auto simp: cpu_info_line_def Let_def split: if_splits bind_splits)
  with Cons.IH [OF l(2)] show ?case by simp
qed

lemma get_cpu_info_qty: "get_cpu_info (Some c) s = Some s' \<Longrightarrow> qty (cpu_info s') = int (processors c)"
  by (auto simp: get_cpu_info_def processors_def split: bind_splits dest!: cpu_info_lines_count)

section \<open>Reading whole files\<close>

text \<open>Lines that are not about a CPU change nothing.\<close>

lemma cpu_lines_other:
  "\<forall>l \<in> set ms. \<not> starts ''cpu'' (takeWhile (\<lambda>c. c \<noteq> NUL) l) \<Longrightarrow>
   cpu_lines (ls @ ms) n cs us = cpu_lines ls n cs us"
proof (induction ls n cs us rule: cpu_lines.induct)
  case (1 n cs us)
  then show ?case by (induction ms) (auto simp: Let_def)
next
  case (2 l ls n cs us)
  then show ?case
    by (auto simp: Let_def simp del: starts_append intro!: bind_option_cong split: option.splits list.splits)
qed

definition proc_stat :: "stat_cpu list \<Rightarrow> string \<Rightarrow> string" where
  "proc_stat cs rest = concat (map (\<lambda>c. stat_line c @ [NL]) cs) @ rest"

definition no_cpu :: "string \<Rightarrow> bool" where
  "no_cpu rest \<longleftrightarrow> (\<forall>l \<in> set (fgets_all BUFSIZ rest). \<not> starts ''cpu'' (takeWhile (\<lambda>c. c \<noteq> NUL) l))"

lemma no_cpu_line:
  assumes "NL \<notin> set l" and "length l + 1 < BUFSIZ" and "nul_free l" and "\<not> starts ''cpu'' (l @ [NL])"
  shows "no_cpu (l @ [NL])"
proof -
  have "fgets_all BUFSIZ (l @ [NL]) = [l @ [NL]]"
    using fgets_all_lines [OF BUFSIZ_gt, of "[l]"] assms(1,2) by simp
  moreover have "takeWhile (\<lambda>c. c \<noteq> NUL) (l @ [NL]) = l @ [NL]"
    using assms(3) by (intro takeWhile_nul_free_id) simp
  ultimately show ?thesis using assms(4) by (simp add: no_cpu_def)
qed

lemma concat_lines_end: "concat (map (\<lambda>l. l @ [NL]) ls) = [] \<or> last (concat (map (\<lambda>l. l @ [NL]) ls)) = NL"
  by (induction ls) (auto simp: last_append)

lemma stat_ok_fits: "stat_ok c \<Longrightarrow> length (stat_line c) + 1 < BUFSIZ"
  unfolding stat_ok_def by blast

lemma proc_stat_lines:
  assumes "\<forall>c \<in> set cs. stat_ok c"
  shows "fgets_all BUFSIZ (proc_stat cs rest) = map (\<lambda>c. stat_line c @ [NL]) cs @ fgets_all BUFSIZ rest"
proof -
  let ?ls = "map stat_line cs"
  have "\<forall>l \<in> set ?ls. NL \<notin> set l \<and> length l + 1 < BUFSIZ"
    using assms stat_line_clean stat_ok_fits by (simp del: One_nat_def)
  then have "fgets_all BUFSIZ (concat (map (\<lambda>l. l @ [NL]) ?ls)) = map (\<lambda>l. l @ [NL]) ?ls"
    by (rule fgets_all_lines [OF BUFSIZ_gt])
  then show ?thesis
    using fgets_all_append [OF BUFSIZ_gt concat_lines_end [of ?ls], of rest]
    by (simp add: proc_stat_def comp_def)
qed

lemma get_cpu_usage_run:
  assumes "\<forall>c \<in> set cs. stat_ok c" and "no_cpu rest" and "length (cpu_usage s) = MAX_CPUS"
  shows "\<exists>us. get_cpu_usage (Some (proc_stat cs rest)) s =
      Some (s\<lparr>cpu_usage := us, cpu_qty := int (min MAX_CPUS (length cs))\<rparr>) \<and> length us = MAX_CPUS \<and>
    (\<forall>i. i < length cs \<and> i < MAX_CPUS \<longrightarrow> us ! i = cpu_entry (cs ! i) (cpu_usage s ! i))"
proof -
  obtain us where u: "cpu_lines (map (\<lambda>c. stat_line c @ [NL]) cs) 0 [None, None, None, None] (cpu_usage s) =
      Some (min MAX_CPUS (length cs), us)" "length us = MAX_CPUS"
    "\<forall>i. i < length cs \<and> i < MAX_CPUS \<longrightarrow> us ! i = cpu_entry (cs ! i) (cpu_usage s ! i)"
    using cpu_lines_run [OF assms(1,3), of "[None, None, None, None]" 0] by auto
  have "cpu_lines (fgets_all BUFSIZ (proc_stat cs rest)) 0 [None, None, None, None] (cpu_usage s) =
    Some (min MAX_CPUS (length cs), us)"
    using u(1) assms(2) by (simp add: proc_stat_lines [OF assms(1)] cpu_lines_other no_cpu_def)
  with u show ?thesis by (intro exI [of _ us]) (simp add: get_cpu_usage_def)
qed

section \<open>Properties\<close>

text \<open>C15: Two readings of a \<open>/proc/stat\<close> with the same CPU lines give each of its first sixteen lines
  the share of the busy ticks in all ticks between them, in percent and rounded as a \<open>double\<close>: the entry
  0 belongs to the line of the whole machine, the entries from 1 on to the first fifteen CPUs. The
  counters of the file may exceed 32 bits and wrap between the readings: only the ticks in between must
  be fewer than \<open>2 ^ 32\<close>.\<close>

theorem cpu_usage_percent:
  assumes "\<forall>c \<in> set cs. stat_ok c" and "\<forall>c \<in> set cs'. stat_ok c" and "no_cpu rest" and "no_cpu rest'"
    and "length (cpu_usage s) = MAX_CPUS" and "length cs' = length cs"
    and "\<forall>i < length cs. busy (cs ! i) \<le> busy (cs' ! i) \<and> st_idle (cs ! i) \<le> st_idle (cs' ! i) \<and>
      (busy (cs' ! i) - busy (cs ! i)) + (st_idle (cs' ! i) - st_idle (cs ! i)) < 2 ^ 32"
  shows "\<exists>s1 s2. get_cpu_usage (Some (proc_stat cs rest)) s = Some s1 \<and>
    get_cpu_usage (Some (proc_stat cs' rest')) s1 = Some s2 \<and>
    cpu_qty s2 = int (min MAX_CPUS (length cs)) \<and>
    (\<forall>i < min MAX_CPUS (length cs). percent (cpu_usage s2 ! i) =
      (let used = busy (cs' ! i) - busy (cs ! i); idle = st_idle (cs' ! i) - st_idle (cs ! i)
       in fmul (fdiv (f64_of_int (int used)) (f64_of_int (int (used + idle)))) (f64_of_int 100)))"
proof -
  obtain us where u: "get_cpu_usage (Some (proc_stat cs rest)) s =
      Some (s\<lparr>cpu_usage := us, cpu_qty := int (min MAX_CPUS (length cs))\<rparr>)" "length us = MAX_CPUS"
    "\<forall>i. i < length cs \<and> i < MAX_CPUS \<longrightarrow> us ! i = cpu_entry (cs ! i) (cpu_usage s ! i)"
    using get_cpu_usage_run [OF assms(1,3,5)] by blast
  let ?s = "s\<lparr>cpu_usage := us, cpu_qty := int (min MAX_CPUS (length cs))\<rparr>"
  obtain us' where u': "get_cpu_usage (Some (proc_stat cs' rest')) ?s =
      Some (?s\<lparr>cpu_usage := us', cpu_qty := int (min MAX_CPUS (length cs'))\<rparr>)"
    "\<forall>i. i < length cs' \<and> i < MAX_CPUS \<longrightarrow> us' ! i = cpu_entry (cs' ! i) (us ! i)"
    using get_cpu_usage_run [OF assms(2,4), of ?s] u(2) by auto
  have "percent (us' ! i) = (let used = busy (cs' ! i) - busy (cs ! i); idle = st_idle (cs' ! i) - st_idle (cs ! i)
       in fmul (fdiv (f64_of_int (int used)) (f64_of_int (int (used + idle)))) (f64_of_int 100))"
    if i: "i < min MAX_CPUS (length cs)" for i
  proof -
    have e: "us' ! i = cpu_entry (cs' ! i) (cpu_entry (cs ! i) (cpu_usage s ! i))"
      using i u(3) u'(2) assms(6) by simp
    have m: "i < length cs" using i by simp
    show ?thesis unfolding e Let_def by (rule cpu_entry_delta) (use m assms(7) in blast)+
  qed
  then show ?thesis using u(1) u'(1) assms(6) by simp
qed

definition no_sensors :: sensors where
  "no_sensors = \<lparr>cpu_qty = 0,
     cpu_usage = replicate MAX_CPUS \<lparr>cpu_idle = 0, cpu_busy = 0, last_idle = 0, last_usage = 0, percent = Fin False 0 0\<rparr>,
     cpu_info = \<lparr>qty = 0, model = [], speed = Fin False 0 0\<rparr>,
     mem_info = \<lparr>mem_total = 0, mem_free = 0, mem_percent = Fin False 0 0,
       swap_total = 0, swap_free = 0, swap_percent = Fin False 0 0\<rparr>,
     temp_qty = 0, temp_data = replicate MAX_TEMPS \<lparr>temp_name = [], temp_value = Fin False 0 0\<rparr>,
     fan_qty = 0, fan_data = replicate MAX_FANS \<lparr>fan_name = [], fan_value = 0\<rparr>,
     disk_qty = 0, disk_info = replicate MAX_DISKS
       \<lparr>device = replicate 30 NUL, disk_size = Fin False 0 0, performance = Fin False 0 0\<rparr>,
     nic_qty = 0, nic_data = replicate MAX_NUM_NICS \<lparr>nic_name = [], macaddr = [], macaddr_num = [], ipaddr = []\<rparr>\<rparr>"

definition no_log :: log_state where
  "no_log = \<lparr>clock = 0, start_time = 0, log_win = [], log_file = None, logdev_file = None,
     serial_enabled = False, serial_file = None, log_pos = - 1, syslog_pos = - 1\<rparr>"

lemma no_sensors_ok: "sensors_ok no_sensors"
  by (simp add: sensors_ok_def no_sensors_def MAX_CPUS_def MAX_TEMPS_def MAX_FANS_def MAX_DISKS_def MAX_NUM_NICS_def)

text \<open>A machine with two CPUs, of which one works: the sum over both has passed \<open>2 ^ 32\<close>.\<close>

definition two_cpus :: "nat \<Rightarrow> nat \<Rightarrow> stat_cpu list" where
  "two_cpus u i =
     [\<lparr>cpu_label = ''cpu'', st_gap = ''  '', st_user = 4294967290 + u, st_nice = 0, st_sys = 1, st_idle = 7 + 2 * i, st_rest = ''0 0''\<rparr>,
      \<lparr>cpu_label = ''cpu0'', st_gap = '' '', st_user = 4294960000 + u, st_nice = 0, st_sys = 1, st_idle = 3 + i, st_rest = ''0 0''\<rparr>,
      \<lparr>cpu_label = ''cpu1'', st_gap = '' '', st_user = 7290, st_nice = 0, st_sys = 0, st_idle = 4 + i, st_rest = ''0 0''\<rparr>]"

lemma stat_line_ok:
  assumes "starts ''cpu'' l" "length l < 12" "\<forall>x \<in> set l. \<not> isspace x \<and> x \<noteq> NUL"
    and "g \<in> {'' '', ''  ''}" and "u < 10 ^ 10" "s < 10 ^ 10" "i < 10 ^ 10"
  shows "stat_ok \<lparr>cpu_label = l, st_gap = g, st_user = u, st_nice = 0, st_sys = s, st_idle = i, st_rest = ''0 0''\<rparr>"
proof -
  have f: "length (fmt_d (int n)) \<le> 10" if "n < 10 ^ 10" for n
    using show_nat_short [OF that] by (simp add: fmt_d_def)
  have "length (fmt_d (int u)) \<le> 10" "length (fmt_d (int 0)) \<le> 10" "length (fmt_d (int s)) \<le> 10" "length (fmt_d (int i)) \<le> 10"
    using assms(5-7) by (intro f; simp)+
  moreover have "length g \<le> 2" "g \<noteq> []" "set g \<subseteq> {SPC, TAB}" using assms(4) by auto
  ultimately show ?thesis using assms(1-3,5-7)
    by (simp add: stat_ok_def stat_line_def BUFSIZ_def nul_free_def)
qed

lemma two_cpus_ok: "u < 100 \<Longrightarrow> i < 100 \<Longrightarrow> \<forall>c \<in> set (two_cpus u i). stat_ok c"
  unfolding two_cpus_def list.set ball_simps
  by (intro conjI stat_line_ok) (simp_all add: starts_def isspace_def)

lemma cpu_usage_percent_witness:
  "\<exists>s1 s2. get_cpu_usage (Some (proc_stat (two_cpus 0 0) (''intr 5'' @ [NL]))) no_sensors = Some s1 \<and>
    get_cpu_usage (Some (proc_stat (two_cpus 30 5) (''intr 6'' @ [NL]))) s1 = Some s2 \<and> cpu_qty s2 = 3 \<and>
    percent (cpu_usage s2 ! 0) = fmul (fdiv (f64_of_int 30) (f64_of_int 40)) (f64_of_int 100) \<and>
    percent (cpu_usage s2 ! 2) = fmul (fdiv (f64_of_int 0) (f64_of_int 5)) (f64_of_int 100)"
proof -
  have r: "no_cpu (''intr 5'' @ [NL])" "no_cpu (''intr 6'' @ [NL])"
    by (rule no_cpu_line; simp add: BUFSIZ_def starts_def nul_free_def)+
  have l: "length (two_cpus u i) = 3" for u i by (simp add: two_cpus_def)
  have d: "busy (two_cpus 30 5 ! i) - busy (two_cpus 0 0 ! i) = (if i = 2 then 0 else 30)"
    "st_idle (two_cpus 30 5 ! i) - st_idle (two_cpus 0 0 ! i) = (if i = 0 then 10 else 5)"
    "busy (two_cpus 0 0 ! i) \<le> busy (two_cpus 30 5 ! i)" "st_idle (two_cpus 0 0 ! i) \<le> st_idle (two_cpus 30 5 ! i)"
    if "i < 3" for i
  proof -
    have "i = 0 \<or> i = 1 \<or> i = 2" using that by linarith
    then show "busy (two_cpus 30 5 ! i) - busy (two_cpus 0 0 ! i) = (if i = 2 then 0 else 30)"
      "st_idle (two_cpus 30 5 ! i) - st_idle (two_cpus 0 0 ! i) = (if i = 0 then 10 else 5)"
      "busy (two_cpus 0 0 ! i) \<le> busy (two_cpus 30 5 ! i)" "st_idle (two_cpus 0 0 ! i) \<le> st_idle (two_cpus 30 5 ! i)"
      by (elim disjE; simp add: two_cpus_def busy_def)+
  qed
  have n: "length (cpu_usage no_sensors) = MAX_CPUS" using no_sensors_ok by (simp add: sensors_ok_def)
  have k: "\<forall>i < length (two_cpus 0 0). busy (two_cpus 0 0 ! i) \<le> busy (two_cpus 30 5 ! i) \<and>
      st_idle (two_cpus 0 0 ! i) \<le> st_idle (two_cpus 30 5 ! i) \<and>
      (busy (two_cpus 30 5 ! i) - busy (two_cpus 0 0 ! i)) + (st_idle (two_cpus 30 5 ! i) - st_idle (two_cpus 0 0 ! i)) < 2 ^ 32"
    unfolding l using d by simp
  obtain s1 s2 where s: "get_cpu_usage (Some (proc_stat (two_cpus 0 0) (''intr 5'' @ [NL]))) no_sensors = Some s1"
    "get_cpu_usage (Some (proc_stat (two_cpus 30 5) (''intr 6'' @ [NL]))) s1 = Some s2" "cpu_qty s2 = int (min MAX_CPUS 3)"
    "\<forall>i < min MAX_CPUS 3. percent (cpu_usage s2 ! i) =
      (let used = busy (two_cpus 30 5 ! i) - busy (two_cpus 0 0 ! i); idle = st_idle (two_cpus 30 5 ! i) - st_idle (two_cpus 0 0 ! i)
       in fmul (fdiv (f64_of_int (int used)) (f64_of_int (int (used + idle)))) (f64_of_int 100))"
    using cpu_usage_percent [OF two_cpus_ok two_cpus_ok r n _ k] unfolding l by auto
  show ?thesis using s(1-3) s(4) [rule_format, of 0] s(4) [rule_format, of 2] d [of 0] d [of 2]
    by (intro exI [of _ s1] exI [of _ s2]) (simp add: MAX_CPUS_def)
qed

text \<open>C16: The temperature table after reading a sensor file (and no fan file): the first 50
  readings of the file, each under the first fifteen characters of its label without outer blanks.
  A value that is not a number is left out; a value that is missing altogether is not: the reading
  of the line before is shown again under the new label, because \<open>!!sscanf\<close> takes \<open>EOF\<close> for
  success.\<close>

theorem ipmi_temps_table:
  assumes "\<forall>l \<in> set ls. ipmi_ok l" and "length (temp_data s) = MAX_TEMPS"
  shows "\<exists>s'. get_ipmi_sensors (Some (concat (map (\<lambda>l. ipmi_text l @ [NL]) ls))) None s = Some s' \<and>
    temps_shown s' = take MAX_TEMPS (map (\<lambda>(n, x). (n, f64_of_int x)) (readings 0 ls))"
proof -
  let ?s = "s\<lparr>fan_qty := 0, temp_qty := 0\<rparr>"
  have "\<forall>l \<in> set (map ipmi_text ls). NL \<notin> set l \<and> length l + 1 < BUFSIZ"
    using assms(1) ipmi_text_clean by (simp del: One_nat_def)
  then have "fgets_all BUFSIZ (concat (map (\<lambda>l. l @ [NL]) (map ipmi_text ls))) = map (\<lambda>l. l @ [NL]) (map ipmi_text ls)"
    by (rule fgets_all_lines [OF BUFSIZ_gt])
  then have f: "fgets_all BUFSIZ (concat (map (\<lambda>l. ipmi_text l @ [NL]) ls)) = map (\<lambda>l. ipmi_text l @ [NL]) ls"
    by (simp add: comp_def)
  obtain v' s' where "sensor_lines 0 put_temp (map (\<lambda>l. ipmi_text l @ [NL]) ls) (0, ?s) = Some (v', s')"
    "temps_shown s' = take MAX_TEMPS (temps_shown ?s @ map (\<lambda>(n, x). (n, f64_of_int x)) (readings 0 ls))"
    using sensor_lines_temps [OF assms(1), of ?s 0] assms(2) by auto
  then show ?thesis using f by (simp add: get_ipmi_sensors_def sensor_file_def temps_shown_def)
qed

lemma ipmi_temps_table_witness:
  "\<exists>s'. get_ipmi_sensors (Some (concat (map (\<lambda>l. ipmi_text l @ [NL])
       [\<lparr>il_label = '' CPU0 '', il_value = '' 45 '', il_more = [''degrees'']\<rparr>,
        \<lparr>il_label = ''CPU1'', il_value = '' '', il_more = [''na'']\<rparr>,
        \<lparr>il_label = ''Sys'', il_value = ''na'', il_more = []\<rparr>]))) None no_sensors = Some s' \<and>
    temps_shown s' = [(''CPU0'', f64_of_int 45), (''CPU1'', f64_of_int 45)]"
  using ipmi_temps_table [of "[\<lparr>il_label = '' CPU0 '', il_value = '' 45 '', il_more = [''degrees'']\<rparr>,
        \<lparr>il_label = ''CPU1'', il_value = '' '', il_more = [''na'']\<rparr>,
        \<lparr>il_label = ''Sys'', il_value = ''na'', il_more = []\<rparr>]" no_sensors] no_sensors_ok
  by (simp add: sensors_ok_def ipmi_ok_def ipmi_text_def bars_def BUFSIZ_def nul_free_def value_text_def
      strip_eval all_blank_def scan_int_def scan_digits_def isspace_def isdigit_def digit_val_def carith
      clamp_i64_def MAX_TEMPS_def)

text \<open>C17: With the list of the interfaces, at most 32 of them and none with a long address text, the
  card table holds the listed interfaces in order, each with its name cut to fifteen characters,
  its hardware address in both notations and its internet address. An interface is listed when both
  addresses can be read and its name does not start with \<open>lo\<close>.\<close>

theorem get_nic_info_table:
  assumes "length rs \<le> MAX_NUM_NICS" and "\<forall>r \<in> set rs. \<forall>ip. addr r = Some ip \<longrightarrow> length ip < 32"
    and "length (nic_data s) = MAX_NUM_NICS"
  shows "\<exists>s'. get_nic_info True True (Conf rs) (s, w) = Some (s', w) \<and>
    take (nic_qty s') (nic_data s') = map nic_entry (filter nic_listed rs) \<and>
    nic_qty s' = length (filter nic_listed rs)"
  using nic_loop_run [of rs 0 "nic_data s"] assms by (auto simp: get_nic_info_def)

lemma get_nic_info_table_witness:
  "\<exists>s'. get_nic_info True True (Conf
       [\<lparr>ifr_name = ''lo'', hwaddr = Some [0, 0, 0, 0, 0, 0], addr = Some ''127.0.0.1''\<rparr>,
        \<lparr>ifr_name = ''eth0'', hwaddr = Some [0, 37, 144, 1, 2, 171], addr = Some ''10.0.0.5''\<rparr>,
        \<lparr>ifr_name = ''eth1'', hwaddr = Some [0, 37, 144, 1, 2, 172], addr = None\<rparr>])
       (no_sensors, no_log) = Some (s', no_log) \<and>
    take (nic_qty s') (nic_data s') = [\<lparr>nic_name = ''eth0'', macaddr = ''00:25:90:01:02:ab'',
      macaddr_num = ''0025900102ab'', ipaddr = ''10.0.0.5''\<rparr>]"
  using get_nic_info_table [of "[\<lparr>ifr_name = ''lo'', hwaddr = Some [0, 0, 0, 0, 0, 0], addr = Some ''127.0.0.1''\<rparr>,
        \<lparr>ifr_name = ''eth0'', hwaddr = Some [0, 37, 144, 1, 2, 171], addr = Some ''10.0.0.5''\<rparr>,
        \<lparr>ifr_name = ''eth1'', hwaddr = Some [0, 37, 144, 1, 2, 172], addr = None\<rparr>]" no_sensors no_log]
    no_sensors_ok
  by (auto simp: sensors_ok_def MAX_NUM_NICS_def nic_listed_def nic_entry_def starts_def mac_colons_def
      mac_plain_def fmt_02x_def hexdigit_def char_of_def bit_Suc_0_iff)

end
