(* ===== verification/DmiSpec.thy ===== *)
theory DmiSpec
  imports Dmi
begin

text \<open>
  What the table reader of \<open>dmidecode.c\<close> is for: an SMBIOS table is a sequence of structures,
  each a formatted part followed by a set of strings that the formatted part names by number.
  \<open>enc\<close> lays a structure out as bytes, \<open>spec_decode\<close> says which fields it sets; the refinement
  shows that the walk over the bytes of any well-formed table computes exactly that.
\<close>

section \<open>Structures and their layout\<close>

datatype struct = Struct (hdr: bytes) (strs: "bytes list")

definition wf_struct :: "struct \<Rightarrow> bool" where
  "wf_struct x \<longleftrightarrow> 4 \<le> length (hdr x) \<and> length (hdr x) = unat (hdr x ! 1) \<and>
     (\<forall>s \<in> set (strs x). s \<noteq> [] \<and> nz s)"

definition body :: "bytes list \<Rightarrow> bytes" where
  "body ss = concat (map (\<lambda>s. s @ [0]) ss)"

definition enc :: "struct \<Rightarrow> bytes" where
  "enc x = hdr x @ body (strs x) @ (if strs x = [] then [0, 0] else [0])"

definition enc_table :: "struct list \<Rightarrow> bytes" where
  "enc_table xs = concat (map enc xs)"

section \<open>What a structure means\<close>

type_synonym dmi_info = "dmi_field \<Rightarrow> string"

text \<open>String number \<open>s\<close>, counted from 1, with unprintable bytes shown as dots.\<close>

definition spec_string :: "bytes list \<Rightarrow> nat \<Rightarrow> string" where
  "spec_string ss s =
     (if s = 0 then ''Not Specified''
      else if s \<le> length ss then map byte_char (map filtered (ss ! (s - 1)))
      else ''<bad index>'')"

definition spec_put :: "struct \<Rightarrow> dmi_field \<times> nat \<Rightarrow> dmi_info \<Rightarrow> dmi_info" where
  "spec_put x fk i = i(fst fk := take 49 (spec_string (strs x) (unat (hdr x ! snd fk))))"

definition spec_trim :: "dmi_info \<Rightarrow> dmi_info" where
  "spec_trim i = i(board_vendor := strip (i board_vendor), board_product := strip (i board_product),
     bios_version := strip (i bios_version))"

definition spec_decode :: "struct \<Rightarrow> dmi_info \<Rightarrow> dmi_info" where
  "spec_decode x i = spec_trim (case type_fields (hdr x ! 0) of
       None \<Rightarrow> i
     | Some (least, fs) \<Rightarrow> if hdr x ! 1 < least then i else fold (spec_put x) fs i)"

text \<open>The abstraction: the strings in the fields.\<close>

definition dmi_abs :: "mem \<Rightarrow> dmi_info" where
  "dmi_abs d = (\<lambda>f. case get_field d f of Some s \<Rightarrow> s | None \<Rightarrow> [])"

section \<open>The string set\<close>

lemma body_simps [simp]: "body [] = []" "body (s # ss) = s @ 0 # body ss"
  by (simp_all add: body_def)

lemma body_append: "body (ss @ ts) = body ss @ body ts"
  by (simp add: body_def)

lemma body_nth: "k < length ss \<Longrightarrow> body ss = body (take k ss) @ (ss ! k) @ 0 # body (drop (Suc k) ss)"
  by (metis body_append body_simps(2) id_take_nth_drop)

text \<open>Two adjacent zero bytes first occur at the end of the string set.\<close>

lemma body_no_double_zero:
  assumes "\<forall>s \<in> set ss. s \<noteq> [] \<and> nz s" and "i + 1 < length (body ss)"
  shows "body ss ! i \<noteq> 0 \<or> body ss ! (i + 1) \<noteq> 0"
  using assms
proof (induction ss arbitrary: i)
  case Nil
  then show ?case by simp
next
  case (Cons s ss)
  consider "i < length s" | "i = length s" | "length s < i" by linarith
  then show ?case
  proof cases
    case 1
    then have "s ! i \<in> set s" by simp
    then have "s ! i \<noteq> 0" using Cons.prems by (auto simp: nz_def)
    with 1 show ?thesis by (simp add: nth_append)
  next
    case 2
    then have "ss \<noteq> []" using Cons.prems by auto
    then obtain b t us where "ss = (b # t) # us"
      using Cons.prems by (cases ss; cases "hd ss") auto
    then show ?thesis using 2 Cons.prems by (simp add: nth_append)
  next
    case 3
    then obtain j where j: "i = length s + Suc j" by (metis less_imp_Suc_add add_Suc_right)
    with Cons show ?thesis by (simp add: nth_append)
  qed
qed

lemma body_last: "ss \<noteq> [] \<Longrightarrow> body ss \<noteq> [] \<and> last (body ss) = 0"
proof (induction ss)
  case (Cons s ss)
  then show ?case by (cases "ss = []") auto
qed simp

text \<open>\<open>find_end\<close> stops at the first pair of zero bytes.\<close>

lemma find_end_first:
  "a \<le> z \<Longrightarrow> z + 1 < len \<Longrightarrow> len \<le> length m \<Longrightarrow> m ! z = 0 \<Longrightarrow> m ! (z + 1) = 0 \<Longrightarrow>
   \<forall>i. a \<le> i \<and> i < z \<longrightarrow> m ! i \<noteq> 0 \<or> m ! (i + 1) \<noteq> 0 \<Longrightarrow> find_end m len a = Some z"
proof (induction "z - a" arbitrary: a)
  case 0
  then have "a = z" by simp
  moreover have "rd m (int z) = Some 0" using 0 rd_nat [of z m] by simp
  moreover have "rd m (int (z + 1)) = Some 0" using 0 rd_nat [of "z + 1" m] by simp
  ultimately show ?case using 0 by (subst find_end.simps) simp
next
  case (Suc k)
  then have "a < z" by simp
  then have r: "rd m (int a) = Some (m ! a)" "rd m (int (a + 1)) = Some (m ! (a + 1))"
    using Suc.prems rd_nat [of a m] rd_nat [of "a + 1" m] by simp_all
  have "m ! a \<noteq> 0 \<or> m ! (a + 1) \<noteq> 0" using Suc.prems(6) \<open>a < z\<close> by blast
  then have "find_end m len a = find_end m len (a + 1)"
    using r \<open>a < z\<close> Suc.prems by (subst find_end.simps) auto
  also have "\<dots> = Some z" using Suc \<open>a < z\<close> by (intro Suc.hyps) auto
  finally show ?case .
qed

text \<open>The string area of a structure, with its terminators.\<close>

definition area :: "bytes list \<Rightarrow> bytes" where
  "area ss = body ss @ (if ss = [] then [0, 0] else [0])"

definition good :: "bytes list \<Rightarrow> bool" where
  "good ss \<longleftrightarrow> (\<forall>s \<in> set ss. s \<noteq> [] \<and> nz s)"

lemma good_simps [simp]: "good []" "good (s # ss) \<longleftrightarrow> s \<noteq> [] \<and> nz s \<and> good ss"
  by (auto simp: good_def)

lemma area_length: "2 \<le> length (area ss)"
proof (cases "ss = []")
  case False
  then have "0 < length (body ss)" using body_last by blast
  with False show ?thesis by (simp add: area_def Suc_le_eq)
qed (simp add: area_def)

lemma area_end: "area ss ! (length (area ss) - 2) = 0 \<and> area ss ! (length (area ss) - 1) = 0"
proof (cases "ss = []")
  case False
  then obtain b where b: "body ss = b @ [0]" using body_last by (metis append_butlast_last_id)
  with False have "area ss = b @ [0, 0]" by (simp add: area_def)
  then show ?thesis by (simp add: nth_append)
qed (simp add: area_def)

lemma area_no_double_zero:
  assumes "good ss" and "i < length (area ss) - 2"
  shows "area ss ! i \<noteq> 0 \<or> area ss ! (i + 1) \<noteq> 0"
proof (cases "ss = []")
  case False
  then have "i + 1 < length (body ss)" using assms(2) by (simp add: area_def)
  with body_no_double_zero [of ss i] assms(1) show ?thesis by (simp add: area_def good_def nth_append)
qed (use assms in \<open>simp add: area_def\<close>)

lemma find_end_area:
  assumes "good ss" and "m = pre @ area ss @ post"
  shows "find_end m (length m) (length pre) = Some (length pre + length (area ss) - 2)"
proof (rule find_end_first)
  have a: "m ! (length pre + i) = area ss ! i" if "i < length (area ss)" for i
    using that by (simp add: assms(2) nth_append)
  have l: "2 \<le> length (area ss)" by (rule area_length)
  then show "length pre \<le> length pre + length (area ss) - 2"
    and "length pre + length (area ss) - 2 + 1 < length m" by (simp_all add: assms(2))
  show "m ! (length pre + length (area ss) - 2) = 0"
    using a [of "length (area ss) - 2"] area_end [of ss] l by simp
  have "length pre + length (area ss) - 2 + 1 = length pre + (length (area ss) - 1)" using l by simp
  then show "m ! (length pre + length (area ss) - 2 + 1) = 0"
    using a [of "length (area ss) - 1"] area_end [of ss] l by simp
  show "\<forall>i. length pre \<le> i \<and> i < length pre + length (area ss) - 2 \<longrightarrow> m ! i \<noteq> 0 \<or> m ! (i + 1) \<noteq> 0"
  proof (intro allI impI)
    fix i assume i: "length pre \<le> i \<and> i < length pre + length (area ss) - 2"
    then obtain j where j: "i = length pre + j" by (metis le_Suc_ex)
    with i l have jl: "j < length (area ss) - 2" by simp
    then have "m ! i = area ss ! j" "m ! (i + 1) = area ss ! (j + 1)"
      using a [of j] a [of "j + 1"] j by simp_all
    then show "m ! i \<noteq> 0 \<or> m ! (i + 1) \<noteq> 0" using area_no_double_zero [OF assms(1) jl] by simp
  qed
qed simp

section \<open>Looking a string up\<close>

lemma skip_strings_body:
  "good ss \<Longrightarrow> skip_strings (pre @ body ss @ 0 # post) (length pre) (Suc k) =
     Some (length pre + length (body (take k ss)))"
proof (induction k arbitrary: ss pre)
  case 0
  then show ?case by (subst skip_strings.simps) simp
next
  case (Suc k)
  show ?case
  proof (cases ss)
    case Nil
    then show ?thesis by (subst skip_strings.simps) (simp add: cmem)
  next
    case (Cons s ss')
    then obtain b t where s: "s = b # t" "b \<noteq> 0" using Suc.prems by (cases s) auto
    let ?m = "pre @ s @ 0 # body ss' @ 0 # post"
    have r: "rd ?m (int (length pre)) = Some b" using s by (simp add: rd_append_right)
    have l: "bstrlen ?m (length pre) = Some (length s)" using Suc.prems Cons by (intro bstrlen_run) simp
    have "skip_strings ?m (length pre) (Suc (Suc k)) =
      skip_strings ((pre @ s @ [0]) @ body ss' @ 0 # post) (length (pre @ s @ [0])) (Suc k)"
      using s(2) by (subst skip_strings.simps) (simp add: r l)
    also have "\<dots> = Some (length (pre @ s @ [0]) + length (body (take k ss')))"
      using Suc.prems Cons by (intro Suc.IH) simp
    finally show ?thesis using Cons by simp
  qed
qed

lemma area_body: "\<exists>r. area ss = body ss @ 0 # r"
  by (auto simp: area_def)

definition filter_nth :: "nat \<Rightarrow> bytes list \<Rightarrow> bytes list" where
  "filter_nth n ss = (if 1 \<le> n \<and> n \<le> length ss then ss[n - 1 := map filtered (ss ! (n - 1))] else ss)"

lemma good_filter_nth: "good ss \<Longrightarrow> good (filter_nth n ss)"
  unfolding good_def filter_nth_def
  by (auto dest!: set_update_subset_insert [THEN subsetD] simp: nz_filtered)

lemma length_area_update:
  "k < length ss \<Longrightarrow> area (ss[k := map filtered (ss ! k)]) =
     body (take k ss) @ map filtered (ss ! k) @ 0 # body (drop (Suc k) ss) @ [0]"
proof -
  assume k: "k < length ss"
  then have "body (ss[k := map filtered (ss ! k)]) =
    body (take k ss) @ map filtered (ss ! k) @ 0 # body (drop (Suc k) ss)"
    using body_nth [of k "ss[k := map filtered (ss ! k)]"] by simp
  with k show ?thesis by (auto simp: area_def)
qed

text \<open>\<open>dmi_string\<close> on an encoded structure: the text of the string, and the chunk with that
  string filtered.\<close>

lemma dmi_string_enc:
  assumes g: "good ss" and h: "length h = unat (h ! 1)" "4 \<le> length h"
  shows "\<exists>p. dmi_string (pre @ h @ area ss @ post) (length pre) s =
      Some (pre @ h @ area (filter_nth (unat s) ss) @ post, p) \<and>
    ptr_text (pre @ h @ area (filter_nth (unat s) ss) @ post) p = Some (spec_string ss (unat s))"
proof (cases "s = 0")
  case True
  then show ?thesis by (simp add: dmi_string_def spec_string_def filter_nth_def)
next
  case False
  then obtain k where k: "unat s = Suc k" by (metis not0_implies_Suc unat_eq_zero)
  let ?m = "pre @ h @ area ss @ post"
  obtain r where r: "area ss = body ss @ 0 # r" using area_body by blast
  have "?m ! (length pre + 1) = h ! 1" using h by (simp add: nth_append)
  then have len: "rd ?m (int (length pre + 1)) = Some (h ! 1)"
    using h rd_nat [of "length pre + 1" ?m] by simp
  let ?bp = "length pre + unat (h ! 1) + length (body (take k ss))"
  have sk: "skip_strings ?m (length pre + unat (h ! 1)) (unat s) = Some ?bp"
    using skip_strings_body [OF g, of "pre @ h" "r @ post" k] by (simp add: r k h(1))
  show ?thesis
  proof (cases "k < length ss")
    case False
    then have "?m = (pre @ h @ body ss) @ 0 # r @ post" "?bp = length (pre @ h @ body ss)"
      using r h(1) by simp_all
    then have "rd ?m (int ?bp) = Some 0" using rd_append_right by metis
    then have "dmi_string ?m (length pre) s = Some (?m, Literal ''<bad index>'')"
      using \<open>s \<noteq> 0\<close> len sk by (simp add: dmi_string_def)
    then show ?thesis using False k by (simp add: spec_string_def filter_nth_def)
  next
    case True
    define A u B where "A = pre @ h @ body (take k ss)" and "u = ss ! k"
      and "B = body (drop (Suc k) ss) @ [0] @ post"
    have u: "u \<noteq> []" "nz u" using g True by (auto simp: good_def u_def)
    have "ss \<noteq> []" using True by auto
    then have m: "?m = A @ u @ 0 # B"
      using body_nth [OF True] by (simp add: area_def A_def u_def B_def)
    have m': "pre @ h @ area (filter_nth (unat s) ss) @ post = A @ map filtered u @ 0 # B"
      using length_area_update [OF True] True k by (simp add: filter_nth_def A_def u_def B_def)
    have bp: "?bp = length A" by (simp add: A_def h(1))
    obtain b t where "u = b # t" "b \<noteq> 0" using u by (cases u) auto
    then have "rd (A @ u @ 0 # B) (int (length A)) = Some b" by (simp add: rd_append_right)
    moreover have "ascii_filter (A @ u @ 0 # B) (length A) 0 = Some (A @ map filtered u @ 0 # B)"
      using ascii_filter_run [of "[]" u A B] u by simp
    ultimately have "dmi_string ?m (length pre) s = Some (A @ map filtered u @ 0 # B, Pointer (length A))"
      using \<open>s \<noteq> 0\<close> \<open>b \<noteq> 0\<close> len sk unfolding bp m dmi_string_def by simp
    moreover have "ptr_text (A @ map filtered u @ 0 # B) (Pointer (length A)) = Some (spec_string ss (unat s))"
      using btext_run [OF nz_filtered [OF u(2)]] True k by (simp add: spec_string_def u_def)
    ultimately show ?thesis unfolding m' by blast
  qed
qed

text \<open>String sets that agree once filtered: the specification does not tell them apart.\<close>

definition refiltered :: "bytes list \<Rightarrow> bytes list \<Rightarrow> bool" where
  "refiltered ss ss' \<longleftrightarrow> map (map filtered) ss' = map (map filtered) ss \<and> good ss'"

lemma filtered_idem [simp]: "filtered (filtered b) = filtered b"
proof -
  have "\<not> unprintable 46" by (simp add: unprintable_def)
  then show ?thesis by (simp add: filtered_def)
qed

lemma refiltered_length: "refiltered ss ss' \<Longrightarrow> length ss' = length ss"
  unfolding refiltered_def using map_eq_imp_length_eq by blast

lemma refiltered_spec: "refiltered ss ss' \<Longrightarrow> spec_string ss' n = spec_string ss n"
proof -
  assume r: "refiltered ss ss'"
  then have l: "length ss' = length ss" by (rule refiltered_length)
  have "map filtered (ss' ! i) = map filtered (ss ! i)" if "i < length ss" for i
    using r that l unfolding refiltered_def by (metis nth_map)
  then show ?thesis using l by (auto simp: spec_string_def)
qed

lemma refiltered_filter_nth: "refiltered ss ss' \<Longrightarrow> refiltered ss (filter_nth n ss')"
proof -
  assume r: "refiltered ss ss'"
  have "map (map filtered) (ss'[k := map filtered (ss' ! k)]) = map (map filtered) ss'" if "k < length ss'" for k
    using that by (intro nth_equalityI) (auto simp: nth_list_update)
  then have "map (map filtered) (filter_nth n ss') = map (map filtered) ss'"
    by (auto simp: filter_nth_def)
  then show ?thesis using r good_filter_nth by (simp add: refiltered_def)
qed

lemma refiltered_area: "refiltered ss ss' \<Longrightarrow> length (area ss') = length (area ss)"
proof -
  assume r: "refiltered ss ss'"
  have "length (body t) = sum_list (map length (map (map filtered) t)) + length t" for t
    by (induction t) simp_all
  then have "length (body ss') = length (body ss)"
    using r refiltered_length [OF r] by (simp only: refiltered_def)
  moreover have "ss' = [] \<longleftrightarrow> ss = []" using refiltered_length [OF r] by auto
  ultimately show ?thesis by (simp add: area_def)
qed

lemma spec_string_nul_free: "good ss \<Longrightarrow> nul_free (spec_string ss n)"
  using printable_nul_free [OF printable_filtered] by (simp add: spec_string_def)

section \<open>Refinement\<close>

lemma dmi_abs_only:
  assumes "only_field f d d'" and "dmi_inv d" and "get_field d' f = Some t"
  shows "dmi_abs d' = (dmi_abs d)(f := t)"
proof
  fix g
  show "dmi_abs d' g = ((dmi_abs d)(f := t)) g"
    using only_field_get [OF assms(1,2), of g] assms(3) by (simp add: dmi_abs_def)
qed

text \<open>The fields a structure fills.\<close>

lemma put_strings_enc:
  assumes h: "length h = unat (h ! 1)" "4 \<le> length h"
    and "refiltered ss ss'" and "\<forall>(f, k) \<in> set fs. k < length h" and "dmi_inv d"
  shows "\<exists>ss'' d'. put_strings (length pre) fs (pre @ h @ area ss' @ post, d) =
      Some (pre @ h @ area ss'' @ post, d') \<and> refiltered ss ss'' \<and> dmi_inv d' \<and>
      dmi_abs d' = fold (spec_put (Struct h ss)) fs (dmi_abs d)"
  using assms(3-)
proof (induction fs arbitrary: ss' d)
  case Nil
  then show ?case by auto
next
  case (Cons fk fs)
  obtain f k where fk: "fk = (f, k)" by fastforce
  let ?n = "unat (h ! k)" and ?m = "pre @ h @ area ss' @ post"
  let ?s1 = "filter_nth ?n ss'"
  have k: "k < length h" using Cons.prems(2) fk by simp
  then have "rd ?m (int (length pre + k)) = Some (?m ! (length pre + k))" by (intro rd_nat) simp
  then have r: "rd ?m (int (length pre + k)) = Some (h ! k)" using k by (simp add: nth_append)
  have g: "good ss'" using Cons.prems(1) by (simp add: refiltered_def)
  obtain p where p: "dmi_string ?m (length pre) (h ! k) = Some (pre @ h @ area ?s1 @ post, p)"
    "ptr_text (pre @ h @ area ?s1 @ post) p = Some (spec_string ss' ?n)"
    using dmi_string_enc [OF g h, of pre post "h ! k"] by blast
  have "nul_free (spec_string ss' ?n)" using g by (rule spec_string_nul_free)
  then obtain d1 where d1: "set_field d f (spec_string ss' ?n) = Some d1" "only_field f d d1"
    "dmi_inv d1" "get_field d1 f = Some (snprintf_s 50 (spec_string ss' ?n))"
    by (rule set_field_ok [OF Cons.prems(3)])
  have a1: "dmi_abs d1 = spec_put (Struct h ss) fk (dmi_abs d)"
    using dmi_abs_only [OF d1(2) Cons.prems(3) d1(4)] refiltered_spec [OF Cons.prems(1)]
    by (simp add: fk spec_put_def snprintf_s_def)
  have s1: "refiltered ss ?s1" using Cons.prems(1) by (rule refiltered_filter_nth)
  obtain ss'' d' where t: "put_strings (length pre) fs (pre @ h @ area ?s1 @ post, d1) =
      Some (pre @ h @ area ss'' @ post, d')" "refiltered ss ss''" "dmi_inv d'"
    "dmi_abs d' = fold (spec_put (Struct h ss)) fs (dmi_abs d1)"
    using Cons.IH [OF s1 _ d1(3)] Cons.prems(2) by auto
  have "put_string (length pre) f k (?m, d) = Some (pre @ h @ area ?s1 @ post, d1)"
    unfolding put_string_def using r p d1(1) by simp
  then show ?case using t a1 fk by auto
qed

lemma trim_field_abs:
  assumes "dmi_inv d" and "f \<noteq> bios_vendor"
  shows "\<exists>d'. trim_field f (m, d) = Some (m, d') \<and> dmi_inv d' \<and>
    dmi_abs d' = (dmi_abs d)(f := strip (dmi_abs d f))"
proof -
  obtain d' s where t: "trim d (field_off f) = Some d'" "only_field f d d'" "dmi_inv d'"
    "get_field d f = Some s" "get_field d' f = Some (strip s)"
    using trim_field_ok [OF assms] .
  have "dmi_abs d f = s" using t(4) by (simp add: dmi_abs_def)
  then show ?thesis using dmi_abs_only [OF t(2) assms(1) t(5)] t(1,3) by (simp add: trim_field_def)
qed

lemma dmi_decode_enc:
  assumes w: "wf_struct x" and d: "dmi_inv d"
  shows "\<exists>ss d'. dmi_decode (length pre) (pre @ hdr x @ area (strs x) @ post, d) =
      Some (pre @ hdr x @ area ss @ post, d') \<and> refiltered (strs x) ss \<and> dmi_inv d' \<and>
      dmi_abs d' = spec_decode x (dmi_abs d)"
proof -
  let ?h = "hdr x" and ?m = "pre @ hdr x @ area (strs x) @ post"
  let ?S = "Struct (hdr x) (strs x)"
  have S: "?S = x" by (cases x) simp
  have h: "length ?h = unat (?h ! 1)" "4 \<le> length ?h" and g: "good (strs x)"
    using w by (auto simp: wf_struct_def good_def)
  have ne: "hdr x \<noteq> []" using h(2) by auto
  have b: "length pre + 1 < length ?m" "length pre < length ?m"
    unfolding length_append using h(2) by linarith+
  have r: "rd ?m (int (length pre)) = Some (?h ! 0)"
    "rd ?m (int (length pre + 1)) = Some (?h ! 1)"
    using rd_nat [OF b(2)] rd_nat [OF b(1)] h(2) ne by (simp_all add: nth_append)
  have ref: "refiltered (strs x) (strs x)" using g by (simp add: refiltered_def)
  let ?fill = "case type_fields (?h ! 0) of None \<Rightarrow> Some (?m, d)
    | Some (least, fs) \<Rightarrow> if ?h ! 1 < least then Some (?m, d) else put_strings (length pre) fs (?m, d)"
  let ?sfill = "case type_fields (?h ! 0) of None \<Rightarrow> dmi_abs d
    | Some (least, fs) \<Rightarrow> if ?h ! 1 < least then dmi_abs d else fold (spec_put ?S) fs (dmi_abs d)"
  have "\<exists>ss d1. ?fill = Some (pre @ ?h @ area ss @ post, d1) \<and> refiltered (strs x) ss \<and>
    dmi_inv d1 \<and> dmi_abs d1 = ?sfill"
  proof (cases "\<exists>least fs. type_fields (?h ! 0) = Some (least, fs) \<and> \<not> ?h ! 1 < least")
    case True
    then obtain least fs where t: "type_fields (?h ! 0) = Some (least, fs)" "\<not> ?h ! 1 < least" by blast
    then have "unat least \<le> length ?h" using h(1) by (simp add: not_less word_le_nat_alt)
    then have "\<forall>(f, k) \<in> set fs. k < length ?h" using type_fields_bound [OF t(1)] by fastforce
    from put_strings_enc [OF h ref this d, of pre post] t show ?thesis by auto
  next
    case False
    then have "?fill = Some (?m, d)" "?sfill = dmi_abs d" by (auto split: option.splits)
    then show ?thesis using ref d by auto
  qed
  then obtain ss d1 where f: "?fill = Some (pre @ ?h @ area ss @ post, d1)" "refiltered (strs x) ss"
    "dmi_inv d1" "dmi_abs d1 = ?sfill" by blast
  let ?m1 = "pre @ ?h @ area ss @ post"
  obtain d2 where d2: "trim_field board_vendor (?m1, d1) = Some (?m1, d2)" "dmi_inv d2"
    "dmi_abs d2 = (dmi_abs d1)(board_vendor := strip (dmi_abs d1 board_vendor))"
    using trim_field_abs [OF f(3), of board_vendor ?m1] by blast
  obtain d3 where d3: "trim_field board_product (?m1, d2) = Some (?m1, d3)" "dmi_inv d3"
    "dmi_abs d3 = (dmi_abs d2)(board_product := strip (dmi_abs d2 board_product))"
    using trim_field_abs [OF d2(2), of board_product ?m1] by blast
  obtain d4 where d4: "trim_field bios_version (?m1, d3) = Some (?m1, d4)" "dmi_inv d4"
    "dmi_abs d4 = (dmi_abs d3)(bios_version := strip (dmi_abs d3 bios_version))"
    using trim_field_abs [OF d3(2), of bios_version ?m1] by blast
  have "dmi_decode (length pre) (?m, d) = Some (?m1, d4)"
    unfolding dmi_decode_def fst_conv r bind.bind_lunit f(1) d2(1) d3(1) by (rule d4(1))
  moreover have "dmi_abs d4 = spec_decode x (dmi_abs d)"
    unfolding d4(3) d3(3) d2(3) f(4) S spec_decode_def spec_trim_def by simp
  ultimately show ?thesis using f(2) d4(2) by blast
qed

lemma enc_area: "enc x = hdr x @ area (strs x)"
  by (simp add: enc_def area_def)

lemma enc_table_simps [simp]: "enc_table [] = []" "enc_table (x # xs) = enc x @ enc_table xs"
  by (simp_all add: enc_table_def)

lemma dmi_walk_enc:
  "\<forall>x \<in> set xs. wf_struct x \<Longrightarrow> dmi_inv d \<Longrightarrow> n \<le> length xs \<or> length post < 4 \<Longrightarrow>
   len = length (pre @ enc_table xs @ post) \<Longrightarrow>
   \<exists>m' d'. dmi_walk n len (length pre) (pre @ enc_table xs @ post, d) = Some (m', d') \<and> dmi_inv d' \<and>
     dmi_abs d' = fold spec_decode (take n xs) (dmi_abs d)"
proof (induction xs arbitrary: pre d n)
  case Nil
  show ?case
  proof (cases n)
    case (Suc k)
    with Nil show ?thesis by simp
  qed (use Nil in simp)
next
  case (Cons x xs)
  show ?case
  proof (cases n)
    case 0
    with Cons.prems show ?thesis by simp
  next
    case (Suc k)
    let ?h = "hdr x" and ?a = "area (strs x)" and ?post = "enc_table xs @ post"
    let ?m = "pre @ ?h @ ?a @ ?post"
    have w: "wf_struct x" using Cons.prems(1) by simp
    have h: "length ?h = unat (?h ! 1)" "4 \<le> length ?h" and g: "good (strs x)"
      using w by (auto simp: wf_struct_def good_def)
    have m: "pre @ enc_table (x # xs) @ post = ?m" by (simp add: enc_area)
    have len: "len = length ?m" using Cons.prems(4) m by simp
    have "length pre + 1 < length ?m" using h(2) by simp
    from rd_nat [OF this] have r: "rd ?m (int (length pre + 1)) = Some (?h ! 1)"
      using h(2) by (simp add: nth_append)
    let ?e = "length (pre @ ?h) + length ?a - 2"
    have "find_end ?m (length ?m) (length (pre @ ?h)) = Some ?e"
      by (rule find_end_area [OF g]) simp
    then have e: "find_end ?m len (length pre + unat (?h ! 1)) = Some ?e" using h(1) len by simp
    have al: "2 \<le> length ?a" by (rule area_length)
    have e2: "?e + 2 = length (pre @ ?h @ ?a)" using al by simp
    obtain ss d1 where s: "dmi_decode (length pre) (?m, d) = Some (pre @ ?h @ area ss @ ?post, d1)"
      "refiltered (strs x) ss" "dmi_inv d1" "dmi_abs d1 = spec_decode x (dmi_abs d)"
      using dmi_decode_enc [OF w Cons.prems(2), of pre ?post] by blast
    let ?pre = "pre @ ?h @ area ss"
    have la: "length (area ss) = length ?a" using s(2) by (rule refiltered_area)
    have "dmi_walk n len (length pre) (?m, d) = dmi_walk k len (?e + 2) (pre @ ?h @ area ss @ ?post, d1)"
      unfolding Suc dmi_walk.simps fst_conv r bind.bind_lunit e using len h(2) s(1) e2 by simp
    also have "\<dots> = dmi_walk k len (length ?pre) (?pre @ enc_table xs @ post, d1)"
      unfolding e2 using la by simp
    finally have step: "dmi_walk n len (length pre) (?m, d) =
      dmi_walk k len (length ?pre) (?pre @ enc_table xs @ post, d1)" .
    obtain m' d' where "dmi_walk k len (length ?pre) (?pre @ enc_table xs @ post, d1) = Some (m', d')"
      "dmi_inv d'" "dmi_abs d' = fold spec_decode (take k xs) (dmi_abs d1)"
      using Cons.IH [of d1 k ?pre] Cons.prems s(3) Suc len la by auto
    then show ?thesis unfolding m step using s(4) Suc by simp
  qed
qed

section \<open>Properties\<close>

text \<open>C35: \<open>dmi_table\<close> over the bytes of any SMBIOS table (structures with their string sets) sets
  exactly the fields that the first \<open>num\<close> structures describe: string numbers resolved,
  unprintable bytes shown as dots, values cut to 49 characters, three fields trimmed, structures
  shorter than their type needs ignored.\<close>

theorem dmi_table_refines:
  assumes "\<forall>x \<in> set xs. wf_struct x" and "dmi_inv d"
    and "chunk base (length (enc_table xs)) w = (Some (enc_table xs), w')"
  shows "\<exists>d'. dmi_table chunk rel base (length (enc_table xs)) num (d, w) = Some (d', rel w') \<and>
    dmi_inv d' \<and> dmi_abs d' = fold spec_decode (take num xs) (dmi_abs d)"
proof -
  obtain m' d' where "dmi_walk num (length (enc_table xs)) 0 (enc_table xs, d) = Some (m', d')"
    "dmi_inv d'" "dmi_abs d' = fold spec_decode (take num xs) (dmi_abs d)"
    using dmi_walk_enc [OF assms(1,2), of num "[]" _ "[]"] by auto
  with assms(3) show ?thesis by (simp add: dmi_table_def)
qed

definition sample_struct :: struct where
  "sample_struct = Struct [2, 8, 0, 0, 1, 2, 0, 3] [[32, 65, 200], [66]]"

theorem dmi_table_refines_witness:
  "\<exists>d'. dmi_table (\<lambda>_ _ n. (Some (enc_table [sample_struct]), n + 1)) (\<lambda>n. n - 1) 0
      (length (enc_table [sample_struct])) 1 (dmi_zero, 0 :: nat) = Some (d', 0) \<and>
    dmi_abs d' board_product = ''B'' \<and> dmi_abs d' board_version = ''Not Specified''"
proof -
  let ?c = "\<lambda>(_ :: nat) (_ :: nat) (n :: nat). (Some (enc_table [sample_struct]), n + 1)"
  have w: "\<forall>x \<in> set [sample_struct]. wf_struct x"
    by (simp add: wf_struct_def sample_struct_def nz_def)
  have "?c (0 :: nat) (length (enc_table [sample_struct])) (0 :: nat) = (Some (enc_table [sample_struct]), 1)"
    by simp
  from dmi_table_refines [where chunk = ?c and base = 0 and w = "0 :: nat" and rel = "\<lambda>n. n - 1" and num = 1,
      OF w dmi_inv_zero this]
  obtain d' where d: "dmi_table ?c (\<lambda>n. n - 1) 0 (length (enc_table [sample_struct])) 1 (dmi_zero, 0) =
      Some (d', 1 - 1)" "dmi_abs d' = fold spec_decode (take 1 [sample_struct]) (dmi_abs dmi_zero)"
    by blast
  have u: "\<not> unprintable 66" by (simp add: unprintable_def)
  have "dmi_abs d' board_product = ''B''" "dmi_abs d' board_version = ''Not Specified''"
    unfolding d(2)
    by (simp_all add: sample_struct_def spec_decode_def spec_trim_def type_fields_def spec_put_def
        spec_string_def filtered_def u byte_char_def strip_def strip_lead_def strip_tail_def
        lead_blank_def tail_blank_def char_of_def bit_0)
  with d(1) show ?thesis by simp
qed

text \<open>C36: Whatever bytes an SMBIOS table holds, the walk never leaves the copy of it, never writes
  outside a field of \<open>dmi_data\<close>, leaves every field terminated, and frees the copy.\<close>

theorem dmi_table_safe:
  assumes "dmi_inv d"
  shows "\<exists>d' w'. dmi_table mem_chunk release base len num (d, w) = Some (d', w') \<and>
    dmi_inv d' \<and> heap w' = heap w"
  using assms by (rule bios.table_safe)

theorem dmi_table_safe_witness:
  "\<exists>d' w'. dmi_table mem_chunk release 0 0xFFFF 0xFFFF
      (dmi_zero, \<lparr>phys = (\<lambda>a. word_of_nat (a * a)), answers = [all_fail\<lparr>open_ok := True\<rparr>], fds = 3, pages = 0, heap = 0, stderr = []\<rparr>) =
    Some (d', w') \<and> heap w' = 0"
  using dmi_table_safe [OF dmi_inv_zero, of 0 "0xFFFF" "0xFFFF"
      "\<lparr>phys = (\<lambda>a. word_of_nat (a * a)), answers = [all_fail\<lparr>open_ok := True\<rparr>], fds = 3, pages = 0, heap = 0, stderr = []\<rparr>"]
  by auto

lemma set_map_const: "set (map (\<lambda>_. c) xs) \<subseteq> {c}"
  by auto

lemma mem_eq_zeros: "set buf \<subseteq> {0} \<Longrightarrow> mem_eq buf p ''_SM_'' \<noteq> Some True"
proof
  assume z: "set buf \<subseteq> {0}" and "mem_eq buf p ''_SM_'' = Some True"
  then have "map byte_char (take 4 (drop p buf)) = ''_SM_''"
    by (simp add: mem_eq_def numeral_eq_Suc split: if_splits)
  then have "CHR ''S'' \<in> byte_char ` set (take 4 (drop p buf))"
    by (metis image_set list.set_intros(1) list.set_intros(2))
  then obtain b where b: "b \<in> set (take 4 (drop p buf))" "CHR ''S'' = byte_char b" by blast
  then have "b \<in> set buf" by (blast dest: in_set_takeD in_set_dropD)
  then show False using z b(2) by (auto simp: byte_char_def char_of_def)
qed

text \<open>C37: When every entry point of the BIOS area lies inside it, reading all the tables returns
  with the fields terminated and every block freed.\<close>

theorem do_dmi_decode_safe:
  assumes "dmi_inv d" and "mem_chunk 0xF0000 0x10000 w = (Some buf, w1)"
    and "\<forall>p. 16 dvd p \<and> p \<le> 0xFFE0 \<and> mem_eq buf p ''_SM_'' = Some True \<longrightarrow> anchor_fits buf p"
  shows "\<exists>d' w'. do_dmi_decode mem_chunk release (d, w) = Some (Returns (d', w')) \<and>
    dmi_inv d' \<and> heap w' = heap w"
  using assms by (rule bios.decode_safe)

theorem do_dmi_decode_safe_witness:
  "\<exists>d' w'. do_dmi_decode mem_chunk release (dmi_zero, \<lparr>phys = (\<lambda>_. 0), answers = [\<lparr>open_ok = True,
      malloc_ok = True, mmap_ok = True, munmap_ok = True, close_ok = True\<rparr>], fds = 3, pages = 0,
      heap = 0, stderr = []\<rparr>) = Some (Returns (d', w')) \<and> dmi_inv d'"
  (is "\<exists>d' w'. do_dmi_decode _ _ (_, ?w) = _ \<and> _")
proof -
  have a: "answers ?w = \<lparr>open_ok = True, malloc_ok = True, mmap_ok = True, munmap_ok = True,
    close_ok = True\<rparr> # []" by simp
  have f: "fst (mem_chunk 0xF0000 0x10000 ?w) = Some (map (phys ?w) [0xF0000..<0x100000])"
    by (rule mem_chunk_returns [OF a]) simp_all
  then obtain w1 where w1: "mem_chunk 0xF0000 0x10000 ?w = (Some (map (phys ?w) [0xF0000..<0x100000]), w1)"
    by (metis prod.collapse)
  have "set (map (phys ?w) [0xF0000..<0x100000]) \<subseteq> {0}"
    unfolding os.select_convs by (rule set_map_const)
  then show ?thesis using do_dmi_decode_safe [OF dmi_inv_zero w1] mem_eq_zeros by metis
qed

text \<open>The length byte of an entry point is trusted: one that reaches past the end of the area
  makes the checksum read outside the buffer.\<close>

theorem smbios_overrun:
  assumes "p + 5 < length buf" and "length buf < p + unat (buf ! (p + 5))"
  shows "smbios_decode chunk rel buf p st = None"
proof -
  have "rd buf (int (p + 5)) = Some (buf ! (p + 5))" using assms(1) by (rule rd_nat)
  moreover have "checksum buf p (unat (buf ! (p + 5))) = None"
    using assms by (intro checksum_undefined) simp_all
  ultimately show ?thesis by (simp add: smbios_decode_def)
qed

theorem smbios_overrun_witness:
  "smbios_decode mem_chunk release (replicate 0xFFE5 0 @ [33] @ replicate 26 0) 0xFFE0 (dmi_zero,
     \<lparr>phys = (\<lambda>_. 0), answers = [], fds = 3, pages = 0, heap = 0, stderr = []\<rparr>) = None"
proof -
  let ?b = "replicate 0xFFE5 0 @ [33] @ replicate 26 0 :: bytes"
  have l: "length ?b = 0x10000" by simp
  have "?b ! (0xFFE0 + 5) = 33" by (simp only: nth_append length_replicate) simp
  then show ?thesis
    by (intro smbios_overrun) (simp_all only: l, simp_all)
qed

text \<open>C38: Inside a structure that two zero bytes close, \<open>dmi_string\<close> returns for every string
  number, moves no terminator, and what it returns is printable ASCII.\<close>

theorem dmi_string_printable:
  assumes "closed_at m (dm + unat (m ! (dm + 1))) z" and "dm + 1 < length m"
  shows "\<exists>m' p t. dmi_string m dm s = Some (m', p) \<and> ptr_text m' p = Some t \<and>
    same_shape m m' \<and> printable t"
  using dmi_string_safe [OF assms] by metis

theorem dmi_string_printable_witness:
  "\<exists>m' p t. dmi_string [1, 4, 0, 0, 65, 7, 200, 0, 0] 0 1 = Some (m', p) \<and> ptr_text m' p = Some t \<and>
    printable t"
proof -
  let ?m = "[1, 4, 0, 0, 65, 7, 200, 0, 0] :: bytes"
  have "closed_at ?m (0 + unat (?m ! (0 + 1))) 7" by (simp add: closed_at_def)
  from dmi_string_printable [OF this, of 1] show ?thesis by auto
qed

end
