(* ===== verification/Shell.thy ===== *)
theory Shell
  imports CLib
begin

text \<open>
  How \<open>/bin/sh\<close> reads a file of assignments with its \<open>.\<close> command, as the tests do with the
  statistics file: the words of an assignment with their quotes, escapes and continuation lines,
  several assignments on a line, and comments. The shell is dash, which is \<open>/bin/sh\<close> on Debian; it
  differs from others in what follows a dollar sign. Where the shell does more than assign texts
  that are in the file, the result is \<open>None\<close>: an expansion (\<open>$\<close>, a back quote, a tilde outside of
  quotes), a word that is no assignment and so a command, an operator, or a quote that is never
  closed.
\<close>

section \<open>Characters\<close>

abbreviation SQ :: char where "SQ \<equiv> CHR 0x27"
abbreviation BQ :: char where "BQ \<equiv> CHR 0x60"
abbreviation BSL :: char where "BSL \<equiv> CHR 0x5C"

definition is_name :: "char \<Rightarrow> bool" where
  "is_name c \<longleftrightarrow> isdigit c \<or> c = CHR ''_'' \<or> (65 \<le> (of_char c :: nat) \<and> (of_char c :: nat) \<le> 90) \<or>
     (97 \<le> (of_char c :: nat) \<and> (of_char c :: nat) \<le> 122)"

text \<open>What makes a dollar sign an expansion is the character behind it: of a name, of a special
  parameter, or an opening parenthesis or brace. Any other dollar sign stands for itself.\<close>

fun expands :: "string \<Rightarrow> bool" where
  "expands [] = False"
| "expands (c # s) \<longleftrightarrow> is_name c \<or> c \<in> set ''!#$*-?@({''"

definition blank_char :: "char \<Rightarrow> bool" where
  "blank_char c \<longleftrightarrow> c = NL \<or> c = SPC \<or> c = TAB"

text \<open>Between double quotes, a back quote and a dollar sign that expands are not literal, and a
  backslash escapes four characters. Outside of quotes there are the operators and the tilde too.\<close>

definition active :: "char \<Rightarrow> string \<Rightarrow> bool" where
  "active c s \<longleftrightarrow> c = BQ \<or> c = CHR ''$'' \<and> expands s"

definition escapable :: "char \<Rightarrow> bool" where
  "escapable c \<longleftrightarrow> c = CHR ''$'' \<or> c = BQ \<or> c = DQ \<or> c = BSL"

definition operator :: "char \<Rightarrow> bool" where
  "operator c \<longleftrightarrow> c \<in> set '';&|<>()~''"

section \<open>A word\<close>

datatype quoting = Unquoted | Double | Single

definition add_char :: "char \<Rightarrow> (string \<times> string) option \<Rightarrow> (string \<times> string) option" where
  "add_char c r = map_option (\<lambda>(v, s). (c # v, s)) r"

text \<open>The value of the word and what follows, from its delimiter on.\<close>

fun sh_word :: "quoting \<Rightarrow> string \<Rightarrow> (string \<times> string) option" where
  "sh_word Unquoted [] = Some ([], [])"
| "sh_word Unquoted (c # s) =
     (if blank_char c then Some ([], c # s)
      else if c = DQ then sh_word Double s
      else if c = SQ then sh_word Single s
      else if c = BSL then
        (case s of [] \<Rightarrow> Some ([c], [])
         | d # s' \<Rightarrow> if d = NL then sh_word Unquoted s' else add_char d (sh_word Unquoted s'))
      else if operator c \<or> active c s then None
      else add_char c (sh_word Unquoted s))"
| "sh_word Double [] = None"
| "sh_word Double (c # s) =
     (if c = DQ then sh_word Unquoted s
      else if c = BSL then
        (case s of [] \<Rightarrow> None
         | d # s' \<Rightarrow> if d = NL then sh_word Double s'
             else if escapable d then add_char d (sh_word Double s')
             else add_char c (sh_word Double s))
      else if active c s then None
      else add_char c (sh_word Double s))"
| "sh_word Single [] = None"
| "sh_word Single (c # s) = (if c = SQ then sh_word Unquoted s else add_char c (sh_word Single s))"

declare sh_word.simps [simp del]

lemma add_char_Some: "add_char c r = Some (v, s) \<longleftrightarrow> (\<exists>v'. r = Some (v', s) \<and> v = c # v')"
  by (cases r) (auto simp: add_char_def)

lemma active_BSL [simp]: "\<not> active BSL s"
  by (simp add: active_def)

text \<open>The steps of the scanner, for case analyses.\<close>

lemma sh_word_cases [consumes 1]:
  assumes "sh_word q (c # s) = Some (v, r)"
  obtains (delimiter) "q = Unquoted" "blank_char c" "v = []" "r = c # s"
  | (quote) q' where "sh_word q' s = Some (v, r)" "c = DQ \<or> c = SQ" "c = DQ \<longrightarrow> q \<noteq> Single" "c = SQ \<longrightarrow> q \<noteq> Double"
      "q = Double \<or> q = Single \<longrightarrow> q' = Unquoted"
  | (final) "q = Unquoted" "c = BSL" "s = []" "v = [c]" "r = []"
  | (joined) s' where "c = BSL" "q \<noteq> Single" "s = NL # s'" "sh_word q s' = Some (v, r)"
  | (escaped) d s' v' where "c = BSL" "q \<noteq> Single" "s = d # s'" "d \<noteq> NL" "q = Double \<longrightarrow> escapable d"
      "sh_word q s' = Some (v', r)" "v = d # v'"
  | (literal) v' where "sh_word q s = Some (v', r)" "v = c # v'" "q = Unquoted \<longrightarrow> c \<noteq> DQ"
      "q = Double \<longrightarrow> c \<noteq> DQ \<and> \<not> active c s \<and> (c = BSL \<longrightarrow> s \<noteq> [] \<and> hd s \<noteq> NL \<and> \<not> escapable (hd s))"
proof (cases q)
  case Unquoted
  note w = assms [unfolded Unquoted sh_word.simps]
  show ?thesis
  proof (cases "blank_char c \<or> c = DQ \<or> c = SQ")
    case True
    then consider "blank_char c" | "\<not> blank_char c" "c = DQ" | "\<not> blank_char c" "c = SQ" by blast
    then show ?thesis
    proof cases
      case 1
      then have "v = []" "r = c # s" using w by simp_all
      with Unquoted 1 show ?thesis by (rule that(1))
    next
      case 2
      then have "sh_word Double s = Some (v, r)" using w by simp
      then show ?thesis by (rule that(2)) (use 2 Unquoted in simp_all)
    next
      case 3
      then have "sh_word Single s = Some (v, r)" using w by simp
      then show ?thesis by (rule that(2)) (use 3 Unquoted in simp_all)
    qed
  next
    case f: False
    show ?thesis
    proof (cases "c = BSL")
      case True
      then show ?thesis using w f Unquoted that(3,4,5) by (cases s) (auto simp: add_char_Some split: if_splits)
    next
      case False
      then show ?thesis using w f Unquoted that(6) by (auto simp: add_char_Some split: if_splits)
    qed
  qed
next
  case Double
  note w = assms [unfolded Double sh_word.simps]
  show ?thesis
  proof (cases "c = DQ \<or> c = BSL")
    case True
    then show ?thesis using w Double that(2) [of Unquoted] that(4,5,6)
      by (cases s) (auto simp: add_char_Some split: if_splits)
  next
    case False
    then show ?thesis using w Double that(6) by (auto simp: add_char_Some split: if_splits)
  qed
next
  case Single
  show ?thesis
    using assms [unfolded Single sh_word.simps] Single that(2) [of Unquoted] that(6)
    by (cases "c = SQ") (auto simp: add_char_Some)
qed

lemma sh_word_length: "sh_word q s = Some (v, r) \<Longrightarrow> length r \<le> length s"
proof (induction s arbitrary: q v rule: length_induct)
  case (1 s)
  show ?case
  proof (cases s)
    case Nil
    then show ?thesis using 1 by (cases q) (simp_all add: sh_word.simps)
  next
    case (Cons c s1)
    from "1.prems" [unfolded Cons] show ?thesis
    proof (cases rule: sh_word_cases)
      case (quote q')
      then show ?thesis using "1.IH" Cons by force
    next
      case (joined s')
      then show ?thesis using "1.IH" Cons by force
    next
      case (escaped d s' v')
      then show ?thesis using "1.IH" Cons by force
    next
      case (literal v')
      then show ?thesis using "1.IH" Cons by force
    qed (use Cons in simp_all)
  qed
qed

section \<open>A file\<close>

function sh_source :: "string \<Rightarrow> (string \<times> string) list option" where
  "sh_source s =
     (let t = dropWhile blank_char s; k = takeWhile is_name t in
      if t = [] then Some []
      else if hd t = CHR ''#'' then sh_source (dropWhile (\<lambda>c. c \<noteq> NL) t)
      else case dropWhile is_name t of
          e # r \<Rightarrow>
            if e = CHR ''='' \<and> k \<noteq> [] \<and> \<not> isdigit (hd k) then do {
              (v, r') \<leftarrow> sh_word Unquoted r;
              kvs \<leftarrow> sh_source r';
              Some ((k, v) # kvs)
            } else None
        | [] \<Rightarrow> None)"
  by pat_completeness auto
termination
proof (relation "measure length", goal_cases)
  case 1
  then show ?case by simp
next
  case (2 s t k)
  have "\<exists>c u. t = c # u \<and> c \<noteq> NL" using 2(3,4) by (cases t) simp_all
  then obtain c u where t: "t = c # u" "c \<noteq> NL" by blast
  have "length (c # u) \<le> length s" using length_dropWhile_le [of blank_char s] 2(1) t(1) by simp
  then show ?case using t length_dropWhile_le [of "\<lambda>c. c \<noteq> NL" u] by simp
next
  case (3 s t k e r v x)
  have "length (e # r) \<le> length t" unfolding 3(5) [symmetric] by (rule length_dropWhile_le)
  moreover have "length t \<le> length s" unfolding 3(1) by (rule length_dropWhile_le)
  ultimately show ?case using sh_word_length 3 by fastforce
qed

declare sh_source.simps [simp del]

section \<open>What is literal between double quotes\<close>

fun sh_literal :: "string \<Rightarrow> bool" where
  "sh_literal [] = True"
| "sh_literal (c # s) \<longleftrightarrow> c \<noteq> DQ \<and> \<not> active c s \<and>
     (c = BSL \<longrightarrow> s \<noteq> [] \<and> \<not> escapable (hd s) \<and> hd s \<noteq> NL) \<and> sh_literal s"

lemma active_quote: "active c (s @ DQ # t) \<longleftrightarrow> active c s"
  by (cases s) (auto simp: active_def is_name_def isdigit_def)

lemma sh_word_literal:
  "sh_literal v \<Longrightarrow> sh_word Double (v @ DQ # NL # r) = Some (v, NL # r)"
proof (induction v rule: sh_literal.induct)
  case 1
  then show ?case by (simp add: sh_word.simps blank_char_def)
next
  case (2 c s)
  then have IH: "sh_word Double (s @ DQ # NL # r) = Some (s, NL # r)" by simp
  show ?case
  proof (cases "c = BSL")
    case True
    then obtain d s' where "s = d # s'" "\<not> escapable d" "d \<noteq> NL" using 2(2) by (cases s) auto
    then show ?thesis using True IH by (simp add: sh_word.simps(4) [of BSL] add_char_def)
  next
    case False
    then show ?thesis using 2(2) IH by (simp add: sh_word.simps(4) [of c] add_char_def active_quote)
  qed
qed

text \<open>A word that begins in the text \<open>u\<close> of a quoted line and ends on that line has at most as many
  characters as \<open>u\<close>; a word that goes on behind the line contains the newline.\<close>

lemma sh_word_bound:
  "sh_word q (u @ DQ # NL # r) = Some (v, r') \<Longrightarrow> NL \<notin> set u \<Longrightarrow> NL \<in> set v \<or> length v \<le> length u"
proof (induction u arbitrary: q v rule: length_induct)
  case (1 u)
  have nl: "NL \<in> set v" if "sh_word q' (NL # r) = Some (v, r')" "q' \<noteq> Unquoted" for q' v
    using that by (cases q') (auto simp: sh_word.simps add_char_Some active_def split: if_splits)
  have IH: "NL \<in> set v' \<or> length v' \<le> length u'"
    if "length u' < length u" "set u' \<subseteq> set u" "sh_word q' (u' @ DQ # NL # r) = Some (v', r')" for q' u' v'
    using "1.IH" "1.prems"(2) that by blast
  show ?case
  proof (cases u)
    case Nil
    have "sh_word q (DQ # NL # r) = Some (v, r')" using "1.prems"(1) Nil by simp
    then show ?thesis
    proof (cases rule: sh_word_cases)
      case (quote q')
      then show ?thesis using nl [of q' v] by (cases q') (auto simp: sh_word.simps blank_char_def)
    next
      case (literal v')
      then show ?thesis using nl [of q v'] by (cases q) (auto simp: sh_word.simps)
    qed (simp_all add: blank_char_def)
  next
    case (Cons c u1)
    have "sh_word q (c # u1 @ DQ # NL # r) = Some (v, r')" using "1.prems"(1) Cons by simp
    then show ?thesis
    proof (cases rule: sh_word_cases)
      case (quote q')
      have "NL \<in> set v \<or> length v \<le> length u1" by (rule IH [OF _ _ quote(1)]) (simp_all add: Cons subset_insertI)
      then show ?thesis using Cons by auto
    next
      case (joined s')
      then show ?thesis using "1.prems"(2) Cons by (cases u1) auto
    next
      case (escaped d s' v')
      show ?thesis
      proof (cases u1)
        case Nil
        then have "sh_word q (NL # r) = Some (v', r')" "v = DQ # v'" using escaped by simp_all
        then show ?thesis using nl [of q v'] Cons by (cases q) (auto simp: sh_word.simps blank_char_def)
      next
        case (Cons e u2)
        then have "NL \<in> set v' \<or> length v' \<le> length u2"
          using escaped by (intro IH [of u2 q v']) (auto simp: \<open>u = c # u1\<close>)
        then show ?thesis using escaped(7) Cons \<open>u = c # u1\<close> by auto
      qed
    next
      case (literal v')
      have "NL \<in> set v' \<or> length v' \<le> length u1" by (rule IH [OF _ _ literal(1)]) (simp_all add: Cons subset_insertI)
      then show ?thesis using literal(2) Cons by auto
    qed (use Cons in auto)
  qed
qed

text \<open>A value that is not literal is not read back: a quote or a backslash is taken away from it.\<close>

lemma sh_word_not_literal:
  "sh_word Double (v @ DQ # NL # r) = Some (v', r') \<Longrightarrow> NL \<notin> set v \<Longrightarrow> \<not> sh_literal v \<Longrightarrow>
   NL \<in> set v' \<or> length v' < length v"
proof (induction v arbitrary: v')
  case Nil
  then show ?case by simp
next
  case (Cons c s)
  have "sh_word Double (c # s @ DQ # NL # r) = Some (v', r')" using Cons.prems(1) by simp
  then show ?case
  proof (cases rule: sh_word_cases)
    case (quote q')
    then show ?thesis using sh_word_bound [of Unquoted s r v' r'] Cons.prems(2) by auto
  next
    case (joined s')
    then show ?thesis using Cons.prems(2) by (cases s) auto
  next
    case (escaped d s' w)
    show ?thesis
    proof (cases s)
      case Nil
      then have "sh_word Double (NL # r) = Some (w, r')" "v' = DQ # w" using escaped by simp_all
      then show ?thesis by (auto simp: sh_word.simps add_char_Some active_def split: if_splits)
    next
      case (Cons e s2)
      then show ?thesis using escaped sh_word_bound [of Double s2 r w r'] Cons.prems(2) by auto
    qed
  next
    case (literal w)
    then have "\<not> sh_literal s" using Cons.prems(3)
      by (cases s) (auto simp: active_quote [of c "[]", simplified] active_quote [of c "_ # _", simplified] escapable_def)
    then show ?thesis using literal Cons.IH [of w] Cons.prems(2) by auto
  qed simp_all
qed

end
