(* ===== verification/ReportSpec.thy ===== *)
theory ReportSpec
  imports Report SensorSpec DmiSpec Shell
begin

text \<open>
  The statistics file as the tests see it: they read it with the shell's \<open>.\<close> command
  (\<open>sh_source\<close>). The lemmas show that it gives back what \<open>dump_stats\<close> was given exactly when every
  value is literal between double quotes.
\<close>

section \<open>Reading the file in the shell\<close>

definition name_ok :: "string \<Rightarrow> bool" where
  "name_ok k \<longleftrightarrow> k \<noteq> [] \<and> \<not> isdigit (hd k) \<and> (\<forall>c \<in> set k. is_name c)"

lemma sh_source_NL: "sh_source (NL # r) = sh_source r"
  by (subst (1 2) sh_source.simps) (simp add: blank_char_def Let_def)

text \<open>The first assignment of a file.\<close>

lemma sh_source_line:
  assumes "name_ok k"
  shows "sh_source (var_line (k, v) @ r) = do {
     (v', r') \<leftarrow> sh_word Double (v @ DQ # NL # r);
     kvs \<leftarrow> sh_source r';
     Some ((k, v') # kvs) }"
proof -
  let ?t = "DQ # v @ DQ # NL # r"
  have e: "\<not> is_name (CHR ''='')" by (simp add: is_name_def isdigit_def)
  have n: "takeWhile is_name (k @ CHR ''='' # ?t) = k" "dropWhile is_name (k @ CHR ''='' # ?t) = CHR ''='' # ?t"
    using assms e by (auto simp: name_ok_def takeWhile_append2 dropWhile_append2)
  have k: "k \<noteq> []" "\<not> isdigit (hd k)" "is_name (hd k)" using assms by (auto simp: name_ok_def)
  then have "\<not> blank_char (hd k)" "hd k \<noteq> CHR ''#''" by (auto simp: blank_char_def is_name_def isdigit_def)
  then have d: "dropWhile blank_char (k @ CHR ''='' # ?t) = k @ CHR ''='' # ?t" "hd (k @ CHR ''='' # ?t) \<noteq> CHR ''#''"
    using k(1) by (cases k; simp)+
  have "sh_word Unquoted ?t = sh_word Double (v @ DQ # NL # r)" by (simp add: sh_word.simps(2) [of DQ] blank_char_def)
  moreover have "var_line (k, v) @ r = k @ CHR ''='' # ?t" by (simp add: var_line_def)
  ultimately show ?thesis using d k by (subst sh_source.simps) (simp add: Let_def n)
qed

text \<open>The file gives back its variables exactly when all values are literal.\<close>

lemma sh_source_vars:
  "\<forall>kv \<in> set kvs. name_ok (fst kv) \<and> NL \<notin> set (snd kv) \<Longrightarrow>
   sh_source (concat (map var_line kvs)) = Some kvs \<longleftrightarrow> (\<forall>kv \<in> set kvs. sh_literal (snd kv))"
proof (induction kvs)
  case Nil
  then show ?case by (subst sh_source.simps) simp
next
  case (Cons kv kvs)
  obtain k v where kv: "kv = (k, v)" by fastforce
  let ?r = "concat (map var_line kvs)"
  have l: "sh_source (concat (map var_line (kv # kvs))) = do {
      (v', r') \<leftarrow> sh_word Double (v @ DQ # NL # ?r); kvs' \<leftarrow> sh_source r'; Some ((k, v') # kvs') }"
    using sh_source_line [of k v ?r] Cons.prems kv by simp
  show ?case
  proof (cases "sh_literal v")
    case True
    then have "sh_source (concat (map var_line (kv # kvs))) = do { kvs' \<leftarrow> sh_source ?r; Some ((k, v) # kvs') }"
      unfolding l sh_word_literal [OF True] by (simp add: sh_source_NL)
    then show ?thesis using True kv Cons by (cases "sh_source ?r") auto
  next
    case False
    then have "v' \<noteq> v" if "sh_word Double (v @ DQ # NL # ?r) = Some (v', r')" for v' r'
      using sh_word_not_literal [OF that _ False] Cons.prems kv by auto
    then show ?thesis unfolding l using False kv by (auto split: bind_splits)
  qed
qed

text \<open>Texts without the characters that the shell knows between double quotes are literal.\<close>

definition plain :: "string \<Rightarrow> bool" where
  "plain v \<longleftrightarrow> (\<forall>c \<in> set v. c \<noteq> DQ \<and> c \<noteq> CHR ''$'' \<and> c \<noteq> CHR 0x60 \<and> c \<noteq> CHR 0x5C \<and> c \<noteq> NUL)"

lemma plain_literal: "plain v \<Longrightarrow> sh_literal v"
  by (induction v) (auto simp: plain_def active_def)

section \<open>The variables of the file\<close>

text \<open>The printed numbers, the special values of \<open>double\<close> included.\<close>

definition numeric :: "string \<Rightarrow> bool" where
  "numeric v \<longleftrightarrow> (\<forall>c \<in> set v. isdigit c \<or> c \<in> set ''-.naif'')"

lemma numeric_simps [simp]:
  "numeric []" "numeric (c # s) \<longleftrightarrow> (isdigit c \<or> c \<in> set ''-.naif'') \<and> numeric s"
  "numeric (a @ b) \<longleftrightarrow> numeric a \<and> numeric b"
  by (auto simp: numeric_def)

lemma show_nat_numeric: "numeric (show_nat n)"
  using show_nat_digits [of n] by (simp add: numeric_def)

lemma fmt_d_numeric: "numeric (fmt_d i)"
  by (simp add: fmt_d_def show_nat_numeric)

lemma pad_left_numeric: "numeric s \<Longrightarrow> numeric (pad_left (CHR ''0'') w s)"
  by (auto simp: pad_left_def numeric_def isdigit_def)

lemma numeric_sub: "numeric s \<Longrightarrow> numeric (take k s)" "numeric s \<Longrightarrow> numeric (drop k s)"
  by (auto simp: numeric_def dest: in_set_takeD in_set_dropD)

lemma insert_point_numeric: "numeric s \<Longrightarrow> numeric (insert_point p s)"
  by (simp add: insert_point_def Let_def numeric_sub pad_left_numeric)

lemma fmt_f_numeric: "numeric (fmt_f p x)"
proof (cases x)
  case (Fin s m e)
  show ?thesis unfolding Fin fmt_f.simps numeric_simps
    by (intro conjI insert_point_numeric show_nat_numeric) simp
qed simp_all

lemma numeric_clean: "numeric v \<Longrightarrow> plain v \<and> NL \<notin> set v \<and> NUL \<notin> set v"
  by (auto simp: numeric_def plain_def isdigit_def)

text \<open>A condition on the texts that are printed.\<close>

definition texts_ok :: "(string \<Rightarrow> bool) \<Rightarrow> breakin \<Rightarrow> bool" where
  "texts_ok P w \<longleftrightarrow> P (model (cpu_info (sens w))) \<and>
     (\<forall>x \<in> set (disk_info (sens w)). \<forall>d. cstr (device x) 0 = Some d \<longrightarrow> P d) \<and>
     (\<forall>x \<in> set (nic_data (sens w)). P (nic_name x) \<and> P (macaddr x) \<and> P (ipaddr x)) \<and>
     (\<forall>f v. get_field (dmi_data w) f = Some v \<longrightarrow> P v) \<and>
     (\<forall>x \<in> set (burnin_scripts (mach w)). P (name x) \<and> P (last_msg x))"

lemma out_loop_elem:
  "out_loop f i k = Some xs \<Longrightarrow> x \<in> set xs \<Longrightarrow> \<exists>j ys. i \<le> j \<and> f j = Some ys \<and> x \<in> set ys"
proof (induction k arbitrary: i xs)
  case 0
  then show ?case by simp
next
  case (Suc k)
  then obtain a b where ab: "f i = Some a" "out_loop f (i + 1) k = Some b" "xs = a @ b"
    by (auto split: bind_splits)
  then consider "x \<in> set a" | "x \<in> set b" using Suc.prems(2) by auto
  then show ?case
  proof cases
    case 1
    then show ?thesis using ab(1) by blast
  next
    case 2
    then obtain j ys where "i + 1 \<le> j" "f j = Some ys" "x \<in> set ys" using Suc.IH [OF ab(2)] by blast
    then show ?thesis using add_leD1 by blast
  qed
qed

lemma capital_names: "\<forall>c \<in> set ''ABCDEFGHIJKLMNOPQRSTUVWXYZ_''. is_name c"
  by (simp add: is_name_def)

lemma capital_not_digit: "\<forall>c \<in> set ''ABCDEFGHIJKLMNOPQRSTUVWXYZ_''. \<not> isdigit c"
  by (simp add: isdigit_def)

lemmas is_name_capital = capital_names [simplified] capital_not_digit [simplified]

lemma digit_name: "c \<in> set (fmt_d i) \<Longrightarrow> 0 \<le> i \<Longrightarrow> is_name c"
  using show_nat_digits [of "nat i"] by (auto simp: is_name_def fmt_d_def)

lemma digit_names: "\<forall>c \<in> set (fmt_d (int j)). is_name c"
  "Suc 0 \<le> j \<Longrightarrow> \<forall>c \<in> set (fmt_d (int j - 1)). is_name c"
  by (simp_all add: digit_name)

lemmas name_simps = name_ok_def is_name_capital digit_names ball_Un

lemma rd_in_set: "rd xs i = Some x \<Longrightarrow> x \<in> set xs"
  by (auto simp: rd_Some_iff)

definition good_var :: "(string \<Rightarrow> bool) \<Rightarrow> string \<times> string \<Rightarrow> bool" where
  "good_var P kv \<longleftrightarrow> name_ok (fst kv) \<and> P (snd kv)"

lemma good_var_pair: "good_var P (k, v) \<longleftrightarrow> name_ok k \<and> P v"
  by (simp add: good_var_def)

text \<open>
  What the printing of the variables relies on: a condition on values that every printed number
  meets. Then it holds for all variables as soon as it holds for the texts.
\<close>

locale value_test =
  fixes P :: "string \<Rightarrow> bool"
  assumes num_d: "P (fmt_d i)" and num_f: "P (fmt_f p x)"
begin

lemma cpu_vars_good:
  assumes "cpu_vars s = Some kvs" and "P (model (cpu_info s))" and "kv \<in> set kvs"
  shows "good_var P kv"
  using assms
  by (auto simp: name_simps good_var_pair cpu_vars_def num_d num_f
      split: bind_splits dest!: out_loop_elem)

lemma mem_vars_good: "kv \<in> set (mem_vars m) \<Longrightarrow> good_var P kv"
  by (auto simp: name_simps good_var_pair mem_vars_def num_d num_f)

lemma temp_vars_good: "temp_vars s = Some kvs \<Longrightarrow> kv \<in> set kvs \<Longrightarrow> good_var P kv"
  by (auto simp: name_simps good_var_pair temp_vars_def num_d num_f
      split: bind_splits dest!: out_loop_elem)

lemma disk_vars_good:
  assumes "disk_vars s = Some kvs" and "\<forall>x \<in> set (disk_info s). \<forall>d. cstr (device x) 0 = Some d \<longrightarrow> P d"
    and "kv \<in> set kvs"
  shows "good_var P kv"
  using assms
  by (auto simp: name_simps good_var_pair disk_vars_def num_d num_f
      split: bind_splits dest!: out_loop_elem rd_in_set)

lemma nic_vars_good:
  assumes "nic_vars s = Some kvs" and "\<forall>x \<in> set (nic_data s). P (nic_name x) \<and> P (macaddr x) \<and> P (ipaddr x)"
    and "kv \<in> set kvs"
  shows "good_var P kv"
  using assms
  by (auto simp: name_simps good_var_pair nic_vars_def num_d
      split: bind_splits dest!: out_loop_elem rd_in_set)

lemma field_vars_good:
  "field_vars d fs = Some kvs \<Longrightarrow> \<forall>f v. get_field d f = Some v \<longrightarrow> P v \<Longrightarrow> \<forall>kf \<in> set fs. name_ok (fst kf) \<Longrightarrow>
   kv \<in> set kvs \<Longrightarrow> good_var P kv"
  by (induction d fs arbitrary: kvs rule: field_vars.induct) (auto simp: good_var_pair split: bind_splits)

lemma dmi_vars_good:
  assumes "dmi_vars d = Some kvs" and "\<forall>f v. get_field d f = Some v \<longrightarrow> P v" and "kv \<in> set kvs"
  shows "good_var P kv"
  by (rule field_vars_good [OF assms(1) [unfolded dmi_vars_def] assms(2) _ assms(3)]) (simp add: name_simps good_var_pair)

lemma bench_vars_good: "kv \<in> set (bench_vars b) \<Longrightarrow> good_var P kv"
  by (auto simp: name_simps good_var_pair bench_vars_def num_f split: if_splits)

lemma burnin_vars_good:
  assumes "burnin_vars m = Some kvs" and "\<forall>x \<in> set (burnin_scripts m). P (name x) \<and> P (last_msg x)"
    and "kv \<in> set kvs"
  shows "good_var P kv"
  using assms
  by (auto simp: name_simps good_var_pair burnin_vars_def num_d
      split: bind_splits dest!: out_loop_elem rd_in_set)

lemma stat_vars_good:
  assumes "stat_vars w = Some kvs" and "texts_ok P w"
  shows "\<forall>kv \<in> set kvs. good_var P kv"
proof -
  obtain a c d e f g where v: "cpu_vars (sens w) = Some a" "temp_vars (sens w) = Some c" "disk_vars (sens w) = Some d"
    "nic_vars (sens w) = Some e" "dmi_vars (dmi_data w) = Some f" "burnin_vars (mach w) = Some g"
    "kvs = a @ mem_vars (mem_info (sens w)) @ c @ d @ e @ f @ bench_vars (benchmarks w) @ g"
    using assms(1) by (auto simp: stat_vars_def split: bind_splits)
  note t = assms(2) [unfolded texts_ok_def]
  show ?thesis
    using cpu_vars_good [OF v(1)] mem_vars_good temp_vars_good [OF v(2)] disk_vars_good [OF v(3)]
      nic_vars_good [OF v(4)] dmi_vars_good [OF v(5)] bench_vars_good burnin_vars_good [OF v(6)] t
    unfolding v(7) by auto
qed

end

definition one_line :: "string \<Rightarrow> bool" where
  "one_line v \<longleftrightarrow> NL \<notin> set v \<and> NUL \<notin> set v"

interpretation literals: value_test sh_literal
  by unfold_locales (simp_all add: numeric_clean plain_literal fmt_d_numeric fmt_f_numeric)

interpretation lines: value_test one_line
  by unfold_locales (simp_all add: numeric_clean fmt_d_numeric fmt_f_numeric one_line_def)

text \<open>The state of a running program: the printing is defined there.\<close>

definition report_ok :: "breakin \<Rightarrow> bool" where
  "report_ok w \<longleftrightarrow> sensors_ok (sens w) \<and>
     (\<forall>x \<in> set (take (disk_qty (sens w)) (disk_info (sens w))). NUL \<in> set (device x)) \<and>
     dmi_inv (dmi_data w) \<and> burnin_script_count (mach w) \<le> length (burnin_scripts (mach w))"

lemma cpu_vars_total: "sensors_ok s \<Longrightarrow> \<exists>x. cpu_vars s = Some x"
proof -
  assume s: "sensors_ok s"
  let ?f = "\<lambda>i. do { x \<leftarrow> rd (cpu_usage s) (int i);
    Some [(''CPU_'' @ fmt_d (int i - 1) @ ''_PERCENT'', fmt_f 0 (percent x))] }"
  have "\<exists>xs. out_loop ?f 1 (nat (cpu_qty s - 1)) = Some xs"
    by (rule out_loop_total) (use s in \<open>auto simp: sensors_ok_def cmem\<close>)
  moreover have "\<exists>u. rd (cpu_usage s) 0 = Some u"
    using s cmem(1) [of 0 "cpu_usage s"] by (simp add: sensors_ok_def MAX_CPUS_def)
  ultimately show ?thesis by (auto simp: cpu_vars_def)
qed

lemma temp_vars_total: "sensors_ok s \<Longrightarrow> \<exists>x. temp_vars s = Some x"
  unfolding temp_vars_def
  using out_loop_total [of 0 "temp_qty s" "\<lambda>i. do { x \<leftarrow> rd (temp_data s) (int i);
    Some [(''TEMP_'' @ fmt_d (int i), fmt_f 0 (temp_value x))] }"]
  by (fastforce simp: sensors_ok_def cmem)

lemma nic_vars_total: "sensors_ok s \<Longrightarrow> \<exists>x. nic_vars s = Some x"
proof -
  assume s: "sensors_ok s"
  have "\<exists>x. out_loop (\<lambda>i. do { x \<leftarrow> rd (nic_data s) (int i);
         Some [(''NIC_'' @ fmt_d (int i) @ ''_NAME'', nic_name x),
               (''NIC_'' @ fmt_d (int i) @ ''_MAC'', macaddr x),
               (''NIC_'' @ fmt_d (int i) @ ''_IPADDR'', ipaddr x)] }) 0 (nic_qty s) = Some x"
    by (rule out_loop_total) (use s in \<open>auto simp: sensors_ok_def cmem\<close>)
  then show ?thesis by (auto simp: nic_vars_def)
qed

lemma device_text:
  assumes "sensors_ok s" and "\<forall>x \<in> set (take (disk_qty s) (disk_info s)). NUL \<in> set (device x)"
    and "i < disk_qty s"
  shows "rd (disk_info s) (int i) = Some (disk_info s ! i)" "\<exists>d. cstr (device (disk_info s ! i)) 0 = Some d"
proof -
  have l: "i < length (disk_info s)" using assms(1,3) by (simp add: sensors_ok_def)
  then show "rd (disk_info s) (int i) = Some (disk_info s ! i)" by (simp add: cmem)
  have "disk_info s ! i \<in> set (take (disk_qty s) (disk_info s))"
    using l assms(3) by (metis in_set_conv_nth length_take min_less_iff_conj nth_take)
  then show "\<exists>d. cstr (device (disk_info s ! i)) 0 = Some d" using assms(2) by (simp add: cstr_def)
qed

lemma disk_vars_total:
  assumes "sensors_ok s" and "\<forall>x \<in> set (take (disk_qty s) (disk_info s)). NUL \<in> set (device x)"
  shows "\<exists>x. disk_vars s = Some x"
proof -
  have "\<exists>x. out_loop (\<lambda>i. do { x \<leftarrow> rd (disk_info s) (int i); d \<leftarrow> cstr (device x) 0;
         Some [(''DISK_'' @ fmt_d (int i) @ ''_NAME'', d),
               (''DISK_'' @ fmt_d (int i) @ ''_SIZE'', fmt_f 6 (disk_size x)),
               (''DISK_'' @ fmt_d (int i) @ ''_PERFORMANCE'', fmt_f 6 (performance x))] }) 0 (disk_qty s) = Some x"
  proof (rule out_loop_total)
    fix j assume "j < 0 + disk_qty s"
    with device_text [OF assms, of j] obtain d where "rd (disk_info s) (int j) = Some (disk_info s ! j)"
      "cstr (device (disk_info s ! j)) 0 = Some d" by auto
    then show "\<exists>y. do { x \<leftarrow> rd (disk_info s) (int j); d \<leftarrow> cstr (device x) 0;
         Some [(''DISK_'' @ fmt_d (int j) @ ''_NAME'', d),
               (''DISK_'' @ fmt_d (int j) @ ''_SIZE'', fmt_f 6 (disk_size x)),
               (''DISK_'' @ fmt_d (int j) @ ''_PERFORMANCE'', fmt_f 6 (performance x))] } = Some y" by simp
  qed
  then show ?thesis by (auto simp: disk_vars_def)
qed

lemma field_vars_total: "dmi_inv d \<Longrightarrow> \<exists>x. field_vars d fs = Some x"
proof (induction d fs rule: field_vars.induct)
  case (2 d k f fs)
  obtain s where "get_field d f = Some s" using dmi_inv_cstr [OF 2(2)] .
  moreover obtain x where "field_vars d fs = Some x" using 2 calculation by blast
  ultimately show ?case by simp
qed simp

lemma burnin_vars_total: "burnin_script_count m \<le> length (burnin_scripts m) \<Longrightarrow> \<exists>x. burnin_vars m = Some x"
proof -
  assume s: "burnin_script_count m \<le> length (burnin_scripts m)"
  have "\<exists>x. out_loop (\<lambda>i. do { x \<leftarrow> rd (burnin_scripts m) (int i);
         Some [(''BURNIN_'' @ fmt_d (int i) @ ''_NAME'', name x),
               (''BURNIN_'' @ fmt_d (int i) @ ''_LASTMSG'', last_msg x),
               (''BURNIN_'' @ fmt_d (int i) @ ''_RUNNING'', fmt_d (running x)),
               (''BURNIN_'' @ fmt_d (int i) @ ''_PASS_QTY'', fmt_d (sint (pass_count x))),
               (''BURNIN_'' @ fmt_d (int i) @ ''_FAIL_QTY'', fmt_d (sint (fail_count x)))]
       }) 0 (burnin_script_count m) = Some x"
    by (rule out_loop_total) (use s in \<open>auto simp: cmem\<close>)
  then show ?thesis by (auto simp: burnin_vars_def)
qed

lemma stat_vars_total:
  assumes "report_ok w"
  shows "\<exists>kvs. stat_vars w = Some kvs"
proof -
  note r = assms [unfolded report_ok_def]
  obtain a c d e f g where "cpu_vars (sens w) = Some a" "temp_vars (sens w) = Some c" "disk_vars (sens w) = Some d"
    "nic_vars (sens w) = Some e" "dmi_vars (dmi_data w) = Some f" "burnin_vars (mach w) = Some g"
    using cpu_vars_total temp_vars_total disk_vars_total nic_vars_total field_vars_total burnin_vars_total r
    unfolding dmi_vars_def by metis
  then show ?thesis by (simp add: stat_vars_def)
qed

lemma dump_stats_sourced:
  assumes "report_ok w" and "texts_ok one_line w"
  shows "\<exists>kvs t. stat_vars w = Some kvs \<and> dump_stats True w = Some (w\<lparr>stat_file := Some t\<rparr>) \<and>
    (sh_source t = Some kvs \<longleftrightarrow> (\<forall>kv \<in> set kvs. sh_literal (snd kv)))"
proof -
  obtain kvs where k: "stat_vars w = Some kvs" using stat_vars_total [OF assms(1)] ..
  have "\<forall>kv \<in> set kvs. name_ok (fst kv) \<and> NL \<notin> set (snd kv)"
    using lines.stat_vars_good [OF k assms(2)] by (simp add: good_var_def one_line_def)
  from sh_source_vars [OF this] show ?thesis
    by (intro exI [of _ kvs] exI [of _ "concat (map var_line kvs)"]) (simp add: dump_stats_def k)
qed

lemma texts_ok_mono: "texts_ok P w \<Longrightarrow> (\<And>v. P v \<Longrightarrow> Q v) \<Longrightarrow> texts_ok Q w"
  by (auto simp: texts_ok_def)

lemma stat_vars_literal: "stat_vars w = Some kvs \<Longrightarrow> texts_ok sh_literal w \<Longrightarrow> \<forall>kv \<in> set kvs. sh_literal (snd kv)"
  using literals.stat_vars_good by (auto simp: good_var_def)

lemmas stat_vars_plain = stat_vars_literal [OF _ texts_ok_mono [OF _ plain_literal]]

section \<open>Looking up a variable\<close>

text \<open>The last assignment of a name is the one that counts.\<close>

definition sh_value :: "(string \<times> string) list \<Rightarrow> string \<Rightarrow> string option" where
  "sh_value kvs k = map_of (rev kvs) k"

lemma sh_value_unique:
  assumes "k \<notin> fst ` set xs" and "k \<notin> fst ` set ys"
  shows "sh_value (xs @ (k, v) # ys) k = Some v"
  using assms by (simp add: sh_value_def map_add_def map_of_eq_None_iff [THEN iffD2] split: option.split)

text \<open>No index starts with a letter.\<close>

lemma fmt_d_head: "fmt_d i = c # s \<Longrightarrow> isdigit c \<or> c = CHR ''-''"
  using show_nat_Cons [of "nat i"] show_nat_digits [of "nat i"] by (auto simp: fmt_d_def split: if_splits)

lemma fmt_d_letter: "\<not> isdigit c \<Longrightarrow> c \<noteq> CHR ''-'' \<Longrightarrow> fmt_d i @ t \<noteq> c # s"
proof -
  have "fmt_d i \<noteq> []" by (simp add: fmt_d_def)
  then obtain d r where "fmt_d i = d # r" by (cases "fmt_d i") auto
  then show "\<not> isdigit c \<Longrightarrow> c \<noteq> CHR ''-'' \<Longrightarrow> fmt_d i @ t \<noteq> c # s" using fmt_d_head by auto
qed

lemma fmt_d_Q [simp]: "fmt_d i @ t \<noteq> CHR ''Q'' # s" "fmt_d i \<noteq> CHR ''Q'' # s"
  using fmt_d_letter [of "CHR ''Q''" i t s] fmt_d_letter [of "CHR ''Q''" i "[]" s] by (simp_all add: isdigit_def)

lemma field_vars_keys: "field_vars d fs = Some kvs \<Longrightarrow> map fst kvs = map fst fs"
  by (induction d fs arbitrary: kvs rule: field_vars.induct) (auto split: bind_splits)

text \<open>The two variables that the benchmark of the tests uses are assigned once.\<close>

definition unused :: "(string \<times> string) list \<Rightarrow> bool" where
  "unused kvs \<longleftrightarrow> (\<forall>kv \<in> set kvs. fst kv \<noteq> ''CPU_QTY'' \<and> fst kv \<noteq> ''MEM_TOTAL'')"

lemma unused_simps [simp]:
  "unused []" "unused (kv # kvs) \<longleftrightarrow> fst kv \<noteq> ''CPU_QTY'' \<and> fst kv \<noteq> ''MEM_TOTAL'' \<and> unused kvs"
  "unused (xs @ ys) \<longleftrightarrow> unused xs \<and> unused ys"
  by (auto simp: unused_def)

lemma out_loop_unused:
  "(\<And>j ys. f j = Some ys \<Longrightarrow> unused ys) \<Longrightarrow> out_loop f i k = Some xs \<Longrightarrow> unused xs"
  by (induction k arbitrary: i xs) (auto split: bind_splits)

lemma cpu_vars_used:
  assumes "cpu_vars s = Some kvs"
  shows "\<exists>us. kvs = (''CPU_QTY'', fmt_d (qty (cpu_info s))) # us \<and> unused us"
proof -
  let ?f = "\<lambda>i. do { x \<leftarrow> rd (cpu_usage s) (int i);
    Some [(''CPU_'' @ fmt_d (int i - 1) @ ''_PERCENT'', fmt_f 0 (percent x))] }"
  have f: "unused ys" if "?f j = Some ys" for j ys using that by (auto split: bind_splits)
  obtain pc us where "out_loop ?f 1 (nat (cpu_qty s - 1)) = Some us"
    "kvs = [(''CPU_QTY'', fmt_d (qty (cpu_info s))), (''CPU_SPEED'', fmt_f 0 (speed (cpu_info s))),
            (''CPU_MODEL'', model (cpu_info s)), (''CPU_PERCENT'', pc)] @ us"
    using assms by (auto simp: cpu_vars_def split: bind_splits)
  then show ?thesis using out_loop_unused [of ?f, OF f] by simp
qed

lemma temp_vars_unused: "temp_vars s = Some kvs \<Longrightarrow> unused kvs"
  by (auto simp: temp_vars_def split: bind_splits dest!: out_loop_unused [rotated])

lemma disk_vars_unused: "disk_vars s = Some kvs \<Longrightarrow> unused kvs"
  by (auto simp: disk_vars_def split: bind_splits dest!: out_loop_unused [rotated])

lemma nic_vars_unused: "nic_vars s = Some kvs \<Longrightarrow> unused kvs"
  by (auto simp: nic_vars_def split: bind_splits dest!: out_loop_unused [rotated])

lemma burnin_vars_unused: "burnin_vars m = Some kvs \<Longrightarrow> unused kvs"
  by (auto simp: burnin_vars_def split: bind_splits dest!: out_loop_unused [rotated])

lemma dmi_vars_unused:
  assumes "dmi_vars d = Some kvs"
  shows "unused kvs"
proof -
  have "set (map fst kvs) \<inter> {''CPU_QTY'', ''MEM_TOTAL''} = {}"
    unfolding field_vars_keys [OF assms [unfolded dmi_vars_def]] by simp
  then show ?thesis by (force simp: unused_def)
qed

lemma stat_vars_used:
  assumes "stat_vars w = Some kvs"
  shows "sh_value kvs ''CPU_QTY'' = Some (fmt_d (qty (cpu_info (sens w)))) \<and>
    sh_value kvs ''MEM_TOTAL'' = Some (fmt_d (mem_total (mem_info (sens w))))"
proof -
  let ?s = "sens w"
  obtain a c d e f g where v: "cpu_vars ?s = Some a" "temp_vars ?s = Some c" "disk_vars ?s = Some d"
    "nic_vars ?s = Some e" "dmi_vars (dmi_data w) = Some f" "burnin_vars (mach w) = Some g"
    "kvs = a @ mem_vars (mem_info ?s) @ c @ d @ e @ f @ bench_vars (benchmarks w) @ g"
    using assms(1) by (auto simp: stat_vars_def split: bind_splits)
  define post where "post = c @ d @ e @ f @ bench_vars (benchmarks w) @ g"
  have post: "unused post"
    using temp_vars_unused [OF v(2)] disk_vars_unused [OF v(3)] nic_vars_unused [OF v(4)]
      dmi_vars_unused [OF v(5)] burnin_vars_unused [OF v(6)] by (simp add: post_def bench_vars_def)
  obtain us where us: "a = (''CPU_QTY'', fmt_d (qty (cpu_info ?s))) # us" "unused us"
    using cpu_vars_used [OF v(1)] by blast
  define ms where "ms = tl (mem_vars (mem_info ?s))"
  have ms: "mem_vars (mem_info ?s) = (''MEM_TOTAL'', fmt_d (mem_total (mem_info ?s))) # ms" "unused ms"
    by (simp_all add: mem_vars_def ms_def)
  have k: "kvs = [] @ (''CPU_QTY'', fmt_d (qty (cpu_info ?s))) # (us @ mem_vars (mem_info ?s) @ post)"
    "kvs = a @ (''MEM_TOTAL'', fmt_d (mem_total (mem_info ?s))) # (ms @ post)"
    using v(7) us(1) ms(1) by (simp_all add: post_def)
  have "''CPU_QTY'' \<notin> fst ` set (us @ mem_vars (mem_info ?s) @ post)"
    using us(2) ms post by (auto simp: unused_def)
  then have "sh_value kvs ''CPU_QTY'' = Some (fmt_d (qty (cpu_info ?s)))"
    unfolding k(1) by (intro sh_value_unique) simp_all
  moreover have "''MEM_TOTAL'' \<notin> fst ` set a" "''MEM_TOTAL'' \<notin> fst ` set (ms @ post)"
    using us ms(2) post by (auto simp: unused_def)
  then have "sh_value kvs ''MEM_TOTAL'' = Some (fmt_d (mem_total (mem_info ?s)))"
    unfolding k(2) by (rule sh_value_unique)
  ultimately show ?thesis ..
qed

section \<open>Properties\<close>

text \<open>C12: In a running program \<open>dump_stats\<close> is defined, and when no text in it (CPU model, disk, card
  and test names, last messages, DMI strings) has a newline, the shell reads from the file exactly the
  variables that were written, in order and without expanding anything or running a command, if and
  only if every value is literal between double quotes: no double quote, no back quote, no dollar sign
  in front of what it would expand, and no backslash in front of a character that it escapes or at the
  end. Numbers are never the reason: it is enough that the texts are literal.\<close>

theorem stat_file_roundtrip:
  assumes "report_ok w" and "texts_ok one_line w"
  shows "\<exists>kvs t. stat_vars w = Some kvs \<and> dump_stats True w = Some (w\<lparr>stat_file := Some t\<rparr>) \<and>
    (sh_source t = Some kvs \<longleftrightarrow> (\<forall>kv \<in> set kvs. sh_literal (snd kv))) \<and>
    (texts_ok sh_literal w \<longrightarrow> sh_source t = Some kvs)"
proof -
  obtain kvs t where k: "stat_vars w = Some kvs" "dump_stats True w = Some (w\<lparr>stat_file := Some t\<rparr>)"
    "sh_source t = Some kvs \<longleftrightarrow> (\<forall>kv \<in> set kvs. sh_literal (snd kv))"
    using dump_stats_sourced [OF assms] by blast
  then show ?thesis using stat_vars_literal [OF k(1)] by (intro exI [of _ kvs] exI [of _ t]) simp
qed

definition no_breakin :: breakin where
  "no_breakin = \<lparr>sens = no_sensors, dmi_data = dmi_zero,
     benchmarks = \<lparr>completed = False, bstream = \<lparr>bs_copy = Fin False 0 0, bs_scale = Fin False 0 0,
       bs_add = Fin False 0 0, bs_triad = Fin False 0 0\<rparr>\<rparr>,
     mach = \<lparr>breakin_disable = replicate 1024 NUL, burnin_scripts = no_scripts, burnin_script_count = 0,
       logs = no_log, kern = \<lparr>children = [], streams = []\<rparr>\<rparr>,
     opts = \<lparr>update_url = [], update_interval = 300, enable_updates = False, serial_baud = 115200,
       serial_dev = [], enable_benchmarks = True, enabled_ssh = False\<rparr>,
     hardware_finished = False, serial_speed = 0, stat_file = None\<rparr>"

lemma get_field_zero: "get_field dmi_zero f = Some []"
  using field_off_bound [of f] by (simp add: get_field_def cstr_def dmi_zero_def)

definition sample_breakin :: "string \<Rightarrow> breakin" where
  "sample_breakin m = no_breakin\<lparr>sens := no_sensors\<lparr>cpu_info := \<lparr>qty = 4, model = m, speed = f64_of_int 2400\<rparr>\<rparr>\<rparr>"

lemma sample_report_ok: "report_ok (sample_breakin m)"
  using no_sensors_ok dmi_inv_zero
  by (simp add: report_ok_def sample_breakin_def no_breakin_def sensors_ok_def) (simp add: no_sensors_def)

lemma sample_texts_ok: "P m \<Longrightarrow> P [] \<Longrightarrow> texts_ok P (sample_breakin m)"
  by (auto simp: texts_ok_def sample_breakin_def no_breakin_def no_sensors_def get_field_zero
      no_scripts_def no_script_def cstr_def)

text \<open>Two CPU models: one that the shell reads back, with a dollar sign and a backslash that stand for
  themselves, and one whose backslash it takes away.\<close>

abbreviation kept_model :: string where "kept_model \<equiv> ''5$ C:'' @ BSL # ''X''"
abbreviation lost_model :: string where "lost_model \<equiv> CHR ''A'' # BSL # ''$B''"

lemma stat_file_roundtrip_witness:
  "(\<exists>kvs t. stat_vars (sample_breakin kept_model) = Some kvs \<and> sh_source t = Some kvs \<and>
      dump_stats True (sample_breakin kept_model) = Some ((sample_breakin kept_model)\<lparr>stat_file := Some t\<rparr>)) \<and>
   (\<exists>kvs t. stat_vars (sample_breakin lost_model) = Some kvs \<and> sh_source t \<noteq> Some kvs \<and>
      dump_stats True (sample_breakin lost_model) = Some ((sample_breakin lost_model)\<lparr>stat_file := Some t\<rparr>))"
proof
  have "sh_literal kept_model" by (simp add: active_def escapable_def is_name_def isdigit_def)
  then show "\<exists>kvs t. stat_vars (sample_breakin kept_model) = Some kvs \<and> sh_source t = Some kvs \<and>
      dump_stats True (sample_breakin kept_model) = Some ((sample_breakin kept_model)\<lparr>stat_file := Some t\<rparr>)"
    using stat_file_roundtrip [OF sample_report_ok, of "kept_model"]
      sample_texts_ok [of one_line "kept_model"] sample_texts_ok [of sh_literal "kept_model"]
    by (auto simp: one_line_def)
  have n: "\<not> sh_literal lost_model" by (simp add: active_def escapable_def)
  obtain kvs t where k: "stat_vars (sample_breakin lost_model) = Some kvs"
    "dump_stats True (sample_breakin lost_model) = Some ((sample_breakin lost_model)\<lparr>stat_file := Some t\<rparr>)"
    "sh_source t = Some kvs \<longleftrightarrow> (\<forall>kv \<in> set kvs. sh_literal (snd kv))"
    using stat_file_roundtrip [OF sample_report_ok, of "lost_model"] sample_texts_ok [of one_line "lost_model"]
    by (auto simp: one_line_def)
  have "(''CPU_MODEL'', lost_model) \<in> set kvs"
    using k(1) by (auto simp: stat_vars_def cpu_vars_def sample_breakin_def split: bind_splits)
  then show "\<exists>kvs t. stat_vars (sample_breakin lost_model) = Some kvs \<and> sh_source t \<noteq> Some kvs \<and>
      dump_stats True (sample_breakin lost_model) = Some ((sample_breakin lost_model)\<lparr>stat_file := Some t\<rparr>)"
    using k n by (intro exI [of _ kvs] exI [of _ t]) force
qed

end
