(* ===== verification/FloatInt.thy ===== *)
theory FloatInt
  imports Float64
begin

text \<open>
  Whole numbers below \<open>2 ^ 53\<close> are exact in \<open>double\<close>: conversion, addition and multiplication of
  such numbers involve no rounding as long as the result stays below \<open>2 ^ 53\<close>.
\<close>

lemma blen_double: "0 < n \<Longrightarrow> blen (n * 2) = Suc (blen n)"
  by (subst blen.simps) simp

lemma blen_pow: "0 < n \<Longrightarrow> blen (n * 2 ^ k) = blen n + k"
proof (induction k)
  case (Suc k)
  have e: "n * 2 ^ Suc k = (n * 2 ^ k) * 2" by simp
  have "0 < n * 2 ^ k" using Suc.prems by simp
  then show ?case unfolding e using Suc blen_double by simp
qed simp

lemma blen_1: "blen (Suc 0) = 1"
  by (simp add: blen.simps)

lemma blen_less: "n < 2 ^ k \<Longrightarrow> blen n \<le> k"
proof (cases "n = 0")
  case False
  assume "n < 2 ^ k"
  with blen_bounds [of n] False have "(2::nat) ^ (blen n - 1) < 2 ^ k" using le_less_trans by blast
  then have "blen n - 1 < k" by (rule power_less_imp_less_exp [rotated]) simp
  then show ?thesis by simp
qed (simp add: blen.simps)

text \<open>\<open>m * 2 ^ e\<close> with a mantissa of at most 53 bits is rounded to itself.\<close>

lemma f64_round_exact:
  assumes m: "0 < m" "blen m \<le> 53" and r: "- 1074 \<le> e + int j + int (blen m) - 53" "e + int j + int (blen m) - 53 \<le> 970"
  shows "f64_round s (m * 2 ^ j) 1 e = Fin s (m * 2 ^ (53 - blen m)) (e + int j + int (blen m) - 53)"
proof -
  let ?N = "m * 2 ^ j"
  let ?B = "int (blen m) + int j"
  define k where "k = 53 - blen m"
  have B: "int (blen ?N) = ?B" using blen_pow [OF m(1), of j] by simp
  have b1: "2 ^ (blen m - 1) \<le> m" "m < 2 ^ blen m" using blen_bounds [OF m(1)] by auto
  have bp: "0 < blen m" using blen_pos m(1) by blast
  have mk: "m * 2 ^ k < 2 ^ 53" "2 ^ 52 \<le> m * 2 ^ k"
  proof -
    have "m * 2 ^ k < 2 ^ blen m * 2 ^ k" using b1(2) by simp
    also have "(2::nat) ^ blen m * 2 ^ k = 2 ^ 53" using m(2) by (simp add: k_def flip: power_add)
    finally show "m * 2 ^ k < 2 ^ 53" .
    have "(2::nat) ^ 52 = 2 ^ (blen m - 1) * 2 ^ k" using m(2) bp by (simp add: k_def flip: power_add)
    also have "\<dots> \<le> m * 2 ^ k" using b1(1) by simp
    finally show "2 ^ 52 \<le> m * 2 ^ k" .
  qed
  have sc: "scale ?N 1 (?B - 53) = (a, b) \<Longrightarrow> a = m * 2 ^ k * b \<and> 0 < b" for a b
  proof -
    assume s: "scale ?N 1 (?B - 53) = (a, b)"
    show ?thesis
    proof (cases "0 \<le> ?B - 53")
      case True
      then have "j = k + nat (?B - 53)" using m(2) by (simp add: k_def)
      then have "(2::nat) ^ j = 2 ^ k * 2 ^ nat (?B - 53)" by (metis power_add)
      then show ?thesis using s True by (auto simp: scale_def)
    next
      case False
      then have "j + nat (- (?B - 53)) = k" using m(2) by (simp add: k_def)
      then have "(2::nat) ^ k = 2 ^ j * 2 ^ nat (- (?B - 53))" by (metis power_add)
      then show ?thesis using s False by (auto simp: scale_def)
    qed
  qed
  obtain a b where s1: "scale ?N 1 (?B - 53) = (a, b)" by fastforce
  have a: "a = m * 2 ^ k * b" "0 < b" using sc [OF s1] by auto
  obtain a0 b0 where s0: "scale ?N 1 (?B - 1 - 53) = (a0, b0)" by fastforce
  have "\<not> a0 < 2 ^ 53 * b0"
  proof
    assume l: "a0 < 2 ^ 53 * b0"
    have "a * (2 * b0) = a0 * b" by (rule scale_succ [OF s0]) (use s1 in simp)
    also have "\<dots> < (2 ^ 53 * b0) * b" using l a(2) by simp
    finally have "(2 * (m * 2 ^ k)) * (b * b0) < 2 ^ 53 * (b * b0)" by (simp add: a(1) ac_simps)
    then have "2 * (m * 2 ^ k) < 2 ^ 53" using mult_less_cancel2 by blast
    with mk(2) show False by simp
  qed
  then have re: "round_exp 53 (- 1074 - e) ?N 1 = ?B - 53"
    using r(1) s0 by (simp add: round_exp_def B blen_1 Let_def)
  have "rne a b = m * 2 ^ k" unfolding a(1) by (rule rne_exact [OF a(2)])
  then have rp: "round_pos 53 (- 1074 - e) ?N 1 = (m * 2 ^ k, ?B - 53)"
    unfolding round_pos_def Let_def re s1 by simp
  have "?N \<noteq> 0" using m(1) by simp
  then show ?thesis unfolding f64_round_def rp Let_def prod.case using r(2) by (simp add: k_def algebra_simps)
qed

definition exact :: "nat \<Rightarrow> f64" where
  "exact n = (if n = 0 then Fin False 0 0 else Fin False (n * 2 ^ (53 - blen n)) (int (blen n) - 53))"

lemma f64_of_nat: "n < 2 ^ 53 \<Longrightarrow> f64_of_int (int n) = exact n"
  using f64_round_exact [of n 0 0 False] blen_less [of n 53]
  by (cases "n = 0") (auto simp: f64_of_int_def exact_def f64_round_def)

lemma exact_shape: "0 < n \<Longrightarrow> n < 2 ^ 53 \<Longrightarrow> exact n = Fin False (n * 2 ^ (53 - blen n)) (int (blen n) - 53)
    \<and> 0 < blen n \<and> blen n \<le> 53"
  using blen_less [of n 53] blen_pos [of n] by (simp add: exact_def)

lemma fmul_exact:
  assumes "0 < x" "x < 2 ^ 53" "0 < y" "y < 2 ^ 53" "x * y < 2 ^ 53"
  shows "fmul (exact x) (exact y) = exact (x * y)"
proof -
  define p q where "p = 53 - blen x" and "q = 53 - blen y"
  have x: "exact x = Fin False (x * 2 ^ p) (- int p)" and y: "exact y = Fin False (y * 2 ^ q) (- int q)"
    using exact_shape [OF assms(1,2)] exact_shape [OF assms(3,4)] by (simp_all add: p_def q_def)
  have xy: "0 < x * y" "blen (x * y) \<le> 53" using assms blen_less by auto
  have "fmul (exact x) (exact y) = f64_round False ((x * y) * 2 ^ (p + q)) 1 (- int p - int q)"
    by (simp add: x y power_add ac_simps)
  also have "\<dots> = exact (x * y)"
    using f64_round_exact [OF xy, of "- int p - int q" "p + q" False] xy
    by (simp add: exact_def)
  finally show ?thesis .
qed

lemma fadd_exact:
  assumes "0 < x" "x < 2 ^ 53" "0 < y" "y < 2 ^ 53" "x + y < 2 ^ 53"
  shows "fadd (exact x) (exact y) = exact (x + y)"
proof -
  define p q r where "p = 53 - blen x" and "q = 53 - blen y" and "r = max p q"
  have x: "exact x = Fin False (x * 2 ^ p) (- int p)" and y: "exact y = Fin False (y * 2 ^ q) (- int q)"
    using exact_shape [OF assms(1,2)] exact_shape [OF assms(3,4)] by (simp_all add: p_def q_def)
  have b: "min (- int p) (- int q) = - int r" by (simp add: r_def)
  define S where "S = (x + y) * 2 ^ r"
  have "p + nat (- int p - - int r) = r" "q + nat (- int q - - int r) = r" by (simp_all add: r_def)
  then have "(2::nat) ^ p * 2 ^ nat (- int p - - int r) = 2 ^ r" "(2::nat) ^ q * 2 ^ nat (- int q - - int r) = 2 ^ r"
    by (metis power_add)+
  then have "fin_int False (x * 2 ^ p) (nat (- int p - - int r)) = int (x * 2 ^ r)"
    "fin_int False (y * 2 ^ q) (nat (- int q - - int r)) = int (y * 2 ^ r)"
    by (simp_all only: fin_int_def if_False mult.assoc)
  then have sum: "fin_int False (x * 2 ^ p) (nat (- int p - - int r)) +
      fin_int False (y * 2 ^ q) (nat (- int q - - int r)) = int S"
    by (simp only: S_def distrib_right of_nat_add)
  have "0 < S" using assms(1) by (simp add: S_def)
  then have "fadd (exact x) (exact y) = f64_round False S 1 (- int r)"
    unfolding x y fadd.simps b Let_def sum by simp
  also have "\<dots> = exact (x + y)"
    using f64_round_exact [of "x + y" "- int r" r False] assms blen_less [of "x + y" 53]
    by (simp add: exact_def S_def)
  finally show ?thesis .
qed

lemma flt_exact:
  assumes "0 < x" "x < 2 ^ 53" "0 < y" "y < 2 ^ 53"
  shows "flt (exact x) (exact y) \<longleftrightarrow> x < y"
proof -
  define p q r where "p = 53 - blen x" and "q = 53 - blen y" and "r = max p q"
  have x: "exact x = Fin False (x * 2 ^ p) (- int p)" and y: "exact y = Fin False (y * 2 ^ q) (- int q)"
    using exact_shape [OF assms(1,2)] exact_shape [OF assms(3,4)] by (simp_all add: p_def q_def)
  have b: "min (- int p) (- int q) = - int r" by (simp add: r_def)
  have "p + nat (- int p - - int r) = r" "q + nat (- int q - - int r) = r" by (simp_all add: r_def)
  then have "(2::nat) ^ p * 2 ^ nat (- int p - - int r) = 2 ^ r" "(2::nat) ^ q * 2 ^ nat (- int q - - int r) = 2 ^ r"
    by (metis power_add)+
  then have "fin_int False (x * 2 ^ p) (nat (- int p - - int r)) = int (x * 2 ^ r)"
    "fin_int False (y * 2 ^ q) (nat (- int q - - int r)) = int (y * 2 ^ r)"
    by (simp_all only: fin_int_def if_False mult.assoc)
  then show ?thesis unfolding x y flt.simps b Let_def by simp
qed

lemma fadd_exact_zero:
  assumes "0 < x" "x < 2 ^ 53"
  shows "fadd (exact x) (Fin False 0 0) = exact x"
proof -
  define p S where "p = 53 - blen x" and "S = x * 2 ^ p"
  have x: "exact x = Fin False S (- int p)" using exact_shape [OF assms] by (simp add: p_def S_def)
  have b: "min (- int p) 0 = - int p" by simp
  have z: "fin_int False 0 k = 0" "fin_int False n 0 = int n" for k n by (simp_all add: fin_int_def)
  have n: "nat (- int p - - int p) = 0" by simp
  have "0 < S" using assms(1) by (simp add: S_def)
  then have "fadd (exact x) (Fin False 0 0) = f64_round False S 1 (- int p)"
    unfolding x fadd.simps b Let_def n z by simp
  also have "\<dots> = exact x"
    using f64_round_exact [of x "- int p" p False] assms blen_less [of x 53] by (simp add: exact_def p_def S_def)
  finally show ?thesis .
qed

lemma exact_zero: "f64_of_int 0 = Fin False 0 0"
  by (simp add: f64_of_int_def f64_round_def)

lemma fdiv_zero: "0 < y \<Longrightarrow> y < 2 ^ 53 \<Longrightarrow> fdiv (Fin False 0 0) (exact y) = Fin False 0 0"
  using exact_shape [of y] by (simp add: f64_round_def)

end
