(* ===== verification/ScreenSpec.thy ===== *)
theory ScreenSpec
  imports Screen ReportSpec FloatInt
begin

text \<open>
  The statistics window: every cell it draws for a temperature or a fan writes its terminator one
  byte behind the buffer.
\<close>

lemma cell_text_overrun: "cell_text t = None"
proof -
  have "length (snprintf_s 22 t) < 22" by (rule snprintf_s_length) simp
  then show ?thesis using wr_beyond by (simp add: cell_text_def Let_def cmem)
qed

lemma temp_cells_shown:
  "temp_cells ts l n = (if \<exists>t \<in> set ts. flt (Fin False 0 0) (temp_value t) then None else Some (l, []))"
  by (induction ts arbitrary: l n) (auto simp: cell_text_overrun bind_eq_None_conv)

lemma fan_cells_shown:
  "fan_cells ts l n = (if \<exists>t \<in> set ts. 0 \<le> fan_value t then None else Some (l, []))"
  by (induction ts arbitrary: l n) (auto simp: cell_text_overrun bind_eq_None_conv)

lemma out_loop_cells:
  "30 \<le> cols \<Longrightarrow> i + k \<le> length bs \<Longrightarrow>
   \<exists>xs. out_loop (\<lambda>i. do { b \<leftarrow> rd bs (int i); test_cells cols (p + int i) b }) i k = Some xs"
  by (rule out_loop_total) (auto simp: cmem test_cells_def msg_text_def)

section \<open>Properties\<close>

text \<open>C18: On a terminal of at least 30 columns and with percentages that fit the bars, drawing the
  statistics window is defined exactly when it has no temperature above zero and no fan to show:
  each of these writes the byte 22 of an array of 22.\<close>

theorem stat_window_overrun:
  assumes "30 \<le> cols" and "sensors_ok (sens w)"
    and "burnin_script_count (mach w) \<le> length (burnin_scripts (mach w))"
    and "show_bar (cols - 21) (percent (cpu_usage (sens w) ! 0)) \<noteq> None"
    and "show_bar (cols - 21) (mem_percent (mem_info (sens w))) \<noteq> None"
  shows "draw_stat_window v cols w = None \<longleftrightarrow>
    (\<exists>t \<in> set (take (temp_qty (sens w)) (temp_data (sens w))). flt (Fin False 0 0) (temp_value t)) \<or>
    (\<exists>t \<in> set (take (fan_qty (sens w)) (fan_data (sens w))). 0 \<le> fan_value t)"
proof -
  let ?s = "sens w" and ?n = "burnin_script_count (mach w)" and ?bs = "burnin_scripts (mach w)"
  have u: "rd (cpu_usage ?s) 0 = Some (cpu_usage ?s ! 0)"
    using assms(2) cmem(1) [of 0 "cpu_usage ?s"] by (simp add: sensors_ok_def MAX_CPUS_def)
  have g: "\<exists>x. draw_graph cols y t p = Some x" if "show_bar (cols - 21) p \<noteq> None" for y t p
    using that by (auto simp: draw_graph_def Let_def)
  obtain g1 g2 where g1: "draw_graph cols 2 ''CPU usage'' (percent (cpu_usage ?s ! 0)) = Some g1"
    and g2: "draw_graph cols 3 ''Mem Usage'' (mem_percent (mem_info ?s)) = Some g2"
    using g assms(4,5) by blast
  have b: "\<exists>xs. out_loop (\<lambda>i. do { b \<leftarrow> rd ?bs (int i); test_cells cols (p + int i) b }) 0 ?n = Some xs" for p
    using out_loop_cells [OF assms(1), of 0 ?n ?bs p] assms(3) by simp
  obtain xs where b0: "out_loop (\<lambda>i. do { b \<leftarrow> rd ?bs (int i); test_cells cols (4 + 1 + 3 + 2 + int i) b }) 0 ?n = Some xs"
    using b by blast
  show ?thesis
    unfolding draw_stat_window_def Let_def u g1 g2 bind.bind_lunit temp_cells_shown fan_cells_shown
    using b0 by (auto simp: add.assoc)
qed

lemma bar_80: "show_bar 59 (Fin False 0 0) = Some 0"
proof -
  have n: "f64_of_int 59 = exact 59" "f64_of_int 100 = exact 100"
    using f64_of_nat [of 59] f64_of_nat [of 100] by simp_all
  have e: "exact 59 = Fin False 8303511812964352 (- 47)" "exact 100 = Fin False 7036874417766400 (- 46)"
    by (simp_all add: exact_def blen.simps)
  have b: "blen 8303511812964352 = 53" "blen 7036874417766400 = 53" by (simp_all add: blen.simps)
  have "fdiv (exact 59) (exact 100) = Fin False 5314247560297185 (- 53)"
    unfolding e fdiv.simps f64_round_def round_pos_def round_exp_def Let_def b scale_def rne_def by simp
  then show ?thesis by (simp add: show_bar_def n f64_round_def f64_to_int_def)
qed

definition warm_breakin :: breakin where
  "warm_breakin = no_breakin\<lparr>sens := no_sensors\<lparr>temp_qty := 1,
     temp_data := (temp_data no_sensors)[0 := \<lparr>temp_name = ''CPU0'', temp_value = exact 45\<rparr>]\<rparr>\<rparr>"

lemma stat_window_overrun_witness: "draw_stat_window ''3'' 80 warm_breakin = None"
proof -
  let ?s = "sens warm_breakin"
  have s: "sensors_ok ?s"
    using no_sensors_ok
    by (auto simp: warm_breakin_def no_breakin_def sensors_ok_def MAX_TEMPS_def
        dest!: set_update_subset_insert [THEN subsetD])
  have z: "percent (cpu_usage ?s ! 0) = Fin False 0 0" "mem_percent (mem_info ?s) = Fin False 0 0"
    by (simp_all add: warm_breakin_def no_breakin_def no_sensors_def MAX_CPUS_def)
  have "exact 45 = Fin False (45 * 2 ^ 47) (- 47)" by (simp add: exact_def blen.simps)
  then have h: "flt (Fin False 0 0) (exact 45)" by (simp add: fin_int_def)
  have "take (temp_qty ?s) (temp_data ?s) = [\<lparr>temp_name = ''CPU0'', temp_value = exact 45\<rparr>]"
    by (simp add: warm_breakin_def no_breakin_def no_sensors_def MAX_TEMPS_def numeral_eq_Suc)
  moreover have "burnin_script_count (mach warm_breakin) \<le> length (burnin_scripts (mach warm_breakin))"
    by (simp add: warm_breakin_def no_breakin_def)
  ultimately show ?thesis
    using stat_window_overrun [of 80 warm_breakin "''3''"] s z bar_80 h by simp
qed

end
