(* ===== verification/BenchSpec.thy ===== *)
theory BenchSpec
  imports Bench FloatInt SensorSpec
begin

text \<open>
  What the benchmarks compute: the parallel loops of the memory benchmark give the same arrays in
  every order of their iterations, and every element goes through one scalar recurrence; the disk
  benchmark has no result once a read fails.
\<close>

section \<open>Loops over the elements\<close>

text \<open>
  A loop whose body stores one element of one array, computed from values that the other
  iterations do not store.
\<close>

locale elem_loop =
  fixes n :: nat and body :: "nat \<Rightarrow> 's \<Rightarrow> 's option" and get :: "'s \<Rightarrow> 'a list"
    and put :: "'a list \<Rightarrow> 's \<Rightarrow> 's" and val :: "'s \<Rightarrow> nat \<Rightarrow> 'a" and ok :: "'s \<Rightarrow> bool"
  assumes body: "ok s \<Longrightarrow> j < n \<Longrightarrow> body j s = Some (put ((get s)[j := val s j]) s)"
    and get_put: "get (put xs s) = xs"
    and put_put: "put ys (put xs s) = put ys s"
    and put_get: "put (get s) s = s"
    and val_put: "i \<noteq> j \<Longrightarrow> val (put ((get s)[j := x]) s) i = val s i"
    and ok_put: "ok s \<Longrightarrow> length xs = n \<Longrightarrow> ok (put xs s)"
    and ok_length: "ok s \<Longrightarrow> length (get s) = n"
begin

lemma each:
  "distinct js \<Longrightarrow> set js \<subseteq> {..<n} \<Longrightarrow> ok s \<Longrightarrow>
   for_each body js s = Some (put (map (\<lambda>i. if i \<in> set js then val s i else get s ! i) [0..<n]) s)"
proof (induction js arbitrary: s)
  case Nil
  then have "map (\<lambda>i. get s ! i) [0..<n] = get s" using ok_length [of s] by (metis map_nth)
  then show ?case by (simp add: put_get)
next
  case (Cons j js)
  then have j: "j < n" "j \<notin> set js" and l: "length (get s) = n" by (simp_all add: ok_length)
  let ?s = "put ((get s)[j := val s j]) s"
  have "for_each body (j # js) s = for_each body js ?s" using body [OF Cons.prems(3) j(1)] by simp
  also have "\<dots> = Some (put (map (\<lambda>i. if i \<in> set js then val ?s i else get ?s ! i) [0..<n]) ?s)"
    using Cons l by (intro Cons.IH ok_put) simp_all
  also have "map (\<lambda>i. if i \<in> set js then val ?s i else get ?s ! i) [0..<n] =
    map (\<lambda>i. if i \<in> set (j # js) then val s i else get s ! i) [0..<n]"
  proof (intro map_cong refl)
    fix i
    have "val ?s i = val s i" if "i \<in> set js" using val_put [of i j s "val s j"] j(2) that by auto
    then show "(if i \<in> set js then val ?s i else get ?s ! i) = (if i \<in> set (j # js) then val s i else get s ! i)"
      using j l by (simp add: get_put)
  qed
  finally show ?case by (simp add: put_put)
qed

text \<open>The order of the iterations does not matter.\<close>

lemma all:
  assumes "distinct js" and "set js = {..<n}" and "ok s"
  shows "for_each body js s = Some (put (map (val s) [0..<n]) s)"
proof -
  have "map (\<lambda>i. if i \<in> set js then val s i else get s ! i) [0..<n] = map (val s) [0..<n]"
    using assms(2) by (intro map_cong refl) auto
  with each [OF assms(1) _ assms(3)] assms(2) show ?thesis by (simp only: order_refl)
qed

end

definition sized :: "nat \<Rightarrow> arrays \<Rightarrow> bool" where
  "sized n s \<longleftrightarrow> length (arr_a s) = n \<and> length (arr_b s) = n \<and> length (arr_c s) = n"

interpretation doubling: elem_loop n double_body arr_a "\<lambda>x s. s\<lparr>arr_a := x\<rparr>"
  "\<lambda>s j. fmul (f64_of_int 2) (arr_a s ! j)" "sized n" for n
  by unfold_locales (simp_all add: double_body_def sized_def cmem)

interpretation copying: elem_loop n copy_body arr_c "\<lambda>x s. s\<lparr>arr_c := x\<rparr>" "\<lambda>s j. arr_a s ! j" "sized n" for n
  by unfold_locales (simp_all add: copy_body_def sized_def cmem)

interpretation scaling: elem_loop n scale_body arr_b "\<lambda>x s. s\<lparr>arr_b := x\<rparr>"
  "\<lambda>s j. fmul (f64_of_int 3) (arr_c s ! j)" "sized n" for n
  by unfold_locales (simp_all add: scale_body_def sized_def cmem)

interpretation adding: elem_loop n add_body arr_c "\<lambda>x s. s\<lparr>arr_c := x\<rparr>"
  "\<lambda>s j. fadd (arr_a s ! j) (arr_b s ! j)" "sized n" for n
  by unfold_locales (simp_all add: add_body_def sized_def cmem)

interpretation triading: elem_loop n triad_body arr_a "\<lambda>x s. s\<lparr>arr_a := x\<rparr>"
  "\<lambda>s j. fadd (arr_b s ! j) (fmul (f64_of_int 3) (arr_c s ! j))" "sized n" for n
  by unfold_locales (simp_all add: triad_body_def sized_def cmem)

section \<open>The scalar recurrence\<close>

type_synonym scalars = "f64 \<times> f64 \<times> f64"

text \<open>One round of the four kernels on a single element of the arrays.\<close>

fun scalar_round :: "scalars \<Rightarrow> scalars" where
  "scalar_round (a, b, c) =
     (let c1 = a; b1 = fmul (f64_of_int 3) c1; c2 = fadd a b1; a1 = fadd b1 (fmul (f64_of_int 3) c2)
      in (a1, b1, c2))"

definition uniform :: "nat \<Rightarrow> scalars \<Rightarrow> arrays" where
  "uniform n x = (case x of (a, b, c) \<Rightarrow>
     \<lparr>arr_a = replicate n a, arr_b = replicate n b, arr_c = replicate n c\<rparr>)"

lemma uniform_sized: "sized n (uniform n x)"
  by (cases x) (simp add: sized_def uniform_def)

lemma map_const: "(\<And>i. i < n \<Longrightarrow> f i = v) \<Longrightarrow> map f [0..<n] = replicate n v"
  by (intro nth_equalityI) simp_all

text \<open>Every order is a permutation of the indices.\<close>

definition all_orders :: "nat \<Rightarrow> schedule \<Rightarrow> bool" where
  "all_orders n ord \<longleftrightarrow> (\<forall>k i. distinct (ord k i [0..<n]) \<and> set (ord k i [0..<n]) = {..<n})"

lemma one_round:
  assumes "all_orders n ord"
  shows "rounds n ord k (Suc m) (uniform n x) = rounds n ord (k + 1) m (uniform n (scalar_round x))"
proof -
  obtain a b c where x: "x = (a, b, c)" using prod_cases3 .
  have o: "distinct (ord k i [0..<n])" "set (ord k i [0..<n]) = {..<n}" for i using assms by (simp_all add: all_orders_def)
  let ?b1 = "fmul (f64_of_int 3) a"
  let ?c2 = "fadd a ?b1"
  have 1: "for_each copy_body (ord k 0 [0..<n]) (uniform n (a, b, c)) = Some (uniform n (a, b, a))"
    using copying.all [OF o uniform_sized [of n "(a, b, c)"]] map_const [of n "(!) (replicate n a)" a]
    by (simp add: uniform_def)
  have 2: "for_each scale_body (ord k 1 [0..<n]) (uniform n (a, b, a)) = Some (uniform n (a, ?b1, a))"
    using scaling.all [OF o uniform_sized [of n "(a, b, a)"]] map_const [of n "\<lambda>j. fmul (f64_of_int 3) (replicate n a ! j)" ?b1]
    by (simp add: uniform_def)
  have 3: "for_each add_body (ord k 2 [0..<n]) (uniform n (a, ?b1, a)) = Some (uniform n (a, ?b1, ?c2))"
    using adding.all [OF o uniform_sized [of n "(a, ?b1, a)"]]
      map_const [of n "\<lambda>j. fadd (replicate n a ! j) (replicate n ?b1 ! j)" ?c2]
    by (simp add: uniform_def)
  have 4: "for_each triad_body (ord k 3 [0..<n]) (uniform n (a, ?b1, ?c2)) = Some (uniform n (scalar_round x))"
    using triading.all [OF o uniform_sized [of n "(a, ?b1, ?c2)"]]
      map_const [of n "\<lambda>j. fadd (replicate n ?b1 ! j) (fmul (f64_of_int 3) (replicate n ?c2 ! j))"]
    by (simp add: uniform_def x Let_def)
  show ?thesis unfolding rounds.simps x 1 2 3 4 [unfolded x] bind.bind_lunit ..
qed

lemma all_rounds:
  "all_orders n ord \<Longrightarrow> rounds n ord k m (uniform n x) = Some (uniform n ((scalar_round ^^ m) x))"
proof (induction m arbitrary: k x)
  case 0
  then show ?case by simp
next
  case (Suc m)
  then show ?case using one_round [OF Suc.prems] by (simp only: funpow_Suc_right comp_def)
qed

text \<open>The first loop sets all three arrays.\<close>

lemma init_loop:
  "set js \<subseteq> {..<n} \<Longrightarrow> sized n s \<Longrightarrow> \<exists>s'. for_each init_body js s = Some s' \<and> sized n s' \<and>
    (\<forall>i < n. (arr_a s' ! i, arr_b s' ! i, arr_c s' ! i) =
      (if i \<in> set js then (f64_of_int 1, f64_of_int 2, f64_of_int 0) else (arr_a s ! i, arr_b s ! i, arr_c s ! i)))"
proof (induction js arbitrary: s)
  case Nil
  then show ?case by simp
next
  case (Cons j js)
  let ?s = "s\<lparr>arr_a := (arr_a s)[j := f64_of_int 1], arr_b := (arr_b s)[j := f64_of_int 2],
    arr_c := (arr_c s)[j := f64_of_int 0]\<rparr>"
  have b: "init_body j s = Some ?s" "sized n ?s"
    using Cons.prems by (simp_all add: init_body_def sized_def cmem)
  obtain s' where "for_each init_body js ?s = Some s'" "sized n s'"
    "\<forall>i < n. (arr_a s' ! i, arr_b s' ! i, arr_c s' ! i) =
      (if i \<in> set js then (f64_of_int 1, f64_of_int 2, f64_of_int 0) else (arr_a ?s ! i, arr_b ?s ! i, arr_c ?s ! i))"
    using Cons.IH [OF _ b(2)] Cons.prems(1) by auto
  then show ?case using b Cons.prems by (auto simp: sized_def nth_list_update)
qed

lemma init_all:
  assumes "sized n s"
  shows "for_each init_body [0..<n] s = Some (uniform n (f64_of_int 1, f64_of_int 2, f64_of_int 0))"
proof -
  obtain s' where s': "for_each init_body [0..<n] s = Some s'" "sized n s'"
    "\<forall>i < n. (arr_a s' ! i, arr_b s' ! i, arr_c s' ! i) = (f64_of_int 1, f64_of_int 2, f64_of_int 0)"
    using init_loop [OF _ assms, of "[0..<n]"] by (auto simp: lessThan_atLeast0)
  then have "s' = uniform n (f64_of_int 1, f64_of_int 2, f64_of_int 0)"
    by (cases s') (auto simp: uniform_def sized_def intro!: nth_equalityI)
  with s' show ?thesis by simp
qed

lemma double_all:
  "for_each double_body [0..<n] (uniform n (a, b, c)) = Some (uniform n (fmul (f64_of_int 2) a, b, c))"
  using doubling.all [OF distinct_upt _ uniform_sized [of n "(a, b, c)"], of 0 n] map_const [of n "\<lambda>j. fmul (f64_of_int 2) (replicate n a ! j)"]
  by (simp add: uniform_def lessThan_atLeast0)

definition stream_rates :: "nat \<Rightarrow> (nat \<Rightarrow> f64) \<Rightarrow> bench_stream_t" where
  "stream_rates n mt = \<lparr>bs_copy = rate n 2 (mt 0), bs_scale = rate n 2 (mt 1),
     bs_add = rate n 3 (mt 2), bs_triad = rate n 3 (mt 3)\<rparr>"

text \<open>On whole numbers the recurrence is exact: a round multiplies the first array by 15.\<close>

lemma scalar_round_exact:
  assumes "0 < a" and "15 * a < 2 ^ 53"
  shows "scalar_round (exact a, b, c) = (exact (15 * a), exact (3 * a), exact (4 * a))"
proof -
  have k: "f64_of_int 3 = exact 3" using f64_of_nat [of 3] by simp
  have "fmul (exact 3) (exact a) = exact (3 * a)" using assms by (intro fmul_exact) simp_all
  moreover have "fadd (exact a) (exact (3 * a)) = exact (a + 3 * a)" using assms by (intro fadd_exact) simp_all
  moreover have "fmul (exact 3) (exact (4 * a)) = exact (3 * (4 * a))" using assms by (intro fmul_exact) simp_all
  moreover have "fadd (exact (3 * a)) (exact (12 * a)) = exact (3 * a + 12 * a)" using assms by (intro fadd_exact) simp_all
  ultimately show ?thesis by (simp add: k Let_def)
qed

lemma scalar_rounds_exact:
  "0 < a \<Longrightarrow> 15 ^ Suc m * a < 2 ^ 53 \<Longrightarrow>
   (scalar_round ^^ Suc m) (exact a, b, c) = (exact (15 ^ Suc m * a), exact (3 * (15 ^ m * a)), exact (4 * (15 ^ m * a)))"
proof (induction m arbitrary: a b c)
  case 0
  then show ?case using scalar_round_exact [of a b c] by simp
next
  case (Suc m)
  have "15 * a \<le> 15 ^ Suc (Suc m) * a" by simp
  then have l: "15 * a < 2 ^ 53" using Suc.prems(2) by (rule le_less_trans)
  have "(scalar_round ^^ Suc (Suc m)) (exact a, b, c) =
    (scalar_round ^^ Suc m) (exact (15 * a), exact (3 * a), exact (4 * a))"
    unfolding funpow_Suc_right [of "Suc m"] comp_def scalar_round_exact [OF Suc.prems(1) l] ..
  also have "\<dots> = (exact (15 ^ Suc m * (15 * a)), exact (3 * (15 ^ m * (15 * a))), exact (4 * (15 ^ m * (15 * a))))"
    using Suc.prems by (intro Suc.IH) (simp_all add: ac_simps)
  finally show ?case by (simp add: ac_simps)
qed

lemma final_scalars:
  "(scalar_round ^^ STREAM_NTIMES) (fmul (f64_of_int 2) (f64_of_int 1), b, c) =
   (f64_of_int (2 * 15 ^ 10), f64_of_int (6 * 15 ^ 9), f64_of_int (8 * 15 ^ 9))"
proof -
  have "f64_of_int 1 = exact 1" "f64_of_int 2 = exact 2" using f64_of_nat [of 1] f64_of_nat [of 2] by simp_all
  then have two: "fmul (f64_of_int 2) (f64_of_int 1) = exact 2" using fmul_exact [of 2 1] by simp
  have n: "STREAM_NTIMES = Suc 9" by (simp add: STREAM_NTIMES_def)
  have "(scalar_round ^^ STREAM_NTIMES) (exact 2, b, c) =
    (exact (15 ^ Suc 9 * 2), exact (3 * (15 ^ 9 * 2)), exact (4 * (15 ^ 9 * 2)))"
    unfolding n by (rule scalar_rounds_exact) simp_all
  moreover have "exact (15 ^ Suc 9 * 2) = f64_of_int (2 * 15 ^ 10)" "exact (3 * (15 ^ 9 * 2)) = f64_of_int (6 * 15 ^ 9)"
    "exact (4 * (15 ^ 9 * 2)) = f64_of_int (8 * 15 ^ 9)"
    using f64_of_nat [of "15 ^ Suc 9 * 2"] f64_of_nat [of "3 * (15 ^ 9 * 2)"] f64_of_nat [of "4 * (15 ^ 9 * 2)"] by simp_all
  ultimately show ?thesis unfolding two by simp
qed

section \<open>Properties\<close>

text \<open>C14: The memory benchmark does not depend on how its parallel loops are scheduled: whatever
  the order of the iterations of each loop, the five million elements of the three arrays end at
  \<open>2 * 15 ^ 10\<close>, \<open>6 * 15 ^ 9\<close> and \<open>8 * 15 ^ 9\<close>, exactly, as one scalar recurrence computes them, no
  access leaves an array, and the four rates are the bytes moved over the least time: of the nine times
  that count and of what earlier calls have left in \<open>mt\<close>, which is \<open>FLT_MAX\<close> before the first.\<close>

theorem stream_order_independent:
  assumes "all_orders STREAM_N ord" and "sized STREAM_N s"
  shows "bench_stream ord tm mt s =
    Some (stream_rates STREAM_N (\<lambda>j. min_time tm j (mt j)), \<lambda>j. min_time tm j (mt j),
      uniform STREAM_N (f64_of_int (2 * 15 ^ 10), f64_of_int (6 * 15 ^ 9), f64_of_int (8 * 15 ^ 9)))"
  unfolding bench_stream_def stream_of_size_def init_all [OF assms(2)] bind.bind_lunit double_all
    all_rounds [OF assms(1)] final_scalars Let_def stream_rates_def ..

lemma stream_order_independent_witness:
  "bench_stream (\<lambda>k i js. if i = 0 then rev js else js) (\<lambda>i. f64_of_int (int i)) (\<lambda>j. FLT_MAX)
     (uniform STREAM_N (f64_of_int 0, f64_of_int 0, f64_of_int 0)) =
   Some (stream_rates STREAM_N (\<lambda>j. min_time (\<lambda>i. f64_of_int (int i)) j FLT_MAX),
     \<lambda>j. min_time (\<lambda>i. f64_of_int (int i)) j FLT_MAX,
     uniform STREAM_N (f64_of_int (2 * 15 ^ 10), f64_of_int (6 * 15 ^ 9), f64_of_int (8 * 15 ^ 9)))"
  by (rule stream_order_independent) (simp_all add: all_orders_def uniform_sized lessThan_atLeast0)

text \<open>C40: With a device that can be opened and a buffer that can be set up, the disk benchmark
  returns a value exactly when every block it reads is complete: it stops at the first iteration
  after which three seconds have passed, at the latest at the 1024th, and returns two megabytes for
  each iteration over the elapsed time. A short read before that (a device smaller than 2 GB that is
  fast enough, a read error) leads to a return value computed from a variable that was never set.\<close>

theorem bench_disk_rate:
  assumes "fd_ok e" and "shmget_ok e" and "shm_lock_ok e" and "shmat_ok e"
    and "\<forall>i < n. i + 1 < 1024 \<and> flt (elapsed_since (timer e 0) (timer e (i + 1))) (f64_of_int 3)"
    and "n + 1 = 1024 \<or> \<not> flt (elapsed_since (timer e 0) (timer e (n + 1))) (f64_of_int 3)"
  shows "bench_disk e = (if \<exists>i \<le> n. reads e i \<noteq> TIMING_BUF_BYTES then None
    else Some (fdiv (f64_of_int (2 * (int n + 1))) (elapsed_since (timer e 0) (timer e (n + 1))), True))"
proof -
  let ?el = "\<lambda>i. elapsed_since (timer e 0) (timer e (i + 1))"
  have n: "n < 1024" using assms(5) by (cases n) auto
  have run: "i + k = 1024 \<Longrightarrow> i \<le> n \<Longrightarrow> disk_loop e i k =
    (if \<exists>j. i \<le> j \<and> j \<le> n \<and> read_big_block (reads e j) then None else Some (n + 1, ?el n))" for i k
  proof (induction k arbitrary: i)
    case 0
    then show ?case using n by simp
  next
    case (Suc k)
    show ?case
    proof (cases "read_big_block (reads e i)")
      case True
      then show ?thesis using Suc.prems(2) by auto
    next
      case ok: False
      show ?thesis
      proof (cases "i = n")
        case True
        then show ?thesis using ok assms(6) by (auto simp: Let_def)
      next
        case False
        then have i: "i < n" "i + 1 \<le> n" using Suc.prems(2) by simp_all
        have "i \<le> j \<and> read_big_block (reads e j) \<longleftrightarrow> i + 1 \<le> j \<and> read_big_block (reads e j)" for j
          using ok by (cases "j = i") auto
        then have "(\<exists>j. i \<le> j \<and> j \<le> n \<and> read_big_block (reads e j)) \<longleftrightarrow>
          (\<exists>j. i + 1 \<le> j \<and> j \<le> n \<and> read_big_block (reads e j))" by blast
        moreover have "disk_loop e i (Suc k) = disk_loop e (i + 1) k"
          using ok i(1) assms(5) by (simp add: Let_def)
        ultimately show ?thesis using Suc.IH [of "i + 1"] Suc.prems(1) i(2) by simp
      qed
    qed
  qed
  have u: "uint (word_of_int (int (n + 1)) * 2 :: 32 word) = 2 * (int n + 1)"
    using uint_small [of "2 * (n + 1)"] n by (simp add: mult.commute)
  have r: "disk_loop e 0 1024 = (if \<exists>j. 0 \<le> j \<and> j \<le> n \<and> read_big_block (reads e j) then None else Some (n + 1, ?el n))"
    by (rule run) simp_all
  show ?thesis using assms(1-4) unfolding bench_disk_def r u read_big_block_def by (simp add: u [simplified])
qed

lemma elapsed_four: "elapsed_since (1000, 0) (996, 0) = exact 4" "\<not> flt (exact 4) (f64_of_int 3)"
proof -
  have n: "f64_of_int 4 = exact 4" "f64_of_int 1000000 = exact 1000000" "f64_of_int 3 = exact 3"
    using f64_of_nat [of 4] f64_of_nat [of 1000000] f64_of_nat [of 3] by simp_all
  show "elapsed_since (1000, 0) (996, 0) = exact 4"
    using fdiv_zero [of 1000000] fadd_exact_zero [of 4] by (simp add: elapsed_since_def n exact_zero)
  show "\<not> flt (exact 4) (f64_of_int 3)" unfolding n using flt_exact [of 4 3] by simp
qed

lemma bench_disk_rate_witness:
  "bench_disk \<lparr>fd_ok = True, shmget_ok = True, shm_lock_ok = True, shmat_ok = True,
      reads = (\<lambda>i. 2097152), timer = (\<lambda>i. (1000 - 4 * int i, 0))\<rparr> =
    Some (fdiv (f64_of_int 2) (elapsed_since (1000, 0) (996, 0)), True) \<and>
   bench_disk \<lparr>fd_ok = True, shmget_ok = True, shm_lock_ok = True, shmat_ok = True,
      reads = (\<lambda>i. 0), timer = (\<lambda>i. (1000 - 4 * int i, 0))\<rparr> = None"
  using bench_disk_rate [of "\<lparr>fd_ok = True, shmget_ok = True, shm_lock_ok = True, shmat_ok = True,
      reads = (\<lambda>i. 2097152), timer = (\<lambda>i. (1000 - 4 * int i, 0))\<rparr>" 0]
    bench_disk_rate [of "\<lparr>fd_ok = True, shmget_ok = True, shm_lock_ok = True, shmat_ok = True,
      reads = (\<lambda>i. 0), timer = (\<lambda>i. (1000 - 4 * int i, 0))\<rparr>" 0] elapsed_four
  by (simp add: TIMING_BUF_BYTES_def)

text \<open>The password program writes past its two-byte salt for every password of two characters
  or more; only for one character (or none) can it print what \<open>crypt\<close> returns.\<close>

theorem cryptpasswd_overflow:
  "cryptpasswd_main crypt (Some a) = (if 2 \<le> length a then None else map_option (\<lambda>p. p @ [NL]) (crypt a a)) \<and>
   cryptpasswd_main crypt None = None"
proof -
  have "min 2 (length a) < 2 \<Longrightarrow> length a < 2" by linarith
  then show ?thesis by (cases "crypt a a") (auto simp: cryptpasswd_main_def sprintf_s_def snprintf_s_def)
qed

end
