(* ===== verification/BurninFind.thy ===== *)
theory BurninFind
  imports Burnin
begin

text \<open>
  What \<open>find_burnin_tests\<close> puts into the table. \<open>strtok_r\<close> destroys the list of disabled tests
  while the first directory entry is compared with it: from the second entry on only the first
  name of the list is left.
\<close>

section \<open>The list of disabled tests\<close>

fun join :: "string list \<Rightarrow> string" where
  "join [] = []"
| "join [t] = t"
| "join (t # ts) = t @ CHR '','' # join ts"

definition token :: "string \<Rightarrow> bool" where
  "token t \<longleftrightarrow> t \<noteq> [] \<and> nul_free t \<and> CHR '','' \<notin> set t"

lemma join_nul_free: "\<forall>t \<in> set ts. token t \<Longrightarrow> nul_free (join ts)"
  by (induction ts rule: join.induct) (auto simp: token_def)

lemma strtok_last:
  assumes "token t"
  shows "strtok_r (CHR '','') (pre @ t @ NUL # post) (length pre) =
    Some (pre @ t @ NUL # post, Some (length pre), length pre + length t)"
proof -
  have c: "cstr (pre @ t @ NUL # post) (length pre) = Some t" using assms by (simp add: token_def cmem)
  have t: "takeWhile (\<lambda>c. c = CHR '','') t = []" using assms by (cases t) (auto simp: token_def)
  have "index_of (CHR '','') t = None" using assms by (simp add: token_def index_of_None)
  then show ?thesis using assms by (simp add: strtok_r_def c t token_def)
qed

lemma strtok_comma:
  assumes t: "token t" and r: "nul_free r"
  shows "strtok_r (CHR '','') (pre @ (t @ CHR '','' # r) @ NUL # post) (length pre) =
    Some (pre @ t @ NUL # r @ NUL # post, Some (length pre), length pre + length t + 1)"
proof -
  let ?s = "t @ CHR '','' # r"
  have c: "cstr (pre @ ?s @ NUL # post) (length pre) = Some ?s"
    using t r by (intro cstr_append) (simp add: token_def)
  have k: "takeWhile (\<lambda>c. c = CHR '','') ?s = []" using t by (cases t) (auto simp: token_def)
  have i: "index_of (CHR '','') ?s = Some (length t)" using t by (simp add: token_def)
  have "(pre @ ?s @ NUL # post)[length pre + length t := NUL] = pre @ t @ NUL # r @ NUL # post"
    by (simp add: list_update_append)
  then show ?thesis using c k i by (simp add: strtok_r_def)
qed

lemma strtok_end: "strtok_r (CHR '','') (pre @ NUL # post) (length pre) =
    Some (pre @ NUL # post, None, length pre)"
  using cstr_append [of "[]" pre post] by (simp add: strtok_r_def)

text \<open>The comparison of one entry with the whole list: right, but only the first name survives.\<close>

lemma disable_loop_list:
  "\<forall>t \<in> set ts. token t \<Longrightarrow> ts \<noteq> [] \<Longrightarrow>
   \<exists>post'. disable_loop e (pre @ join ts @ NUL # post) (length pre) =
     Some (pre @ hd ts @ NUL # post', e \<in> set ts)"
proof (induction ts arbitrary: pre rule: join.induct)
  case 1
  then show ?case by simp
next
  case (2 t)
  let ?m = "pre @ t @ NUL # post"
  have t: "token t" "cstr ?m (length pre) = Some t" using 2 by (simp_all add: token_def cmem)
  have "disable_loop e ?m (length pre) =
    (if t = e then Some (?m, True) else disable_loop e ?m (length pre + length t))"
    using t by (subst disable_loop.simps) (simp add: strtok_last)
  also have "disable_loop e ?m (length pre + length t) = Some (?m, False)"
    using strtok_end [of "pre @ t" post] by (subst disable_loop.simps) simp
  finally show ?case by auto
next
  case (3 t u us)
  let ?r = "join (u # us)"
  have t: "token t" and r: "nul_free ?r" using "3.prems"(1) join_nul_free [of "u # us"] by simp_all
  let ?m = "pre @ t @ NUL # ?r @ NUL # post"
  have s: "strtok_r (CHR '','') (pre @ join (t # u # us) @ NUL # post) (length pre) =
    Some (?m, Some (length pre), length pre + length t + 1)"
    using strtok_comma [OF t r, of pre post] by simp
  have "cstr ?m (length pre) = Some t" using t by (simp add: token_def cmem)
  then have d: "disable_loop e (pre @ join (t # u # us) @ NUL # post) (length pre) =
    (if t = e then Some (?m, True) else disable_loop e ?m (length pre + length t + 1))"
    using s by (subst disable_loop.simps) simp
  obtain post' where "disable_loop e ((pre @ t @ [NUL]) @ ?r @ NUL # post) (length (pre @ t @ [NUL])) =
    Some ((pre @ t @ [NUL]) @ hd (u # us) @ NUL # post', e \<in> set (u # us))"
    using "3.IH" [of "pre @ t @ [NUL]"] "3.prems"(1) by auto
  then have l: "disable_loop e ?m (length pre + length t + 1) =
    Some (pre @ t @ NUL # u @ NUL # post', e \<in> set (u # us))" by simp
  show ?case
  proof (cases "t = e")
    case True
    then show ?thesis unfolding d by auto
  next
    case False
    then have "disable_loop e (pre @ join (t # u # us) @ NUL # post) (length pre) =
      Some (pre @ hd (t # u # us) @ NUL # (u @ NUL # post'), e \<in> set (t # u # us))"
      unfolding d using l by auto
    then show ?thesis by blast
  qed
qed

lemma disable_loop_single:
  assumes "token t"
  shows "disable_loop e (t @ NUL # post) 0 = Some (t @ NUL # post, e = t)"
proof -
  let ?m = "t @ NUL # post"
  have s: "strtok_r (CHR '','') ?m 0 = Some (?m, Some 0, length t)"
    using strtok_last [OF assms, of "[]" post] by simp
  have c: "cstr ?m 0 = Some t" using assms by (simp add: token_def cmem)
  have "disable_loop e ?m (length t) = Some (?m, False)"
    using strtok_end [of t post] by (subst disable_loop.simps) simp
  then show ?thesis using s c by (subst disable_loop.simps) auto
qed

lemma disable_loop_none: "disable_loop e (NUL # post) 0 = Some (NUL # post, False)"
  using strtok_end [of "[]" post] by (subst disable_loop.simps) simp

section \<open>Filling the table\<close>

definition visible :: "string \<Rightarrow> bool" where
  "visible e \<longleftrightarrow> take 1 e \<noteq> ''.''"

fun put_all :: "nat \<Rightarrow> string list \<Rightarrow> burnin_scripts_t list \<Rightarrow> burnin_scripts_t list" where
  "put_all n [] ss = ss"
| "put_all n (e # es) ss = put_all (n + 1) es (ss[n := new_script e (ss ! n)])"

lemma put_all_length [simp]: "length (put_all n es ss) = length ss"
  by (induction n es ss rule: put_all.induct) auto

lemma put_all_before: "i < n \<Longrightarrow> put_all n es ss ! i = ss ! i"
  by (induction n es ss rule: put_all.induct) auto

lemma put_all_nth:
  "n + length es \<le> length ss \<Longrightarrow> i < length es \<Longrightarrow>
   put_all n es ss ! (n + i) = new_script (es ! i) (ss ! (n + i))"
proof (induction n es ss arbitrary: i rule: put_all.induct)
  case (2 n e es ss)
  show ?case
  proof (cases i)
    case 0
    with 2 show ?thesis by (simp add: put_all_before)
  next
    case (Suc j)
    with 2 show ?thesis using "2.IH" [of j] by simp
  qed
qed simp

text \<open>The loop when the list of disabled tests no longer changes.\<close>

lemma find_loop_stable:
  assumes "\<forall>e. disable_loop e m 0 = Some (m, dis e)"
  shows "find_loop es n (m, ss) =
    (let fs = filter (\<lambda>e. \<not> dis e \<and> visible e) es in
     if n + length fs \<le> length ss \<or> fs = [] then Some (n + length fs, m, put_all n fs ss) else None)"
proof (induction es arbitrary: n ss)
  case Nil
  then show ?case by simp
next
  case (Cons e es)
  show ?case
  proof (cases "\<not> dis e \<and> visible e")
    case True
    show ?thesis
    proof (cases "n < length ss")
      case lt: True
      then have "find_loop (e # es) n (m, ss) = find_loop es (n + 1) (m, ss[n := new_script e (ss ! n)])"
        using True assms by (simp add: cmem visible_def)
      with True lt Cons.IH show ?thesis by (auto simp: Let_def)
    next
      case False
      then show ?thesis using True assms by (simp add: cmem visible_def Let_def)
    qed
  next
    case False
    then have "find_loop (e # es) n (m, ss) = find_loop es n (m, ss)"
      using assms by (auto simp: visible_def)
    with False Cons.IH show ?thesis by (auto simp: Let_def)
  qed
qed

text \<open>The tests found, for the names \<open>ts\<close> of the option and the directory entries.\<close>

fun found :: "string list \<Rightarrow> string list \<Rightarrow> string list" where
  "found ts [] = []"
| "found [] es = filter visible es"
| "found (t # ts) (e # es) =
     filter (\<lambda>e. e \<notin> set (t # ts) \<and> visible e) [e] @ filter (\<lambda>e. e \<noteq> t \<and> visible e) es"

lemma found_Nil: "found [] es = filter visible es"
  by (cases es) simp_all

lemma found_set: "set (found ts es) \<subseteq> set es"
  by (cases "(ts, es)" rule: found.cases) auto

lemma find_loop_found:
  assumes t: "\<forall>t \<in> set ts. token t"
  shows "\<exists>m'. find_loop es 0 (join ts @ NUL # post, ss) =
    (if length (found ts es) \<le> length ss
     then Some (length (found ts es), m', put_all 0 (found ts es) ss) else None)"
proof (cases ts)
  case Nil
  have "find_loop es 0 (NUL # post, ss) = (let fs = filter (\<lambda>e. \<not> False \<and> visible e) es in
     if 0 + length fs \<le> length ss \<or> fs = [] then Some (0 + length fs, NUL # post, put_all 0 fs ss) else None)"
    by (rule find_loop_stable) (simp add: disable_loop_none)
  then show ?thesis using Nil found_Nil by (auto simp: Let_def)
next
  case (Cons u us)
  then have u: "token u" using t by simp
  show ?thesis
  proof (cases es)
    case Nil
    then show ?thesis by auto
  next
    case E: (Cons e es')
    obtain post' where d: "disable_loop e (join ts @ NUL # post) 0 = Some (u @ NUL # post', e \<in> set ts)"
      using disable_loop_list [OF t, of e "[]" post] Cons by auto
    let ?m = "u @ NUL # post'" and ?rest = "filter (\<lambda>e. e \<noteq> u \<and> visible e) es'"
    have s: "find_loop es' n (?m, ss') = (if n + length ?rest \<le> length ss' \<or> ?rest = []
        then Some (n + length ?rest, ?m, put_all n ?rest ss') else None)" for n ss'
      using find_loop_stable [of ?m "\<lambda>e. e = u"] disable_loop_single [OF u] by (simp add: Let_def)
    show ?thesis
    proof (cases "e \<notin> set ts \<and> visible e")
      case True
      then have f: "found ts es = e # ?rest" using Cons E by simp
      show ?thesis
      proof (cases ss)
        case Nil
        then show ?thesis using True d f E by (simp add: rd_def visible_def)
      next
        case (Cons s ss')
        then have "find_loop es 0 (join ts @ NUL # post, ss) =
          find_loop es' 1 (?m, ss[0 := new_script e (ss ! 0)])"
          using True d E rd_nat [of 0 ss] by (simp add: visible_def)
        with s f Cons show ?thesis by auto
      qed
    next
      case False
      then have f: "found ts es = ?rest" using Cons E by simp
      have "find_loop es 0 (join ts @ NUL # post, ss) = find_loop es' 0 (?m, ss)"
        using False d E by (auto simp: visible_def)
      with s f show ?thesis by auto
    qed
  qed
qed

text \<open>The names of a directory entry fit the table.\<close>

lemma new_script_name: "length e \<le> 255 \<Longrightarrow> name (new_script e s) = e"
  by (simp add: new_script_def BUFSIZ_def)

lemma new_script_path:
  "length e \<le> 255 \<Longrightarrow> path (new_script e s) = BURNIN_SCRIPT_PATH @ ''/'' @ e"
  by (simp add: new_script_def BUFSIZ_def BURNIN_SCRIPT_PATH_def)

lemma find_table:
  assumes "\<forall>t \<in> set ts. token t" and "breakin_disable w = join ts @ NUL # post"
    and "length (burnin_scripts w) = MAX_BURNIN_SCRIPTS" and "\<forall>e \<in> set es. length e \<le> 255"
    and "length (found ts es) \<le> MAX_BURNIN_SCRIPTS"
  shows "\<exists>w'. find_burnin_tests (Some es) w = Some w' \<and> burnin_script_count w' = length (found ts es) \<and>
    length (burnin_scripts w') = MAX_BURNIN_SCRIPTS \<and>
    (\<forall>i < burnin_script_count w'. let s = burnin_scripts w' ! i in
       name s = found ts es ! i \<and> path s = BURNIN_SCRIPT_PATH @ ''/'' @ found ts es ! i \<and>
       running s = 0 \<and> pass_count s = 0 \<and> fail_count s = 0)"
proof -
  let ?fs = "found ts es"
  obtain m' where "find_loop es 0 (join ts @ NUL # post, burnin_scripts w) =
    Some (length ?fs, m', put_all 0 ?fs (burnin_scripts w))"
    using find_loop_found [OF assms(1)] assms(3,5) by (metis (no_types, lifting))
  then have f: "find_burnin_tests (Some es) w = Some (w\<lparr>breakin_disable := m',
      burnin_scripts := put_all 0 ?fs (burnin_scripts w), burnin_script_count := length ?fs\<rparr>)"
    using assms(2) by (simp add: find_burnin_tests_def)
  have "length (?fs ! i) \<le> 255" if "i < length ?fs" for i
    using assms(4) that found_set [of ts es] nth_mem by blast
  moreover have "put_all 0 ?fs (burnin_scripts w) ! i = new_script (?fs ! i) (burnin_scripts w ! i)"
    if "i < length ?fs" for i
    using put_all_nth [of 0 ?fs "burnin_scripts w" i] assms(3,5) that by simp
  ultimately show ?thesis unfolding f using assms(3)
    by (auto simp: Let_def new_script_name new_script_path) (simp_all add: new_script_def)
qed

section \<open>Properties\<close>

text \<open>For any list of disabled tests and any directory whose remaining entries fit the table,
  the table holds the found tests in directory order, idle and with both counts 0. What is found:
  the first entry is checked against the whole list, every later entry only against the first
  name of the list.\<close>

theorem find_burnin_tests_table:
  assumes "\<forall>t \<in> set ts. token t" and "breakin_disable w = join ts @ NUL # post"
    and "length (burnin_scripts w) = MAX_BURNIN_SCRIPTS" and "\<forall>e \<in> set es. length e \<le> 255"
    and "length (found ts es) \<le> MAX_BURNIN_SCRIPTS"
  shows "\<exists>w'. find_burnin_tests (Some es) w = Some w' \<and> burnin_script_count w' = length (found ts es) \<and>
    length (burnin_scripts w') = MAX_BURNIN_SCRIPTS \<and>
    (\<forall>i < burnin_script_count w'. let s = burnin_scripts w' ! i in
       name s = found ts es ! i \<and> path s = BURNIN_SCRIPT_PATH @ ''/'' @ found ts es ! i \<and>
       running s = 0 \<and> pass_count s = 0 \<and> fail_count s = 0)"
  using find_table [OF assms] by (auto simp: Let_def)

definition sample_machine :: "string \<Rightarrow> machine" where
  "sample_machine d = \<lparr>breakin_disable = d @ replicate (1024 - length d) NUL,
     burnin_scripts = no_scripts, burnin_script_count = 0,
     logs = \<lparr>clock = 0, start_time = 0, log_win = [], log_file = None, logdev_file = None,
       serial_enabled = False, serial_file = None, log_pos = - 1, syslog_pos = - 1\<rparr>,
     kern = \<lparr>children = [], streams = []\<rparr>\<rparr>"

lemma sample_disable:
  "length d < 1024 \<Longrightarrow> breakin_disable (sample_machine d) = d @ NUL # replicate (1023 - length d) NUL"
  by (simp add: sample_machine_def flip: replicate_Suc)

lemma sample_scripts [simp]: "length (burnin_scripts (sample_machine d)) = MAX_BURNIN_SCRIPTS"
  by (simp add: sample_machine_def no_scripts_def)

text \<open>With \<open>-t hpl,ecc\<close> the test \<open>ecc\<close> is started all the same.\<close>

theorem find_burnin_tests_table_witness:
  "\<exists>w'. find_burnin_tests (Some [''.'', ''ecc'', ''hpl'', ''mcelog'']) (sample_machine ''hpl,ecc'') = Some w' \<and>
    burnin_script_count w' = 2 \<and> name (burnin_scripts w' ! 0) = ''ecc''"
proof -
  have "breakin_disable (sample_machine ''hpl,ecc'') =
    join [''hpl'', ''ecc''] @ NUL # replicate (1023 - 7) NUL"
    by (subst sample_disable) simp_all
  from find_burnin_tests_table [OF _ this, of "[''.'', ''ecc'', ''hpl'', ''mcelog'']"]
  show ?thesis by (auto simp: token_def visible_def MAX_BURNIN_SCRIPTS_def Let_def)
qed

text \<open>C19: A list of at most one name disables exactly that test. With more names, the tests in the
  table are those whose name is not on the list, and in addition those that are on it behind
  its first name, when the directory has them after its first entry.\<close>

theorem disable_list_defect:
  assumes "\<forall>t \<in> set ts. token t" and "breakin_disable w = join ts @ NUL # post"
    and "length (burnin_scripts w) = MAX_BURNIN_SCRIPTS" and "\<forall>x \<in> set (e # es). length x \<le> 255"
    and "length (e # es) \<le> MAX_BURNIN_SCRIPTS"
  shows "\<exists>w'. find_burnin_tests (Some (e # es)) w = Some w' \<and>
    name ` set (take (burnin_script_count w') (burnin_scripts w')) =
      {x \<in> set (e # es). visible x \<and> x \<notin> set ts} \<union>
      {x \<in> set es. visible x \<and> x \<in> set (tl ts) \<and> x \<noteq> hd ts}"
proof -
  let ?fs = "found ts (e # es)"
  have "length ?fs \<le> length (e # es)" by (cases ts) (auto intro: le_SucI length_filter_le)
  then have l: "length ?fs \<le> MAX_BURNIN_SCRIPTS" using assms(5) by simp
  obtain w' where w': "find_burnin_tests (Some (e # es)) w = Some w'" "burnin_script_count w' = length ?fs"
    "length (burnin_scripts w') = MAX_BURNIN_SCRIPTS"
    "\<forall>i < burnin_script_count w'. name (burnin_scripts w' ! i) = ?fs ! i"
    using find_table [OF assms(1-4) l] by (auto simp: Let_def)
  have "map name (take (burnin_script_count w') (burnin_scripts w')) = ?fs"
    using w'(2-4) l by (intro nth_equalityI) simp_all
  then have "name ` set (take (burnin_script_count w') (burnin_scripts w')) = set ?fs"
    by (metis image_set)
  also have "set ?fs = {x \<in> set (e # es). visible x \<and> x \<notin> set ts} \<union>
      {x \<in> set es. visible x \<and> x \<in> set (tl ts) \<and> x \<noteq> hd ts}"
    by (cases ts) auto
  finally show ?thesis using w'(1) by blast
qed

theorem disable_list_defect_witness:
  "\<exists>w'. find_burnin_tests (Some [''.'', ''ecc'', ''hpl'', ''mcelog'']) (sample_machine ''hpl,ecc'') = Some w' \<and>
    name ` set (take (burnin_script_count w') (burnin_scripts w')) = {''ecc'', ''mcelog''}"
proof -
  have "breakin_disable (sample_machine ''hpl,ecc'') =
    join [''hpl'', ''ecc''] @ NUL # replicate (1023 - 7) NUL"
    by (subst sample_disable) simp_all
  from disable_list_defect [OF _ this, of "''.''" "[''ecc'', ''hpl'', ''mcelog'']"]
  obtain w' where "find_burnin_tests (Some [''.'', ''ecc'', ''hpl'', ''mcelog'']) (sample_machine ''hpl,ecc'') = Some w'"
    "name ` set (take (burnin_script_count w') (burnin_scripts w')) =
      {x \<in> set [''.'', ''ecc'', ''hpl'', ''mcelog'']. visible x \<and> x \<notin> set [''hpl'', ''ecc'']} \<union>
      {x \<in> set [''ecc'', ''hpl'', ''mcelog'']. visible x \<and> x \<in> set (tl [''hpl'', ''ecc'']) \<and> x \<noteq> hd [''hpl'', ''ecc'']}"
    by (auto simp: token_def MAX_BURNIN_SCRIPTS_def)
  moreover have "{x \<in> set [''.'', ''ecc'', ''hpl'', ''mcelog'']. visible x \<and> x \<notin> set [''hpl'', ''ecc'']} \<union>
      {x \<in> set [''ecc'', ''hpl'', ''mcelog'']. visible x \<and> x \<in> set (tl [''hpl'', ''ecc'']) \<and> x \<noteq> hd [''hpl'', ''ecc'']} =
    {''ecc'', ''mcelog''}"
    by (auto simp: visible_def)
  ultimately show ?thesis by auto
qed

text \<open>C20: Nothing limits the number of tests: a directory with more than 64 of them is written past
  the end of the table.\<close>

theorem find_burnin_tests_overflow:
  assumes "\<forall>t \<in> set ts. token t" and "breakin_disable w = join ts @ NUL # post"
    and "length (burnin_scripts w) = MAX_BURNIN_SCRIPTS"
  shows "find_burnin_tests (Some es) w = None \<longleftrightarrow> MAX_BURNIN_SCRIPTS < length (found ts es)"
proof -
  obtain m' where f: "find_loop es 0 (join ts @ NUL # post, burnin_scripts w) =
    (if length (found ts es) \<le> length (burnin_scripts w)
     then Some (length (found ts es), m', put_all 0 (found ts es) (burnin_scripts w)) else None)"
    using find_loop_found [OF assms(1)] by blast
  show ?thesis unfolding find_burnin_tests_def using f assms(2,3) by auto
qed

theorem find_burnin_tests_overflow_witness:
  "find_burnin_tests (Some (replicate 65 ''t'')) (sample_machine []) = None"
proof -
  have "breakin_disable (sample_machine []) = join [] @ NUL # replicate 1023 NUL"
    by (subst sample_disable) simp_all
  from find_burnin_tests_overflow [OF _ this, of "replicate 65 ''t''"]
  have "find_burnin_tests (Some (replicate 65 ''t'')) (sample_machine []) = None \<longleftrightarrow>
    MAX_BURNIN_SCRIPTS < length (found [] (replicate 65 ''t''))" by simp
  moreover have "filter visible (replicate n ''t'') = replicate n ''t''" for n
    by (induction n) (simp_all add: visible_def)
  then have "length (found [] (replicate 65 ''t'')) = 65" unfolding found_Nil by (simp only: length_replicate)
  ultimately show ?thesis by (simp only: MAX_BURNIN_SCRIPTS_def)
qed

end
