(* ===== verification/StartupSpec.thy ===== *)
theory StartupSpec
  imports Startup ReportSpec ScreenSpec BenchSpec BurninFind
begin

text \<open>
  What the phases of \<open>main\<close> and the rounds of the update thread keep: the options stay in range, so
  that no message overflows its buffer; the tables and texts stay such that the report can be
  written; and where the start-up goes wrong.
\<close>

section \<open>Options\<close>

definition options_ok :: "breakin \<Rightarrow> bool" where
  "options_ok w \<longleftrightarrow> 10 \<le> update_interval (opts w) \<and> update_interval (opts w) < 2 ^ 31 \<and>
     - (2 ^ 31) \<le> serial_baud (opts w) \<and> serial_baud (opts w) < 2 ^ 31 \<and>
     length (update_url (opts w)) < 1024 \<and> length (serial_dev (opts w)) < 1024 \<and>
     length (breakin_disable (mach w)) = 1024 \<and> NUL \<in> set (breakin_disable (mach w))"

lemma snprintf_1024: "length (snprintf_s 1024 s) < 1024"
  by (rule snprintf_s_length) simp

lemma put_disable_ok: "length (breakin_disable m) = 1024 \<Longrightarrow> length (breakin_disable (put_disable s m)) = 1024"
  using snprintf_1024 [of s] by (simp add: put_disable_def Let_def)

lemma atoi_range: "- (2 ^ 31) \<le> atoi s" "atoi s < 2 ^ 31"
  using to_i32_range [of "strtol s"] by (simp_all add: atoi_def)

lemma set_option_ok: "set_option x w = Some w' \<Longrightarrow> options_ok w \<Longrightarrow> options_ok w'"
  using atoi_range snprintf_1024 put_disable_ok
  by (auto simp: set_option_def options_ok_def Let_def set_log_def DEFAULT_UPDATE_INTERVAL_def put_disable_def
      not_less split: prod.splits if_splits)

lemma fold_opt_keeps:
  assumes "fold_opt f xs w = Some w'" and "\<And>x w w'. x \<in> set xs \<Longrightarrow> f x w = Some w' \<Longrightarrow> I w \<Longrightarrow> I w'" and "I w"
  shows "I w'"
  using assms
proof (induction xs arbitrary: w)
  case Nil
  then show ?case by simp
next
  case (Cons x xs)
  then obtain w1 where w1: "f x w = Some w1" "fold_opt f xs w1 = Some w'" by (auto split: bind_splits)
  then have "I w1" using Cons.prems by (metis list.set_intros(1))
  then show ?case using Cons.IH [OF w1(2)] Cons.prems(2) by (metis list.set_intros(2))
qed

lemma set_options_ok: "set_options xs w = Some w' \<Longrightarrow> options_ok w \<Longrightarrow> options_ok w'"
  unfolding set_options_def by (rule fold_opt_keeps [where I = options_ok]) (auto intro: set_option_ok)

lemma sprintf_bufsiz: "length s < 8192 \<Longrightarrow> sprintf_s BUFSIZ s = Some s"
  by (simp add: BUFSIZ_def)

lemma announce_total:
  assumes "options_ok w"
  shows "\<exists>w'. announce w = Some w'"
proof -
  note o = assms [unfolded options_ok_def]
  have i: "length (fmt_d (update_interval (opts w))) \<le> 11" "length (fmt_d (serial_baud (opts w))) \<le> 11"
    using o by (auto intro!: fmt_d_short)
  have u: "sprintf_s BUFSIZ (''Sending updates to '' @ update_url (opts w) @ '' every '' @
             fmt_d (update_interval (opts w)) @ '' seconds'') = Some (''Sending updates to '' @ update_url (opts w) @
             '' every '' @ fmt_d (update_interval (opts w)) @ '' seconds'')"
    using o i(1) by (intro sprintf_bufsiz) simp
  have s: "sprintf_s BUFSIZ (''Serial logging enabled on '' @ serial_dev (opts w) @ '' baud '' @
             fmt_d (serial_baud (opts w))) = Some (''Serial logging enabled on '' @ serial_dev (opts w) @ '' baud '' @
             fmt_d (serial_baud (opts w)))"
    using o i(2) by (intro sprintf_bufsiz) simp
  have k: "opts (set_log l w) = opts w" for l by (simp add: set_log_def)
  show ?thesis unfolding announce_def u
    by (cases "enable_updates (opts w)") (simp_all only: if_True if_False bind.bind_lunit k s Let_def, auto)
qed

lemma announce_disabled_total:
  assumes "options_ok w"
  shows "\<exists>w'. announce_disabled w = Some w'"
proof -
  have n: "NUL \<in> set (breakin_disable (mach w))" "length (breakin_disable (mach w)) = 1024"
    using assms by (simp_all add: options_ok_def)
  then obtain d where d: "cstr (breakin_disable (mach w)) 0 = Some d" by (auto simp: cstr_def)
  then have "length d < 1024" using cstr_bound [OF d] n(2) by simp
  then have "sprintf_s BUFSIZ (''Was asked to disable the following tests: '' @ d) =
      Some (''Was asked to disable the following tests: '' @ d)" by (intro sprintf_bufsiz) simp
  with d show ?thesis by (simp add: announce_disabled_def)
qed

section \<open>The list of disabled tests in the log\<close>

text \<open>After a directory with at least one entry has been searched, the list is its first name.\<close>

lemma find_loop_memory:
  assumes "\<forall>t \<in> set (u # us). token t"
    and "find_loop (e # es) 0 (join (u # us) @ NUL # post, ss) = Some (n, m, ss')"
  shows "cstr m 0 = Some u"
proof -
  have u: "token u" using assms(1) by simp
  obtain post' where d: "disable_loop e (join (u # us) @ NUL # post) 0 = Some (u @ NUL # post', e \<in> set (u # us))"
    using disable_loop_list [OF assms(1), of e "[]" post] by auto
  let ?m = "u @ NUL # post'"
  have st: "find_loop es k (?m, s1) = Some (n, m, ss') \<Longrightarrow> m = ?m" for k s1
    using find_loop_stable [of ?m "\<lambda>e. e = u"] disable_loop_single [OF u] by (auto simp: Let_def split: if_splits)
  have "\<exists>k s1. find_loop es k (?m, s1) = Some (n, m, ss')"
    using assms(2) d by (auto split: bind_splits if_splits)
  then have "m = ?m" using st by blast
  then show ?thesis using u by (simp add: token_def cmem)
qed

section \<open>The rounds of the update thread\<close>

text \<open>Device names of fewer than 30 characters are stored with their terminator.\<close>

definition short_disks :: "stat_env \<Rightarrow> bool" where
  "short_disks e \<longleftrightarrow> (\<forall>es. block_dir e = Some es \<longrightarrow> (\<forall>d \<in> set es. length d < 30))"

lemma strncpy_pad_NUL: "length d < n \<Longrightarrow> NUL \<in> set (strncpy_pad n d)"
proof -
  assume "length d < n"
  then have "strncpy_pad n d ! length d = NUL" "length d < length (strncpy_pad n d)"
    by (simp_all add: strncpy_pad_def nth_append)
  then show ?thesis by (metis nth_mem)
qed

lemma hd_loop_NUL:
  "hd_loop fs es n buf ds = Some (n', ds') \<Longrightarrow> \<forall>d \<in> set es. length d < 30 \<Longrightarrow>
   \<forall>x \<in> set (take n ds). NUL \<in> set (device x) \<Longrightarrow> \<forall>x \<in> set (take n' ds'). NUL \<in> set (device x)"
proof (induction es arbitrary: n buf ds)
  case Nil
  then show ?case by simp
next
  case (Cons d es)
  show ?case
  proof (cases "n < MAX_DISKS \<and> is_disk d")
    case False
    then have "hd_loop fs es n buf ds = Some (n', ds') \<or> (n' = n \<and> ds' = ds)"
      using Cons.prems(1) by (auto split: if_splits)
    then show ?thesis using Cons by auto
  next
    case True
    then consider buf1 where "hd_loop fs es n buf1 ds = Some (n', ds')"
      | buf1 x where "hd_loop fs es (n + 1) buf1 (ds[n := x]) = Some (n', ds')" "device x = strncpy_pad 30 d" "n < length ds"
      using Cons.prems(1)
      by (auto simp: rd_Some_iff split: if_splits bind_splits option.splits)
    then show ?thesis
    proof cases
      case 1
      then show ?thesis using Cons by auto
    next
      case 2
      have "NUL \<in> set (device x)" using 2(2) strncpy_pad_NUL [of d 30] Cons.prems(2) by simp
      then have "\<forall>x \<in> set (take (n + 1) (ds[n := x])). NUL \<in> set (device x)"
        using Cons.prems(3) 2(3) by (simp add: take_Suc_conv_app_nth)
      then show ?thesis using Cons.IH [OF 2(1)] Cons.prems(2) by simp
    qed
  qed
qed

definition disks_ok :: "sensors \<Rightarrow> bool" where
  "disks_ok s \<longleftrightarrow> (\<forall>x \<in> set (take (disk_qty s) (disk_info s)). NUL \<in> set (device x))"

lemma get_hd_info_disks:
  assumes "get_hd_info (block_dir e) fs s = Some s'" and "short_disks e" and "disks_ok s"
  shows "disks_ok s'"
proof (cases "block_dir e")
  case None
  then show ?thesis using assms by (simp add: get_hd_info_def)
next
  case (Some es)
  then obtain n ds where r: "hd_loop fs es 0 None (disk_info s) = Some (n, ds)" "s' = s\<lparr>disk_info := ds, disk_qty := n\<rparr>"
    using assms(1) by (auto simp: get_hd_info_def split: bind_splits)
  have "\<forall>x \<in> set (take n ds). NUL \<in> set (device x)"
    using hd_loop_NUL [OF r(1)] assms(2) Some by (simp add: short_disks_def)
  then show ?thesis by (simp add: disks_ok_def r(2))
qed

text \<open>The other collectors leave the disks alone.\<close>

lemma collectors_disks:
  "get_cpu_usage f s = Some s1 \<Longrightarrow> disks_ok s1 = disks_ok s"
  "get_mem_usage f s = Some s1 \<Longrightarrow> disks_ok s1 = disks_ok s"
  "get_nic_info h so cf (s, l) = Some (s1, l1) \<Longrightarrow> disks_ok s1 = disks_ok s"
  by (auto simp: get_cpu_usage_def get_mem_usage_def get_nic_info_def disks_ok_def Let_def
      split: option.splits bind_splits if_splits ifconf.splits)

text \<open>What does not look at the temperatures and fans is not changed by reading them.\<close>

locale sensor_free =
  fixes g :: "sensors \<Rightarrow> 'x"
  assumes temps: "g (s\<lparr>temp_data := td, temp_qty := tq\<rparr>) = g s"
    and fans: "g (s\<lparr>fan_data := fd, fan_qty := fq\<rparr>) = g s"
begin

lemma puts: "put_temp n v s = Some s' \<Longrightarrow> g s' = g s" "put_fan n v s = Some s' \<Longrightarrow> g s' = g s"
  by (auto simp: put_temp_def put_fan_def temps fans split: if_splits bind_splits)

lemma sensor_lines_keep:
  assumes "\<And>n v s s'. put n v s = Some s' \<Longrightarrow> g s' = g s"
  shows "sensor_lines k put ls (v, s) = Some (v', s') \<Longrightarrow> g s' = g s"
proof (induction ls arbitrary: v s)
  case Nil
  then show ?case by simp
next
  case (Cons l ls)
  obtain c :: chunk_state and s1 where
    "(if found_label c \<and> found_value c then put (label c) (ipmi_value c) s else Some s) = Some s1"
    "sensor_lines k put ls (ipmi_value c, s1) = Some (v', s')"
    using Cons.prems by (auto split: bind_splits split del: if_split)
  then show ?case using Cons.IH assms by (auto split: if_splits)
qed

lemma sensor_file_keep:
  assumes "\<And>n v s s'. put n v s = Some s' \<Longrightarrow> g s' = g s"
  shows "sensor_file k put fo st = Some st' \<Longrightarrow> g (snd st') = g (snd st)"
  using sensor_lines_keep [of put k _ "fst st" "snd st" "fst st'" "snd st'"] assms
  by (auto simp: sensor_file_def split: option.splits)

lemma get_ipmi_sensors_keep:
  assumes "get_ipmi_sensors tf ff s = Some s'"
  shows "g s' = g s"
proof -
  let ?s = "s\<lparr>fan_qty := 0, temp_qty := 0\<rparr>"
  obtain st1 st2 where f: "sensor_file 0 put_temp tf (0, ?s) = Some st1"
    "sensor_file 3 put_fan ff st1 = Some st2" "s' = snd st2"
    using assms by (auto simp: get_ipmi_sensors_def split: bind_splits)
  have "?s = (s\<lparr>fan_data := fan_data s, fan_qty := 0\<rparr>)\<lparr>temp_data := temp_data s, temp_qty := 0\<rparr>"
    by (cases s) simp
  then have "g ?s = g s" by (simp only: temps fans)
  then show ?thesis
    using sensor_file_keep [OF puts(1) f(1)] sensor_file_keep [OF puts(2) f(2)] f(3) by simp
qed

end

interpretation devs: sensor_free "\<lambda>s. (disk_qty s, disk_info s, nic_qty s)"
  by unfold_locales simp_all

lemma get_ipmi_sensors_disks: "get_ipmi_sensors tf ff s = Some s' \<Longrightarrow> disks_ok s' = disks_ok s"
  using devs.get_ipmi_sensors_keep [of tf ff s s'] by (simp add: disks_ok_def)

lemma get_ipmi_sensors_nics: "get_ipmi_sensors tf ff s = Some s' \<Longrightarrow> nic_qty s' = nic_qty s"
  using devs.get_ipmi_sensors_keep [of tf ff s s'] by simp

lemma bind_SomeE: "do { x \<leftarrow> m; f x } = Some y \<Longrightarrow> (\<And>x. m = Some x \<Longrightarrow> f x = Some y \<Longrightarrow> P) \<Longrightarrow> P"
  by (cases m) auto

lemma collect_report_ok:
  assumes "collect e w = Some w'" and "short_disks e" and "report_ok w"
  shows "report_ok w'"
proof -
  obtain l s1 s2 s3 s4 x where c: "get_cpu_usage (proc_stat_text e) (sens w) = Some s1"
    "get_mem_usage (meminfo_text e) s1 = Some s2" "get_ipmi_sensors (temps_text e) (fans_text e) s2 = Some s3"
    "get_hd_info (block_dir e) (sys_file e) s3 = Some s4"
    and x: "get_nic_info (hardware_finished w) (sock_ok e) (ifs e) (s4, l) = Some x"
    "(case x of (s, l) \<Rightarrow> do { l \<leftarrow> show_log (errlog_text e) l; Some (set_log l (set_sens s w)) }) = Some w'"
    using assms(1) unfolding collect_def by (elim bind_SomeE) (rule that)
  obtain s5 l2 where x5: "x = (s5, l2)" by fastforce
  then obtain l3 where w': "w' = set_log l3 (set_sens s5 w)" using x(2) by (auto split: bind_splits)
  note n = x(1) [unfolded x5]
  note r = assms(3) [unfolded report_ok_def, folded disks_ok_def]
  have "sensors_ok (sens w)" using r by blast
  then have "sensors_ok s4"
    by (rule get_hd_info_ok [OF c(4) get_ipmi_sensors_ok [OF c(3) get_mem_usage_ok [OF c(2) get_cpu_usage_ok [OF c(1)]]]])
  then have "sensors_ok s5" by (rule get_nic_info_ok [OF n])
  moreover have "disks_ok s5"
    using r collectors_disks(1) [OF c(1)] collectors_disks(2) [OF c(2)] get_ipmi_sensors_disks [OF c(3)]
      get_hd_info_disks [OF c(4) assms(2)] collectors_disks(3) [OF n] by simp
  ultimately show ?thesis using r
    unfolding report_ok_def disks_ok_def [symmetric] by (simp add: w' set_log_def set_sens_def)
qed

section \<open>Whole rounds\<close>

text \<open>What a round of the update thread does to the state (the drawing does not change it).\<close>

definition stat_round :: "stat_env \<Rightarrow> breakin \<Rightarrow> breakin option" where
  "stat_round e w = do { w \<leftarrow> collect e w; dump_stats (tmp_ok e) w }"

lemma update_stats_round: "update_stats e w = Some (w', x) \<Longrightarrow> stat_round e w = Some w'"
  by (auto simp: update_stats_def stat_round_def split: bind_splits)

lemma dump_stats_frame: "dump_stats b w = Some w' \<Longrightarrow> \<exists>t. w' = w\<lparr>stat_file := t\<rparr>"
  by (cases w) (auto simp: dump_stats_def split: if_splits bind_splits)

lemma stat_round_report_ok: "stat_round e w = Some w' \<Longrightarrow> short_disks e \<Longrightarrow> report_ok w \<Longrightarrow> report_ok w'"
proof -
  assume a: "stat_round e w = Some w'" "short_disks e" "report_ok w"
  then obtain w1 where w1: "collect e w = Some w1" "dump_stats (tmp_ok e) w1 = Some w'"
    by (auto simp: stat_round_def split: bind_splits)
  then have "report_ok w1" using collect_report_ok a by blast
  then show "report_ok w'" using dump_stats_frame [OF w1(2)] by (auto simp: report_ok_def)
qed

text \<open>Without the hardware setup the table of network cards stays as it is.\<close>

lemma stat_round_no_hardware:
  assumes "stat_round e w = Some w'" and "\<not> hardware_finished w"
  shows "nic_qty (sens w') = nic_qty (sens w) \<and> \<not> hardware_finished w'"
proof -
  have k: "nic_qty s2 = nic_qty s1" if "get_cpu_usage f s1 = Some s2" for f s1 s2
    using that by (auto simp: get_cpu_usage_def split: option.splits bind_splits)
  have m: "nic_qty s2 = nic_qty s1" if "get_mem_usage f s1 = Some s2" for f s1 s2
    using that by (auto simp: get_mem_usage_def Let_def split: option.splits bind_splits)
  have h: "nic_qty s2 = nic_qty s1" if "get_hd_info d f s1 = Some s2" for d f s1 s2
    using that by (auto simp: get_hd_info_def split: option.splits bind_splits)
  obtain w1 where w1: "collect e w = Some w1" "dump_stats (tmp_ok e) w1 = Some w'"
    using assms(1) by (auto simp: stat_round_def split: bind_splits)
  obtain l s1 s2 s3 s4 x where c: "get_cpu_usage (proc_stat_text e) (sens w) = Some s1"
    "get_mem_usage (meminfo_text e) s1 = Some s2" "get_ipmi_sensors (temps_text e) (fans_text e) s2 = Some s3"
    "get_hd_info (block_dir e) (sys_file e) s3 = Some s4"
    and x: "get_nic_info (hardware_finished w) (sock_ok e) (ifs e) (s4, l) = Some x"
    "(case x of (s, l) \<Rightarrow> do { l \<leftarrow> show_log (errlog_text e) l; Some (set_log l (set_sens s w)) }) = Some w1"
    using w1(1) unfolding collect_def by (elim bind_SomeE) (rule that)
  have "x = (s4, l)" using x(1) assms(2) by (simp add: get_nic_info_def)
  then obtain l3 where "w1 = set_log l3 (set_sens s4 w)" using x(2) by (auto split: bind_splits)
  then have "sens w1 = s4" "hardware_finished w1 = hardware_finished w" by (simp_all add: set_log_def set_sens_def)
  then show ?thesis
    using dump_stats_frame [OF w1(2)] assms(2) k [OF c(1)] m [OF c(2)] get_ipmi_sensors_nics [OF c(3)] h [OF c(4)]
    by auto
qed

section \<open>Properties\<close>

text \<open>C21: Whatever the options, and in whatever order: the update interval is at least ten seconds,
  the URL, the port name and the list of disabled tests are terminated inside their arrays of 1024,
  and the messages built from them fit their buffers.\<close>

theorem options_fit:
  assumes "set_options xs w = Some w'" and "options_ok w"
  shows "10 \<le> update_interval (opts w') \<and> length (update_url (opts w')) < 1024 \<and>
    length (serial_dev (opts w')) < 1024 \<and> length (breakin_disable (mach w')) = 1024 \<and>
    NUL \<in> set (breakin_disable (mach w')) \<and>
    (\<exists>w1. announce w' = Some w1) \<and> (\<exists>w2. announce_disabled w' = Some w2)"
  using set_options_ok [OF assms] announce_total announce_disabled_total by (simp add: options_ok_def)

lemma options_fit_witness:
  "\<exists>w'. set_options [(CHR ''u'', ''http://x/''), (CHR ''i'', ''5''), (CHR ''t'', ''hpl,ecc'')] no_breakin = Some w' \<and>
    10 \<le> update_interval (opts w') \<and> (\<exists>w1. announce w' = Some w1)"
proof -
  have "options_ok no_breakin" by (simp add: options_ok_def no_breakin_def)
  moreover obtain w' where
    "set_options [(CHR ''u'', ''http://x/''), (CHR ''i'', ''5''), (CHR ''t'', ''hpl,ecc'')] no_breakin = Some w'"
    by (simp add: set_options_def set_option_def Let_def)
  ultimately show ?thesis using options_fit by blast
qed

text \<open>C13: In every number of rounds of the update thread the tables keep their sizes, the quantities
  stay within them, the names end inside their fields, and so the statistics can be written again,
  as long as no disk has a name of 30 characters or more.\<close>

theorem update_rounds_report:
  assumes "fold_opt stat_round es w = Some w'" and "\<forall>e \<in> set es. short_disks e" and "report_ok w"
  shows "report_ok w' \<and> (\<exists>w2. dump_stats True w' = Some w2)"
proof -
  have "report_ok w'"
    by (rule fold_opt_keeps [where I = report_ok, OF assms(1) _ assms(3)]) (use assms(2) stat_round_report_ok in blast)
  then show ?thesis using stat_vars_total [of w'] by (auto simp: dump_stats_def)
qed

definition quiet_env :: stat_env where
  "quiet_env = \<lparr>syslog_text = None, errlog_text = None, proc_stat_text = None, meminfo_text = None,
     temps_text = None, fans_text = None, block_dir = Some [''loop0''], sys_file = (\<lambda>_. None), sock_ok = True,
     ifs = Conf [], tmp_ok = True, columns = 80, version = ''3''\<rparr>"

lemma quiet_collect: "report_ok w \<Longrightarrow> \<exists>w'. stat_round quiet_env w = Some w'"
proof -
  assume r: "report_ok w"
  have "\<exists>w'. collect quiet_env w = Some w'"
    by (simp add: collect_def quiet_env_def monitor_syslog_def get_cpu_usage_def get_mem_usage_def
        get_ipmi_sensors_def sensor_file_def get_hd_info_def is_disk_def starts_def get_nic_info_def show_log_def
        MAX_DISKS_def)
  then obtain w' where w': "collect quiet_env w = Some w'" by blast
  have "short_disks quiet_env" by (simp add: short_disks_def quiet_env_def)
  then have "report_ok w'" using collect_report_ok [OF w' _ r] by blast
  then show ?thesis using w' stat_vars_total [of w'] by (auto simp: stat_round_def dump_stats_def quiet_env_def)
qed

lemma update_rounds_report_witness:
  "\<exists>w'. fold_opt stat_round [quiet_env] (sample_breakin ''Xeon'') = Some w' \<and>
    (\<exists>w2. dump_stats True w' = Some w2)"
proof -
  obtain w' where "stat_round quiet_env (sample_breakin ''Xeon'') = Some w'"
    using quiet_collect [OF sample_report_ok] by blast
  then have "fold_opt stat_round [quiet_env] (sample_breakin ''Xeon'') = Some w'" by simp
  then show ?thesis
    using update_rounds_report [of "[quiet_env]" "sample_breakin ''Xeon''" w'] sample_report_ok
    by (simp add: short_disks_def quiet_env_def)
qed

text \<open>C22: The message about disabled tests names only the first of them: the search of the
  directory has cut the list, whatever names follow and whatever the directory holds.\<close>

theorem disabled_message_cut:
  assumes "\<forall>t \<in> set (u # us). token t" and "breakin_disable (mach w) = join (u # us) @ NUL # post"
    and "find_burnin_tests (Some (e # es)) (mach w) = Some m" and "length u < 1024"
  shows "announce_disabled (w\<lparr>mach := m\<rparr>) =
    Some (set_log (log_message (''Was asked to disable the following tests: '' @ u) (blog w)) (w\<lparr>mach := m\<rparr>))"
proof -
  obtain n m' ss where f: "find_loop (e # es) 0 (join (u # us) @ NUL # post, burnin_scripts (mach w)) = Some (n, m', ss)"
    "m = (mach w)\<lparr>breakin_disable := m', burnin_scripts := ss, burnin_script_count := n\<rparr>"
    using assms(2,3) unfolding find_burnin_tests_def by (auto split: bind_splits simp del: find_loop.simps join.simps)
  have c: "cstr m' 0 = Some u" by (rule find_loop_memory [OF assms(1) f(1)])
  have "sprintf_s BUFSIZ (''Was asked to disable the following tests: '' @ u) =
      Some (''Was asked to disable the following tests: '' @ u)" using assms(4) by (intro sprintf_bufsiz) simp
  moreover have "u \<noteq> []" using assms(1) by (simp add: token_def)
  ultimately show ?thesis using c by (simp add: announce_disabled_def f(2) set_log_def)
qed

lemma disabled_message_cut_witness:
  "\<exists>m. find_burnin_tests (Some [''ecc'', ''hpl'']) (mach (no_breakin\<lparr>mach := sample_machine ''hpl,ecc''\<rparr>)) = Some m \<and>
    announce_disabled (no_breakin\<lparr>mach := m\<rparr>) =
      Some (set_log (log_message ''Was asked to disable the following tests: hpl'' (blog (no_breakin\<lparr>mach := sample_machine ''hpl,ecc''\<rparr>)))
        (no_breakin\<lparr>mach := m\<rparr>))"
proof -
  let ?w = "no_breakin\<lparr>mach := sample_machine ''hpl,ecc''\<rparr>"
  have t: "\<forall>t \<in> set [''hpl'', ''ecc'']. token t" by (simp add: token_def nul_free_def)
  have b: "breakin_disable (mach ?w) = join [''hpl'', ''ecc''] @ NUL # replicate 1016 NUL"
    using sample_disable [of "''hpl,ecc''"] by simp
  have "\<exists>m. find_burnin_tests (Some [''ecc'', ''hpl'']) (sample_machine ''hpl,ecc'') = Some m"
    using find_table [OF t, of "sample_machine ''hpl,ecc''" "replicate 1016 NUL" "[''ecc'', ''hpl'']"] b
    by (auto simp: MAX_BURNIN_SCRIPTS_def)
  then obtain m where m: "find_burnin_tests (Some [''ecc'', ''hpl'']) (mach ?w) = Some m" by auto
  then show ?thesis using disabled_message_cut [OF t b m] by auto
qed

lemma header_total:
  assumes "report_ok w" and "sub_i64 (mem_total (mem_info (sens w))) (mem_free (mem_info (sens w))) \<noteq> None"
  shows "\<exists>t. header_text w = Some t"
proof -
  note r = assms(1) [unfolded report_ok_def]
  have g: "\<exists>t. get_field (dmi_data w) f = Some t" for f
    using dmi_inv_cstr [of "dmi_data w" f] r by metis
  obtain a b c where "get_field (dmi_data w) board_vendor = Some a" "get_field (dmi_data w) board_product = Some b"
    "get_field (dmi_data w) bios_version = Some c" using g by metis
  moreover obtain m where "mem_text (mem_info (sens w)) = Some m" using assms(2) by (auto simp: mem_text_def)
  moreover have "\<exists>d. disk_lines (sens w) = Some d"
  proof -
    let ?f = "\<lambda>i. do { x \<leftarrow> rd (disk_info (sens w)) (int i); d \<leftarrow> cstr (device x) 0;
         Some (''HDD  : '' @ d @ '':'' @ fmt_f 1 (disk_size x) @ ''GB '' @
           (if flt (Fin False 0 0) (performance x) then ''('' @ fmt_f 1 (performance x) @ '' MB/s) '' else []) @ [NL]) }"
    have "\<exists>x. out_loop ?f 0 (disk_qty (sens w)) = Some x"
    proof (rule out_loop_total)
      fix j assume "j < 0 + disk_qty (sens w)"
      with device_text [of "sens w" j] r obtain d where "rd (disk_info (sens w)) (int j) = Some (disk_info (sens w) ! j)"
        "cstr (device (disk_info (sens w) ! j)) 0 = Some d" by auto
      then show "\<exists>y. ?f j = Some y" by simp
    qed
    then show ?thesis by (auto simp: disk_lines_def)
  qed
  moreover have "\<exists>d. nic_lines (sens w) = Some d"
  proof -
    have "\<exists>x. out_loop (\<lambda>i. do { x \<leftarrow> rd (nic_data (sens w)) (int i);
         Some (''NIC  : '' @ nic_name x @ '' '' @ ipaddr x @ '' ('' @ macaddr x @ '')'' @ [NL]) }) 0 (nic_qty (sens w)) = Some x"
      by (rule out_loop_total) (use r in \<open>auto simp: sensors_ok_def cmem\<close>)
    then show ?thesis by (auto simp: nic_lines_def)
  qed
  ultimately show ?thesis by (auto simp: header_text_def)
qed

text \<open>The header does not depend on the log or on the speed of the port.\<close>

lemma header_text_keep [simp]:
  "header_text (set_log l v) = header_text v" "header_text (v\<lparr>serial_speed := n\<rparr>) = header_text v"
  by (simp_all add: header_text_def set_log_def)

lemma set_log_sel [simp]:
  "blog (set_log l v) = l" "opts (set_log l v) = opts v" "set_log l (set_log l' v) = set_log l v"
  "blog (v\<lparr>serial_speed := n\<rparr>) = blog v"
  by (simp_all add: set_log_def)

text \<open>With serial logging on, the port is started first, and the header goes to the file and, if serial
  logging is still on, to the port.\<close>

lemma start_logdev_serial:
  assumes "serial_enabled (blog w)"
  obtains l pre where "serial_enabled l" "logdev_file l = Some pre"
    "start_logdev True opened attached w = do {
      v \<leftarrow> start_serial opened attached (set_log l w);
      x \<leftarrow> header_logdev v (logdev_file (blog v));
      let v = set_log ((blog v)\<lparr>logdev_file := Some x\<rparr>) v;
      if serial_enabled (blog v) then do {
        x \<leftarrow> header_logdev v (serial_file (blog v));
        Some (set_log ((blog v)\<lparr>serial_file := Some x\<rparr>) v)
      } else Some v }"
proof -
  let ?l = "log_message ''Starting serial port logging'' ((blog w)\<lparr>logdev_file := Some []\<rparr>)"
  have l: "serial_enabled ?l" "\<exists>pre. logdev_file ?l = Some pre"
    using assms by (simp_all add: log_frame log_message_def Let_def fput_def wprintw_def)
  then obtain pre where pre: "logdev_file ?l = Some pre" by blast
  show ?thesis by (rule that [OF l(1) pre]) (use assms in \<open>simp add: start_logdev_def Let_def\<close>)
qed

text \<open>C23: With the log device file open, starting the device log is undefined exactly when serial
  logging is on, the port can be opened and \<open>fdopen\<close> fails: the \<open>exit;\<close> that follows is no call, and
  the header is written to a null stream. A port that cannot be opened turns serial logging off, and
  the header still goes to the file.\<close>

theorem start_logdev_null_port:
  assumes "report_ok w" and "sub_i64 (mem_total (mem_info (sens w))) (mem_free (mem_info (sens w))) \<noteq> None"
    and "length (serial_dev (opts w)) < 1024"
  shows "(start_logdev True opened attached w = None \<longleftrightarrow> serial_enabled (blog w) \<and> opened \<and> \<not> attached) \<and>
    (\<not> opened \<longrightarrow> (\<exists>w' t. start_logdev True opened attached w = Some w' \<and> \<not> serial_enabled (blog w') \<and>
       header_text w = Some t \<and> (\<exists>pre. logdev_file (blog w') = Some (pre @ t))))"
proof -
  obtain t where t: "header_text w = Some t" using header_total [OF assms(1,2)] by blast
  show ?thesis
  proof (cases "serial_enabled (blog w)")
    case False
    then show ?thesis using t by (auto simp: start_logdev_def header_logdev_def Let_def)
  next
    case True
    obtain l pre where l: "serial_enabled l" "logdev_file l = Some pre" and st: "start_logdev True opened attached w = do {
        v \<leftarrow> start_serial opened attached (set_log l w);
        x \<leftarrow> header_logdev v (logdev_file (blog v));
        let v = set_log ((blog v)\<lparr>logdev_file := Some x\<rparr>) v;
        if serial_enabled (blog v) then do {
          x \<leftarrow> header_logdev v (serial_file (blog v));
          Some (set_log ((blog v)\<lparr>serial_file := Some x\<rparr>) v)
        } else Some v }" using start_logdev_serial [OF True] .
    show ?thesis
    proof (cases opened)
      case False
      define l2 where "l2 = (log_error (''Error opening serial port '' @ serial_dev (opts w)) l)\<lparr>serial_enabled := False\<rparr>"
      have "start_serial opened attached (set_log l w) = Some (set_log l2 w)"
        using False assms(3) sprintf_bufsiz [of "''Error opening serial port '' @ serial_dev (opts w)"]
        by (simp add: start_serial_def l2_def)
      moreover obtain pre where "logdev_file l2 = Some pre"
        using l(2) by (auto simp: l2_def log_error_def Let_def fput_def wprintw_def)
      moreover have "\<not> serial_enabled l2" by (simp add: l2_def)
      ultimately have "start_logdev True opened attached w = Some (set_log (l2\<lparr>logdev_file := Some (pre @ t)\<rparr>) w)"
        unfolding st using t by (simp add: header_logdev_def)
      then show ?thesis using False t \<open>\<not> serial_enabled l2\<close> by auto
    next
      case o: True
      have "start_serial opened attached (set_log l w) = Some (set_log (l\<lparr>serial_file := (if attached then Some [] else None)\<rparr>)
          (w\<lparr>serial_speed := port_speed (serial_baud (opts w))\<rparr>))"
        using o by (simp add: start_serial_def set_log_def)
      then have "start_logdev True opened attached w = None \<longleftrightarrow> \<not> attached"
        unfolding st using t l by (simp add: header_logdev_def)
      then show ?thesis using True o by simp
    qed
  qed
qed

lemma start_logdev_null_port_witness:
  "start_logdev True True False (set_log (no_log\<lparr>serial_enabled := True\<rparr>) (sample_breakin ''Xeon'')) = None"
proof -
  let ?w = "set_log (no_log\<lparr>serial_enabled := True\<rparr>) (sample_breakin ''Xeon'')"
  have "report_ok ?w" using sample_report_ok [of "''Xeon''"] by (simp add: report_ok_def set_log_def)
  then show ?thesis
    using start_logdev_null_port [of ?w True False]
    by (simp add: set_log_def sample_breakin_def no_breakin_def no_sensors_def sub_i64_def)
qed

text \<open>C24: When the hardware script cannot be followed, because the stream to it could not be made,
  no network card is ever listed, however long the program runs, and the upload thread never sends
  anything.\<close>

theorem no_hardware_no_upload:
  assumes "hardware_setup fe evs w = Some w1" and "\<not> (setfl_ok fe \<and> fdopen_ok fe)"
    and "nic_qty (sens w) = 0" and "fold_opt stat_round es w1 = Some w2"
  shows "nic_qty (sens w2) = 0 \<and> do_update w2 (ident, False) = Some ((ident, False), None)"
proof -
  have "\<not> hardware_finished w1 \<and> nic_qty (sens w1) = 0"
    using assms(1-3) by (auto simp: hardware_setup_def fork_cmd_def Let_def set_kern_def split: if_splits)
  then have "nic_qty (sens w2) = 0 \<and> \<not> hardware_finished w2"
    using fold_opt_keeps [where I = "\<lambda>w. nic_qty (sens w) = 0 \<and> \<not> hardware_finished w", OF assms(4)]
      stat_round_no_hardware by auto
  then show ?thesis by (simp add: do_update_def)
qed

lemma no_hardware_no_upload_witness:
  "\<exists>w1 w2. hardware_setup \<lparr>pipe_ok = True, fork_ret = 77, getfl_ok = True, setfl_ok = False, fdopen_ok = True,
      errno = 0, errtext = []\<rparr> [] (sample_breakin ''Xeon'') = Some w1 \<and>
    fold_opt stat_round [quiet_env] w1 = Some w2 \<and> do_update w2 ([], False) = Some (([], False), None)"
proof -
  let ?fe = "\<lparr>pipe_ok = True, fork_ret = 77, getfl_ok = True, setfl_ok = False, fdopen_ok = True,
      errno = 0, errtext = []\<rparr>"
  obtain w1 where w1: "hardware_setup ?fe [] (sample_breakin ''Xeon'') = Some w1" "sens w1 = sens (sample_breakin ''Xeon'')"
    "dmi_data w1 = dmi_data (sample_breakin ''Xeon'')" "burnin_script_count (mach w1) = 0"
    by (simp add: hardware_setup_def fork_cmd_def Let_def set_kern_def sample_breakin_def no_breakin_def)
  then have "report_ok w1" using sample_report_ok [of "''Xeon''"] by (simp add: report_ok_def)
  then obtain w2 where "stat_round quiet_env w1 = Some w2" using quiet_collect by blast
  then have w2: "fold_opt stat_round [quiet_env] w1 = Some w2" by simp
  have "nic_qty (sens (sample_breakin ''Xeon'')) = 0" by (simp add: sample_breakin_def no_sensors_def)
  then show ?thesis using no_hardware_no_upload [OF w1(1) _ _ w2] w1(1) w2 by auto
qed

end
