(* ===== verification/BurninRun.thy ===== *)
theory BurninRun
  imports Burnin
begin

text \<open>
  The life of the burn-in tests: the main loop as a program counter over \<open>launch\<close> and \<open>poll\<close>,
  interleaved with what the tests, the kernel and the other threads do between its steps. The
  lemmas give the invariant of the table, when a poll is defined, and how each outcome is
  counted.
\<close>

section \<open>The steps\<close>

datatype pc = Launching nat | Polling nat

text \<open>A handle in use: the output of a running test.\<close>

definition in_use :: "machine \<Rightarrow> nat \<Rightarrow> bool" where
  "in_use w f \<longleftrightarrow> (\<exists>s \<in> set (burnin_scripts w). running s = 1 \<and> fp_stdout s = Some f)"

abbreviation set_children :: "(int \<times> child) list \<Rightarrow> machine \<Rightarrow> machine" where
  "set_children cs w \<equiv> w\<lparr>kern := (kern w)\<lparr>children := cs\<rparr>\<rparr>"

abbreviation set_streams :: "stream list \<Rightarrow> machine \<Rightarrow> machine" where
  "set_streams fs w \<equiv> w\<lparr>kern := (kern w)\<lparr>streams := fs\<rparr>\<rparr>"

text \<open>
  The main loop: \<open>run_burnin_tests\<close> over all tests, then the polls, then again. Around it: a test
  writes (\<open>writes\<close>), a child ends (\<open>ends\<close>), another thread starts a command, waits for a child,
  uses a stream that is not a test's, or logs something. A child in which \<open>execve\<close> failed runs this loop
  too, on the same pipes, and takes output away that is then missing here (\<open>shared\<close>).
\<close>

inductive step :: "pc \<times> machine \<Rightarrow> pc \<times> machine \<Rightarrow> bool" where
  launch: "i < burnin_script_count w \<Longrightarrow> launch e i w = Some w' \<Longrightarrow>
    step (Launching i, w) (Launching (i + 1), w')"
| launched: "burnin_script_count w \<le> i \<Longrightarrow> step (Launching i, w) (Polling 0, w)"
| poll: "i < burnin_script_count w \<Longrightarrow> poll i w = Some w' \<Longrightarrow>
    step (Polling i, w) (Polling (i + 1), w')"
| polled: "burnin_script_count w \<le> i \<Longrightarrow> step (Polling i, w) (Launching 0, w)"
| writes: "f < length (streams (kern w)) \<Longrightarrow> x = streams (kern w) ! f \<Longrightarrow>
    step (pc, w) (pc, set_streams ((streams (kern w))[f := x\<lparr>content := content x @ t\<rparr>]) w)"
| shared: "f < length (streams (kern w)) \<Longrightarrow> x = streams (kern w) ! f \<Longrightarrow>
    step (pc, w) (pc, set_streams ((streams (kern w))[f := x\<lparr>content := drop n (content x)\<rparr>]) w)"
| ends: "(p, Alive) \<in> set (children (kern w)) \<Longrightarrow>
    step (pc, w) (pc, set_children (map (\<lambda>x. if x = (p, Alive) then (p, c) else x) (children (kern w))) w)"
| spawn: "step (pc, w) (pc, w\<lparr>kern := (kern w)\<lparr>children := children (kern w) @ [(p, Alive)],
    streams := streams (kern w) @ [x]\<rparr>\<rparr>)"
| collect: "x \<in> set (children (kern w)) \<Longrightarrow> ended x \<Longrightarrow>
    step (pc, w) (pc, set_children (remove1 x (children (kern w))) w)"
| other_stream: "\<not> in_use w f \<Longrightarrow> step (pc, w) (pc, set_streams ((streams (kern w))[f := x]) w)"
| other_log: "step (pc, w) (pc, w\<lparr>logs := l\<rparr>)"

inductive_cases step_cases: "step (c, w) (c', w')"

section \<open>The invariant\<close>

definition script_ok :: "kernel \<Rightarrow> burnin_scripts_t \<Rightarrow> bool" where
  "script_ok k s \<longleftrightarrow> running s \<in> {- 1, 0, 1} \<and> length (name s) \<le> 255 \<and>
     (\<forall>f. running s = 1 \<longrightarrow> fp_stdout s = Some f \<longrightarrow>
        f < length (streams k) \<and> is_open (streams k ! f))"

definition table_inv :: "machine \<Rightarrow> bool" where
  "table_inv w \<longleftrightarrow> length (burnin_scripts w) = MAX_BURNIN_SCRIPTS \<and>
     burnin_script_count w \<le> MAX_BURNIN_SCRIPTS \<and>
     (\<forall>s \<in> set (burnin_scripts w). script_ok (kern w) s) \<and>
     (\<forall>i < MAX_BURNIN_SCRIPTS. \<forall>j < MAX_BURNIN_SCRIPTS. \<forall>f. i \<noteq> j \<longrightarrow>
        running (burnin_scripts w ! i) = 1 \<longrightarrow> running (burnin_scripts w ! j) = 1 \<longrightarrow>
        fp_stdout (burnin_scripts w ! i) = Some f \<longrightarrow> fp_stdout (burnin_scripts w ! j) \<noteq> Some f)"

lemma table_inv_script:
  "table_inv w \<Longrightarrow> i < MAX_BURNIN_SCRIPTS \<Longrightarrow>
   i < length (burnin_scripts w) \<and> script_ok (kern w) (burnin_scripts w ! i)"
  by (simp add: table_inv_def)

text \<open>Growing or refilling the streams keeps a test in order, as does closing another stream.\<close>

definition streams_keep :: "machine \<Rightarrow> kernel \<Rightarrow> bool" where
  "streams_keep w k \<longleftrightarrow> length (streams (kern w)) \<le> length (streams k) \<and>
     (\<forall>f < length (streams (kern w)). in_use w f \<longrightarrow> is_open (streams (kern w) ! f) \<longrightarrow>
        is_open (streams k ! f))"

lemma script_ok_keep:
  assumes "streams_keep w k" and "s \<in> set (burnin_scripts w)" and "script_ok (kern w) s"
  shows "script_ok k s"
  using assms by (fastforce simp: script_ok_def streams_keep_def in_use_def)

lemma table_inv_kern:
  "table_inv w \<Longrightarrow> streams_keep w k \<Longrightarrow> table_inv (w\<lparr>kern := k\<rparr>)"
  using script_ok_keep by (auto simp: table_inv_def)

lemma table_inv_logs: "table_inv w \<Longrightarrow> table_inv (w\<lparr>logs := l\<rparr>)"
  by (simp add: table_inv_def)

text \<open>Replacing one test.\<close>

lemma table_inv_update:
  assumes w: "table_inv w" and i: "i < MAX_BURNIN_SCRIPTS" and s: "script_ok k s"
    and k: "\<And>j. j < MAX_BURNIN_SCRIPTS \<Longrightarrow> j \<noteq> i \<Longrightarrow> script_ok k (burnin_scripts w ! j)"
    and fresh: "\<And>j f. j < MAX_BURNIN_SCRIPTS \<Longrightarrow> j \<noteq> i \<Longrightarrow> running s = 1 \<Longrightarrow> fp_stdout s = Some f \<Longrightarrow>
      running (burnin_scripts w ! j) = 1 \<Longrightarrow> fp_stdout (burnin_scripts w ! j) \<noteq> Some f"
  shows "table_inv (put_script i s l k w)"
proof -
  have len: "length (burnin_scripts w) = MAX_BURNIN_SCRIPTS" using w by (simp add: table_inv_def)
  have "script_ok k x" if "x \<in> set ((burnin_scripts w)[i := s])" for x
  proof -
    from that obtain j where "j < MAX_BURNIN_SCRIPTS" "x = (burnin_scripts w)[i := s] ! j"
      using len by (auto simp: in_set_conv_nth)
    then show ?thesis using s k [of j] len by (cases "j = i") auto
  qed
  moreover have "fp_stdout ((burnin_scripts w)[i := s] ! b) \<noteq> Some f"
    if "a < MAX_BURNIN_SCRIPTS" "b < MAX_BURNIN_SCRIPTS" "a \<noteq> b"
      "running ((burnin_scripts w)[i := s] ! a) = 1" "running ((burnin_scripts w)[i := s] ! b) = 1"
      "fp_stdout ((burnin_scripts w)[i := s] ! a) = Some f" for a b f
  proof -
    consider "a = i" | "b = i" | "a \<noteq> i" "b \<noteq> i" by blast
    then show ?thesis
    proof cases
      case 1
      then show ?thesis using that fresh [of b f] len by auto
    next
      case 2
      then show ?thesis using that fresh [of a f] len by auto
    next
      case 3
      then show ?thesis using that w len by (auto simp: table_inv_def)
    qed
  qed
  ultimately show ?thesis using w by (auto simp: table_inv_def put_script_def)
qed

section \<open>launch\<close>

lemma fork_cmd_streams:
  "fork_cmd e None c (l, k) = Some (rp, fp, l', k') \<Longrightarrow>
   (\<exists>x. is_open x \<and> fp = Some (length (streams k)) \<and> streams k' = streams k @ [x]) \<or>
   fp = None \<and> streams k' = streams k"
  by (auto simp: fork_cmd_def Let_def split: if_splits)

lemma launch_None:
  "i < length (burnin_scripts w) \<Longrightarrow>
   launch e i w = None \<longleftrightarrow> running (burnin_scripts w ! i) = 0 \<and> \<not> pipe_ok e"
  by (auto simp: launch_def cmem fork_cmd_def Let_def)

lemma launch_busy:
  "i < length (burnin_scripts w) \<Longrightarrow> running (burnin_scripts w ! i) \<noteq> 0 \<Longrightarrow> launch e i w = Some w"
  by (simp add: launch_def cmem)

lemma launch_idle:
  assumes "i < length (burnin_scripts w)" and "running (burnin_scripts w ! i) = 0"
    and "launch e i w = Some w'"
  obtains rp fp l k where "fork_cmd e None (path (burnin_scripts w ! i)) (logs w, kern w) = Some (rp, fp, l, k)"
    "w' = put_script i ((burnin_scripts w ! i)\<lparr>pid := (case rp of None \<Rightarrow> pid (burnin_scripts w ! i)
        | Some p \<Rightarrow> p), fp_stdout := fp, running := 1\<rparr>) l k w"
  using assms by (auto simp: launch_def cmem Let_def put_script_def split: bind_splits)

lemma launch_inv:
  assumes w: "table_inv w" and i: "i < burnin_script_count w" and l: "launch e i w = Some w'"
  shows "table_inv w'"
proof -
  have i64: "i < MAX_BURNIN_SCRIPTS" using w i by (simp add: table_inv_def)
  then have len: "i < length (burnin_scripts w)" using table_inv_script [OF w] by simp
  let ?s = "burnin_scripts w ! i"
  show ?thesis
  proof (cases "running ?s = 0")
    case False
    with l launch_busy [OF len] w show ?thesis by simp
  next
    case True
    obtain rp fp lg k where f: "fork_cmd e None (path ?s) (logs w, kern w) = Some (rp, fp, lg, k)"
      "w' = put_script i (?s\<lparr>pid := (case rp of None \<Rightarrow> pid ?s | Some p \<Rightarrow> p),
          fp_stdout := fp, running := 1\<rparr>) lg k w"
      using launch_idle [OF len True l] .
    note st = fork_cmd_streams [OF f(1)]
    have keep: "streams_keep w k" using st by (auto simp: streams_keep_def nth_append)
    show ?thesis unfolding f(2)
    proof (rule table_inv_update [OF w i64])
      show "script_ok k (?s\<lparr>pid := (case rp of None \<Rightarrow> pid ?s | Some p \<Rightarrow> p), fp_stdout := fp, running := 1\<rparr>)"
        using table_inv_script [OF w i64] st by (auto simp: script_ok_def)
      fix j assume j: "j < MAX_BURNIN_SCRIPTS" "j \<noteq> i"
      show "script_ok k (burnin_scripts w ! j)"
        using table_inv_script [OF w j(1)] script_ok_keep [OF keep] by simp
      fix f' assume "running (?s\<lparr>pid := (case rp of None \<Rightarrow> pid ?s | Some p \<Rightarrow> p), fp_stdout := fp, running := 1\<rparr>) = 1"
        and "fp_stdout (?s\<lparr>pid := (case rp of None \<Rightarrow> pid ?s | Some p \<Rightarrow> p), fp_stdout := fp, running := 1\<rparr>) = Some f'"
        and r: "running (burnin_scripts w ! j) = 1"
      then have "f' = length (streams (kern w))" using st by auto
      then show "fp_stdout (burnin_scripts w ! j) \<noteq> Some f'"
        using table_inv_script [OF w j(1)] r by (auto simp: script_ok_def)
    qed
  qed
qed

section \<open>poll\<close>

text \<open>What one poll finds in the pipe of a test.\<close>

definition pending :: "machine \<Rightarrow> nat \<Rightarrow> string list" where
  "pending w i = (case fp_stdout (burnin_scripts w ! i) of
     None \<Rightarrow> [] | Some f \<Rightarrow> fgets_all BUFSIZ (content (streams (kern w) ! f)))"

text \<open>The lines change the last message only.\<close>

lemma output_lines_keep:
  assumes "each_line output_line ls (s, l) = Some (s', l')"
  shows "name s' = name s" "path s' = path s" "running s' = running s" "pid s' = pid s"
    "fp_stdout s' = fp_stdout s" "pass_count s' = pass_count s" "fail_count s' = fail_count s"
    "last_result s' = last_result s"
  using each_line_keeps [where g = "\<lambda>st. name (fst st)", OF _ assms]
    each_line_keeps [where g = "\<lambda>st. path (fst st)", OF _ assms]
    each_line_keeps [where g = "\<lambda>st. running (fst st)", OF _ assms]
    each_line_keeps [where g = "\<lambda>st. pid (fst st)", OF _ assms]
    each_line_keeps [where g = "\<lambda>st. fp_stdout (fst st)", OF _ assms]
    each_line_keeps [where g = "\<lambda>st. pass_count (fst st)", OF _ assms]
    each_line_keeps [where g = "\<lambda>st. fail_count (fst st)", OF _ assms]
    each_line_keeps [where g = "\<lambda>st. last_result (fst st)", OF _ assms]
  by (auto simp: output_line_def split: prod.splits)

lemma reap_defined: "length (name s) \<le> 255 \<Longrightarrow> \<exists>s' l'. reap c s l = Some (s', l')"
  by (auto simp: reap_def BUFSIZ_def split: child.splits)

text \<open>The outcome of an ended child, as the status word says it.\<close>

definition outcome :: "child \<Rightarrow> burnin_scripts_t \<Rightarrow> burnin_scripts_t" where
  "outcome c s =
     (case c of
        Exited st \<Rightarrow>
          if st = 255 then s\<lparr>running := - 1, last_result := 0, pass_count := pass_count s + 1\<rparr>
          else if st = 0 then s\<lparr>running := 0, last_result := 0, pass_count := pass_count s + 1\<rparr>
          else s\<lparr>running := 0, last_result := 1, fail_count := fail_count s + 1\<rparr>
      | _ \<Rightarrow> s\<lparr>running := - 1\<rparr>)"

lemma reap_outcome: "reap c s l = Some (s', l') \<Longrightarrow> s' = outcome c s"
  by (auto simp: reap_def outcome_def split: child.splits if_splits bind_splits)

lemma reap_errors: "reap c s l = Some (s', l') \<Longrightarrow> errors_shown l' = errors_shown l"
  by (auto simp: reap_def errors_log_message split: child.splits if_splits bind_splits)

lemma outcome_not_running: "running (outcome c s) \<noteq> 1" "running (outcome c s) \<in> {- 1, 0}"
  by (auto simp: outcome_def split: child.splits)

lemma outcome_name [simp]: "name (outcome c s) = name s"
  by (auto simp: outcome_def split: child.splits)

text \<open>A poll of a running test with a stream.\<close>

lemma poll_running:
  assumes w: "table_inv w" and i: "i < MAX_BURNIN_SCRIPTS" and r: "running (burnin_scripts w ! i) = 1"
    and f: "fp_stdout (burnin_scripts w ! i) = Some f"
  obtains (blank) "poll i w = None" "\<exists>l \<in> set (pending w i). blank_line l"
  | (lines) s l k where "\<forall>l \<in> set (pending w i). \<not> blank_line l"
    "each_line output_line (pending w i) (burnin_scripts w ! i, logs w) = Some (s, l)"
    "drain f (kern w) = Some (pending w i, k)"
    "poll i w = settle i f s l k w"
proof -
  let ?s = "burnin_scripts w ! i"
  have len: "i < length (burnin_scripts w)" and ok: "script_ok (kern w) ?s"
    using table_inv_script [OF w i] by simp_all
  have o: "f < length (streams (kern w))" "is_open (streams (kern w) ! f)"
    using ok r f by (simp_all add: script_ok_def)
  obtain k where d: "drain f (kern w) = Some (pending w i, k)"
    using drain_open [OF o] f by (simp add: pending_def)
  show thesis
  proof (cases "\<exists>l \<in> set (pending w i). blank_line l")
    case True
    then have "each_line output_line (pending w i) (?s, logs w) = None" by (simp add: each_line_None)
    then have "poll i w = None" using len r f d by (simp add: poll_def cmem)
    with True blank show thesis by blast
  next
    case False
    then obtain s l where e: "each_line output_line (pending w i) (?s, logs w) = Some (s, l)"
      using each_line_None by (metis not_None_eq surj_pair)
    show thesis
      by (rule lines [OF _ e d]) (use False len r f d e in \<open>simp_all add: poll_def cmem\<close>)
  qed
qed

lemma drain_kern:
  "drain f k = Some (ls, k') \<Longrightarrow> f < length (streams k) \<and> children k' = children k \<and>
   streams k' = (streams k)[f := (streams k ! f)\<lparr>content := []\<rparr>] \<and> is_open (streams k ! f)"
  by (auto simp: drain_def rd_Some_iff split: bind_splits if_splits)

text \<open>A poll is undefined exactly when the test runs and a line it wrote is blank.\<close>

lemma poll_None:
  assumes w: "table_inv w" and i: "i < MAX_BURNIN_SCRIPTS"
  shows "poll i w = None \<longleftrightarrow> running (burnin_scripts w ! i) = 1 \<and> (\<exists>l \<in> set (pending w i). blank_line l)"
proof -
  let ?s = "burnin_scripts w ! i"
  have len: "i < length (burnin_scripts w)" and ok: "script_ok (kern w) ?s"
    using table_inv_script [OF w i] by simp_all
  have nm: "length (name ?s) \<le> 255" using ok by (simp add: script_ok_def)
  show ?thesis
  proof (cases "running ?s = 1")
    case False
    then have "\<not> running ?s > 0" using ok by (auto simp: script_ok_def)
    with False len show ?thesis by (simp add: poll_def cmem)
  next
    case r: True
    show ?thesis
    proof (cases "fp_stdout ?s")
      case None
      then show ?thesis using r len nm by (simp add: poll_def cmem pending_def BUFSIZ_def)
    next
      case (Some f)
      show ?thesis
      proof (rule poll_running [OF w i r Some])
        assume "poll i w = None" "\<exists>l \<in> set (pending w i). blank_line l"
        with r show ?thesis by simp
      next
        fix s l k
        assume nb: "\<forall>l \<in> set (pending w i). \<not> blank_line l"
          and e: "each_line output_line (pending w i) (?s, logs w) = Some (s, l)"
          and d: "drain f (kern w) = Some (pending w i, k)"
          and p: "poll i w = settle i f s l k w"
        have "poll i w \<noteq> None"
        proof (cases "waitpid (pid s) k")
          case (Pair r' k2)
          have "streams k2 = streams k" using waitpid_streams [of "pid s" k] Pair by simp
          then have "fclose f k2 \<noteq> None" using drain_kern [OF d] by (simp add: fclose_open)
          then obtain k3 where k3: "fclose f k2 = Some k3" by blast
          show ?thesis
          proof (cases r')
            case (Wait_Pid q c)
            obtain s' l' where "reap c s l = Some (s', l')"
              using reap_defined [of s c l] output_lines_keep(1) [OF e] nm by auto
            with Wait_Pid p Pair k3 show ?thesis by (simp add: settle_def)
          qed (use p Pair in \<open>simp_all add: settle_def\<close>)
        qed
        with nb show ?thesis by auto
      qed
    qed
  qed
qed

text \<open>The cases of a poll that is defined.\<close>

lemma poll_cases:
  assumes w: "table_inv w" and i: "i < MAX_BURNIN_SCRIPTS" and p: "poll i w = Some w'"
  obtains (idle) "running (burnin_scripts w ! i) \<noteq> 1" "w' = w"
  | (stuck) l where "running (burnin_scripts w ! i) = 1" "fp_stdout (burnin_scripts w ! i) = None"
      "w' = w\<lparr>logs := l\<rparr>"
  | (waiting) f s l k where "running (burnin_scripts w ! i) = 1" "fp_stdout (burnin_scripts w ! i) = Some f"
      "each_line output_line (pending w i) (burnin_scripts w ! i, logs w) = Some (s, l)"
      "drain f (kern w) = Some (pending w i, k)" "waitpid (pid s) k = (Wait_Zero, k)"
      "w' = put_script i s l k w"
  | (unknown) f s l k where "running (burnin_scripts w ! i) = 1" "fp_stdout (burnin_scripts w ! i) = Some f"
      "each_line output_line (pending w i) (burnin_scripts w ! i, logs w) = Some (s, l)"
      "drain f (kern w) = Some (pending w i, k)" "waitpid (pid s) k = (Wait_Error, k)"
      "w' = put_script i (s\<lparr>running := 0, last_result := 0, pass_count := pass_count s + 1\<rparr>) l k w"
  | (reaped) f s l l2 k k2 k3 q c where
      "running (burnin_scripts w ! i) = 1" "fp_stdout (burnin_scripts w ! i) = Some f"
      "each_line output_line (pending w i) (burnin_scripts w ! i, logs w) = Some (s, l)"
      "drain f (kern w) = Some (pending w i, k)" "waitpid (pid s) k = (Wait_Pid q c, k2)"
      "fclose f k2 = Some k3" "w' = put_script i (outcome c s) l2 k3 w"
      "reap c s l = Some (outcome c s, l2)"
proof -
  let ?s = "burnin_scripts w ! i"
  have len: "i < length (burnin_scripts w)" and ok: "script_ok (kern w) ?s"
    using table_inv_script [OF w i] by simp_all
  show thesis
  proof (cases "running ?s = 1")
    case False
    then have "\<not> running ?s > 0" using ok by (auto simp: script_ok_def)
    then have "poll i w = Some w" using len by (simp add: poll_def cmem)
    with p have "w' = w" by simp
    with False show thesis by (rule idle)
  next
    case r: True
    show thesis
    proof (cases "fp_stdout ?s")
      case None
      then obtain l where "w' = w\<lparr>logs := l\<rparr>"
        using r len p by (auto simp: poll_def cmem split: bind_splits)
      with r None show thesis by (rule stuck)
    next
      case f: (Some f)
      show thesis
      proof (rule poll_running [OF w i r f])
        fix s l k
        assume e: "each_line output_line (pending w i) (?s, logs w) = Some (s, l)"
          and d: "drain f (kern w) = Some (pending w i, k)"
          and q: "poll i w = settle i f s l k w"
        obtain r' k2 where wp: "waitpid (pid s) k = (r', k2)" by fastforce
        show thesis
        proof (cases r')
          case Wait_Zero
          then have "k2 = k" using wp by (auto simp: waitpid_def Let_def split: if_splits option.splits)
          with Wait_Zero wp waiting [OF r f e d] p q show thesis by (simp add: settle_def)
        next
          case Wait_Error
          then have "k2 = k" using wp by (auto simp: waitpid_def Let_def split: if_splits option.splits)
          with Wait_Error wp unknown [OF r f e d] p q show thesis by (simp add: settle_def)
        next
          case (Wait_Pid q' c)
          then obtain k3 s' l' where "fclose f k2 = Some k3" "reap c s l = Some (s', l')"
            "w' = put_script i s' l' k3 w"
            using p q wp by (auto simp: settle_def split: bind_splits)
          moreover then have "s' = outcome c s" using reap_outcome by blast
          ultimately show thesis using reaped [OF r f e d, of q' c k2 k3 l'] wp Wait_Pid by simp
        qed
      next
        assume "poll i w = None"
        with p show thesis by simp
      qed
    qed
  qed
qed

lemma fclose_kern:
  "fclose f k = Some k' \<Longrightarrow> f < length (streams k) \<and> children k' = children k \<and>
   streams k' = (streams k)[f := (streams k ! f)\<lparr>is_open := False\<rparr>]"
  by (auto simp: fclose_def rd_Some_iff split: bind_splits if_splits)

text \<open>The other tests keep their stream when one test is polled.\<close>

lemma poll_inv:
  assumes w: "table_inv w" and i: "i < MAX_BURNIN_SCRIPTS" and p: "poll i w = Some w'"
  shows "table_inv w'"
proof -
  let ?s = "burnin_scripts w ! i"
  have ok: "script_ok (kern w) ?s" using table_inv_script [OF w i] by simp
  have others: "script_ok k (burnin_scripts w ! j)"
    if "fp_stdout ?s = Some f" "running ?s = 1" "length (streams k) = length (streams (kern w))"
      "\<forall>g. g \<noteq> f \<longrightarrow> is_open (streams k ! g) = is_open (streams (kern w) ! g)"
      "j < MAX_BURNIN_SCRIPTS" "j \<noteq> i" for f k j
  proof -
    have "script_ok (kern w) (burnin_scripts w ! j)" using table_inv_script [OF w that(5)] by simp
    moreover have "running (burnin_scripts w ! j) = 1 \<longrightarrow> fp_stdout (burnin_scripts w ! j) \<noteq> Some f"
      using w that(1,2,5,6) i by (auto simp: table_inv_def)
    ultimately show ?thesis using that(3,4) by (auto simp: script_ok_def)
  qed
  from w i p show ?thesis
  proof (cases rule: poll_cases)
    case idle
    with w show ?thesis by simp
  next
    case stuck
    with w show ?thesis by (simp add: table_inv_logs)
  next
    case (waiting f s l k)
    note d = drain_kern [OF waiting(4)] and e = output_lines_keep [OF waiting(3)]
    show ?thesis unfolding waiting(6)
    proof (rule table_inv_update [OF w i])
      show "script_ok k s" using ok d e waiting(1,2) by (auto simp: script_ok_def)
      show "script_ok k (burnin_scripts w ! j)" if "j < MAX_BURNIN_SCRIPTS" "j \<noteq> i" for j
        using others [OF waiting(2,1) _ _ that] d by simp
      show "fp_stdout (burnin_scripts w ! j) \<noteq> Some g"
        if "j < MAX_BURNIN_SCRIPTS" "j \<noteq> i" "fp_stdout s = Some g" "running (burnin_scripts w ! j) = 1" for j g
        using w i that waiting(1) e by (auto simp: table_inv_def)
    qed
  next
    case (unknown f s l k)
    note d = drain_kern [OF unknown(4)] and e = output_lines_keep [OF unknown(3)]
    show ?thesis unfolding unknown(6)
    proof (rule table_inv_update [OF w i])
      show "script_ok k (s\<lparr>running := 0, last_result := 0, pass_count := pass_count s + 1\<rparr>)"
        using ok e by (auto simp: script_ok_def)
      show "script_ok k (burnin_scripts w ! j)" if "j < MAX_BURNIN_SCRIPTS" "j \<noteq> i" for j
        using others [OF unknown(2,1) _ _ that] d by simp
    qed simp
  next
    case (reaped f s l l2 k k2 k3 q c)
    note d = drain_kern [OF reaped(4)] and e = output_lines_keep [OF reaped(3)]
      and fc = fclose_kern [OF reaped(6)]
    have st: "streams k2 = streams k" using waitpid_streams [of "pid s" k] reaped(5) by simp
    show ?thesis unfolding reaped(7)
    proof (rule table_inv_update [OF w i])
      show "script_ok k3 (outcome c s)"
        using ok e outcome_not_running [of c s] by (auto simp: script_ok_def)
      show "script_ok k3 (burnin_scripts w ! j)" if "j < MAX_BURNIN_SCRIPTS" "j \<noteq> i" for j
        using others [OF reaped(2,1) _ _ that] d fc st by simp
    qed (use outcome_not_running in auto)
  qed
qed

section \<open>Every step keeps the invariant\<close>

lemma table_inv_streams:
  assumes "table_inv w" and "\<And>f. in_use w f \<Longrightarrow> is_open (streams (kern w) ! f) \<Longrightarrow> is_open (fs ! f)"
    and "length (streams (kern w)) \<le> length fs"
  shows "table_inv (w\<lparr>kern := k\<lparr>streams := fs\<rparr>\<rparr>)"
  using assms by (intro table_inv_kern) (auto simp: streams_keep_def)

lemma step_inv: "step x y \<Longrightarrow> table_inv (snd x) \<Longrightarrow> table_inv (snd y)"
proof (induction rule: step.induct)
  case (launch i w e w')
  then show ?case using launch_inv by simp
next
  case (poll i w w')
  then have "i < MAX_BURNIN_SCRIPTS" by (auto simp: table_inv_def)
  with poll show ?case using poll_inv by simp
next
  case (writes f w x pc t)
  then show ?case unfolding snd_conv by (intro table_inv_streams) (auto simp: nth_list_update)
next
  case (shared f w x pc n)
  then show ?case unfolding snd_conv by (intro table_inv_streams) (auto simp: nth_list_update)
next
  case (ends p w pc c)
  then show ?case unfolding snd_conv by (intro table_inv_kern) (auto simp: streams_keep_def)
next
  case (spawn pc w x p)
  then have "table_inv (w\<lparr>kern := (kern w)\<lparr>children := children (kern w) @ [(p, Alive)]\<rparr>\<lparr>
      streams := streams (kern w) @ [x]\<rparr>\<rparr>)"
    unfolding snd_conv by (intro table_inv_streams)
      (auto simp: nth_append in_use_def table_inv_def script_ok_def)
  then show ?case by simp
next
  case (collect x w pc)
  then show ?case unfolding snd_conv by (intro table_inv_kern) (auto simp: streams_keep_def)
next
  case (other_stream w f pc x)
  then show ?case unfolding snd_conv by (intro table_inv_streams) (assumption, metis nth_list_update_neq, simp)
next
  case (other_log pc w l)
  then show ?case by (simp add: table_inv_logs)
qed simp_all

definition reachable :: "machine \<Rightarrow> pc \<times> machine \<Rightarrow> bool" where
  "reachable w0 x \<longleftrightarrow> step\<^sup>*\<^sup>* (Launching 0, w0) x"

lemma reachable_inv: "reachable w0 (c, w) \<Longrightarrow> table_inv w0 \<Longrightarrow> table_inv w"
proof -
  have "step\<^sup>*\<^sup>* x y \<Longrightarrow> table_inv (snd x) \<Longrightarrow> table_inv (snd y)" for x y
    by (induction rule: rtranclp_induct) (use step_inv in blast)+
  then show "reachable w0 (c, w) \<Longrightarrow> table_inv w0 \<Longrightarrow> table_inv w"
    unfolding reachable_def by force
qed

end
