(* ===== verification/BurninSpec.thy ===== *)
theory BurninSpec
  imports BurninFind BurninRun
begin

text \<open>
  What the burn-in loop promises. A test is idle, busy or off, with two counts
  (\<open>test_spec\<close>); the main loop is shown to move every test as that specification says as long as
  the kernel starts every command, and the deviations are stated for the cases in which it does
  not (a failing \<open>fork\<close>, a missing stream).
\<close>

section \<open>From discovery to the invariant\<close>

lemma find_loop_inv:
  "find_loop es n (m, ss) = Some (n', m', ss') \<Longrightarrow> \<forall>e \<in> set es. length e \<le> 255 \<Longrightarrow>
   \<forall>s \<in> set ss. running s = 0 \<and> length (name s) \<le> 255 \<Longrightarrow> n \<le> length ss \<Longrightarrow>
   length ss' = length ss \<and> n' \<le> length ss' \<and> (\<forall>s \<in> set ss'. running s = 0 \<and> length (name s) \<le> 255)"
proof (induction es arbitrary: n m ss)
  case Nil
  then show ?case by simp
next
  case (Cons e es)
  obtain m1 d where d: "disable_loop e m 0 = Some (m1, d)"
    using Cons.prems(1) by (auto split: bind_splits)
  show ?case
  proof (cases "\<not> d \<and> take 1 e \<noteq> ''.''")
    case True
    then obtain s where s: "rd ss (int n) = Some s"
      "find_loop es (n + 1) (m1, ss[n := new_script e s]) = Some (n', m', ss')"
      using Cons.prems(1) d by (auto split: bind_splits)
    then have n: "n < length ss" by (simp add: rd_Some_iff)
    have "running (new_script e s) = 0 \<and> length (name (new_script e s)) \<le> 255"
      using Cons.prems(2) by (simp add: new_script_name) (simp add: new_script_def)
    then have "\<forall>x \<in> set (ss[n := new_script e s]). running x = 0 \<and> length (name x) \<le> 255"
      using Cons.prems(3) set_update_subset_insert [of ss n "new_script e s"] by auto
    then show ?thesis using Cons.IH [OF s(2)] Cons.prems(2) n by simp
  next
    case False
    then have "find_loop es n (m1, ss) = Some (n', m', ss')" using Cons.prems(1) d by (auto split: if_splits)
    from Cons.IH [OF this] show ?thesis using Cons.prems by simp
  qed
qed

text \<open>A table of tests that do not run is in order whatever the kernel holds.\<close>

definition idle_table :: "burnin_scripts_t list \<times> nat \<Rightarrow> bool" where
  "idle_table t \<longleftrightarrow> length (fst t) = MAX_BURNIN_SCRIPTS \<and> snd t \<le> MAX_BURNIN_SCRIPTS \<and>
     (\<forall>s \<in> set (fst t). running s = 0 \<and> length (name s) \<le> 255)"

lemma idle_table_inv: "idle_table (burnin_scripts w, burnin_script_count w) \<Longrightarrow> table_inv w"
  by (simp add: idle_table_def table_inv_def script_ok_def)

lemma find_burnin_tests_idle:
  assumes "find_burnin_tests (Some es) w = Some w0" and "burnin_scripts w = no_scripts"
    and "\<forall>e \<in> set es. length e \<le> 255"
  shows "idle_table (burnin_scripts w0, burnin_script_count w0)"
proof -
  from assms(1) obtain n m ss where f: "find_loop es 0 (breakin_disable w, no_scripts) = Some (n, m, ss)"
    "w0 = w\<lparr>breakin_disable := m, burnin_scripts := ss, burnin_script_count := n\<rparr>"
    using assms(2) by (auto simp: find_burnin_tests_def split: bind_splits)
  have "length ss = MAX_BURNIN_SCRIPTS \<and> n \<le> length ss \<and> (\<forall>s \<in> set ss. running s = 0 \<and> length (name s) \<le> 255)"
    using find_loop_inv [OF f(1) assms(3)] by (simp add: no_scripts_def no_script_def)
  then show ?thesis by (simp add: f(2) idle_table_def)
qed

lemmas find_burnin_tests_inv = find_burnin_tests_idle [THEN idle_table_inv]

section \<open>The specification of one test\<close>

datatype phase = Idle | Busy | Off

type_synonym test_spec = "phase \<times> 64 word \<times> 64 word"

definition abs_test :: "burnin_scripts_t \<Rightarrow> test_spec" where
  "abs_test s = (if running s = 0 then Idle else if running s = 1 then Busy else Off,
     pass_count s, fail_count s)"

text \<open>A finished run: status 0 passes, 255 passes and turns the test off, any other status fails;
  a run ended by a signal turns the test off and counts nothing.\<close>

fun finish :: "child \<Rightarrow> test_spec \<Rightarrow> test_spec" where
  "finish Alive t = t"
| "finish Killed (p, a, b) = (Off, a, b)"
| "finish (Exited st) (p, a, b) =
     (if st = 255 then (Off, a + 1, b) else if st = 0 then (Idle, a + 1, b) else (Idle, a, b + 1))"

lemma abs_outcome: "c \<noteq> Alive \<Longrightarrow> running s = 1 \<Longrightarrow> abs_test (outcome c s) = finish c (abs_test s)"
  by (cases c) (auto simp: outcome_def abs_test_def)

lemma abs_outcome_keep:
  assumes "each_line output_line ls (s, l) = Some (s', l')"
  shows "abs_test s' = abs_test s" "abs_test (outcome c s') = abs_test (outcome c s)"
  using output_lines_keep [OF assms] by (auto simp: abs_test_def outcome_def split: child.splits)

section \<open>A kernel that starts every command\<close>

text \<open>Every running test has a stream and its own child.\<close>

definition kids_ok :: "machine \<Rightarrow> bool" where
  "kids_ok w \<longleftrightarrow> distinct (map fst (children (kern w))) \<and> (\<forall>p \<in> fst ` set (children (kern w)). 0 < p) \<and>
     (\<forall>i < MAX_BURNIN_SCRIPTS. running (burnin_scripts w ! i) = 1 \<longrightarrow>
        fp_stdout (burnin_scripts w ! i) \<noteq> None \<and>
        pid (burnin_scripts w ! i) \<in> fst ` set (children (kern w))) \<and>
     (\<forall>i < MAX_BURNIN_SCRIPTS. \<forall>j < MAX_BURNIN_SCRIPTS. i \<noteq> j \<longrightarrow>
        running (burnin_scripts w ! i) = 1 \<longrightarrow> running (burnin_scripts w ! j) = 1 \<longrightarrow>
        pid (burnin_scripts w ! i) \<noteq> pid (burnin_scripts w ! j))"

lemma kids_ok_pids: "map fst cs = map fst (children (kern w)) \<Longrightarrow> kids_ok (set_children cs w) = kids_ok w"
proof -
  assume m: "map fst cs = map fst (children (kern w))"
  then have "fst ` set cs = fst ` set (children (kern w))" by (metis image_set)
  with m show ?thesis by (simp add: kids_ok_def)
qed

definition fork_good :: "fork_env \<Rightarrow> machine \<Rightarrow> bool" where
  "fork_good e w \<longleftrightarrow> pipe_ok e \<and> setfl_ok e \<and> fdopen_ok e \<and> 0 < fork_ret e \<and>
     fork_ret e \<notin> fst ` set (children (kern w))"

lemma fork_good_cmd:
  assumes "fork_good e w"
  shows "\<exists>l'. fork_cmd e None c (l, kern w) = Some (Some (fork_ret e), Some (length (streams (kern w))), l',
    (kern w)\<lparr>children := children (kern w) @ [(fork_ret e, Alive)],
       streams := streams (kern w) @ [\<lparr>content = [], is_open = True\<rparr>]\<rparr>)"
  using assms by (simp add: fork_cmd_def fork_good_def Let_def)

text \<open>The steps of a run in which every \<open>fork\<close> succeeds with a fresh process id and no other
  thread waits for the child of a test.\<close>

inductive good_step :: "pc \<times> machine \<Rightarrow> pc \<times> machine \<Rightarrow> bool" where
  launch: "i < burnin_script_count w \<Longrightarrow> fork_good e w \<Longrightarrow> launch e i w = Some w' \<Longrightarrow>
    good_step (Launching i, w) (Launching (i + 1), w')"
| launched: "burnin_script_count w \<le> i \<Longrightarrow> good_step (Launching i, w) (Polling 0, w)"
| poll: "i < burnin_script_count w \<Longrightarrow> poll i w = Some w' \<Longrightarrow>
    good_step (Polling i, w) (Polling (i + 1), w')"
| polled: "burnin_script_count w \<le> i \<Longrightarrow> good_step (Polling i, w) (Launching 0, w)"
| writes: "f < length (streams (kern w)) \<Longrightarrow> x = streams (kern w) ! f \<Longrightarrow>
    good_step (pc, w) (pc, set_streams ((streams (kern w))[f := x\<lparr>content := content x @ t\<rparr>]) w)"
| ends: "(p, Alive) \<in> set (children (kern w)) \<Longrightarrow>
    good_step (pc, w) (pc, set_children (map (\<lambda>x. if x = (p, Alive) then (p, c) else x) (children (kern w))) w)"
| spawn: "0 < p \<Longrightarrow> p \<notin> fst ` set (children (kern w)) \<Longrightarrow>
    good_step (pc, w) (pc, w\<lparr>kern := (kern w)\<lparr>children := children (kern w) @ [(p, Alive)],
      streams := streams (kern w) @ [x]\<rparr>\<rparr>)"
| collect: "x \<in> set (children (kern w)) \<Longrightarrow> ended x \<Longrightarrow>
    \<forall>s \<in> set (burnin_scripts w). running s = 1 \<longrightarrow> pid s \<noteq> fst x \<Longrightarrow>
    good_step (pc, w) (pc, set_children (remove1 x (children (kern w))) w)"
| other_stream: "\<not> in_use w f \<Longrightarrow>
    good_step (pc, w) (pc, set_streams ((streams (kern w))[f := x]) w)"
| other_log: "good_step (pc, w) (pc, w\<lparr>logs := l\<rparr>)"

lemma good_step_step: "good_step x y \<Longrightarrow> step x y"
  by (induction rule: good_step.induct) (blast intro: step.intros)+

text \<open>A successful start: the new child belongs to the test.\<close>

lemma launch_good:
  assumes w: "table_inv w" and i: "i < MAX_BURNIN_SCRIPTS" and g: "fork_good e w"
    and l: "launch e i w = Some w'" and z: "running (burnin_scripts w ! i) = 0"
  obtains lg where "w' = put_script i ((burnin_scripts w ! i)\<lparr>pid := fork_ret e,
      fp_stdout := Some (length (streams (kern w))), running := 1\<rparr>) lg
      ((kern w)\<lparr>children := children (kern w) @ [(fork_ret e, Alive)],
        streams := streams (kern w) @ [\<lparr>content = [], is_open = True\<rparr>]\<rparr>) w"
proof -
  have len: "i < length (burnin_scripts w)" using table_inv_script [OF w i] by simp
  obtain rp fp lg k where f: "fork_cmd e None (path (burnin_scripts w ! i)) (logs w, kern w) = Some (rp, fp, lg, k)"
    "w' = put_script i ((burnin_scripts w ! i)\<lparr>pid := (case rp of None \<Rightarrow> pid (burnin_scripts w ! i)
        | Some p \<Rightarrow> p), fp_stdout := fp, running := 1\<rparr>) lg k w"
    using launch_idle [OF len z l] .
  with fork_good_cmd [OF g, of "path (burnin_scripts w ! i)" "logs w"] that show thesis by fastforce
qed

lemma put_script_sel [simp]:
  "burnin_scripts (put_script i s l k w) = (burnin_scripts w)[i := s]"
  "kern (put_script i s l k w) = k" "logs (put_script i s l k w) = l"
  by (simp_all add: put_script_def)

lemma kids_ok_launch:
  assumes w: "table_inv w" and k: "kids_ok w" and i: "i < MAX_BURNIN_SCRIPTS" and g: "fork_good e w"
    and l: "launch e i w = Some w'"
  shows "kids_ok w'"
proof (cases "running (burnin_scripts w ! i) = 0")
  case True
  have len: "length (burnin_scripts w) = MAX_BURNIN_SCRIPTS" using w by (simp add: table_inv_def)
  obtain lg where w': "w' = put_script i ((burnin_scripts w ! i)\<lparr>pid := fork_ret e,
      fp_stdout := Some (length (streams (kern w))), running := 1\<rparr>) lg
      ((kern w)\<lparr>children := children (kern w) @ [(fork_ret e, Alive)],
        streams := streams (kern w) @ [\<lparr>content = [], is_open = True\<rparr>]\<rparr>) w"
    using launch_good [OF w i g l True] .
  have fresh: "pid (burnin_scripts w ! j) \<noteq> fork_ret e"
    if "j < MAX_BURNIN_SCRIPTS" "running (burnin_scripts w ! j) = 1" for j
    using k g that unfolding kids_ok_def fork_good_def by metis
  show ?thesis unfolding kids_ok_def
  proof (intro conjI allI impI)
    show "distinct (map fst (children (kern w')))" "\<forall>p \<in> fst ` set (children (kern w')). 0 < p"
      using k g by (auto simp: w' kids_ok_def fork_good_def)
  next
    fix j assume "j < MAX_BURNIN_SCRIPTS" "running (burnin_scripts w' ! j) = 1"
    then show "fp_stdout (burnin_scripts w' ! j) \<noteq> None"
      "pid (burnin_scripts w' ! j) \<in> fst ` set (children (kern w'))"
      using k len by (cases "j = i"; auto simp: w' kids_ok_def)+
  next
    fix a b assume "a < MAX_BURNIN_SCRIPTS" "b < MAX_BURNIN_SCRIPTS" "a \<noteq> b"
      "running (burnin_scripts w' ! a) = 1" "running (burnin_scripts w' ! b) = 1"
    then show "pid (burnin_scripts w' ! a) \<noteq> pid (burnin_scripts w' ! b)"
      using k len fresh [of a] fresh [of b] by (cases "a = i"; cases "b = i") (auto simp: w' kids_ok_def)
  qed
next
  case False
  have "i < length (burnin_scripts w)" using table_inv_script [OF w i] by simp
  with launch_busy False l k show ?thesis by force
qed

text \<open>The poll of a running test: nothing while its child is alive, its outcome afterwards.\<close>

lemma poll_good:
  assumes w: "table_inv w" and k: "kids_ok w" and i: "i < MAX_BURNIN_SCRIPTS"
    and r: "running (burnin_scripts w ! i) = 1" and p: "poll i w = Some w'"
    and c: "(pid (burnin_scripts w ! i), c) \<in> set (children (kern w))"
  shows "abs_test (burnin_scripts w' ! i) = finish c (abs_test (burnin_scripts w ! i)) \<and>
    (\<forall>j. j \<noteq> i \<longrightarrow> burnin_scripts w' ! j = burnin_scripts w ! j) \<and>
    pid (burnin_scripts w' ! i) = pid (burnin_scripts w ! i) \<and>
    fp_stdout (burnin_scripts w' ! i) = fp_stdout (burnin_scripts w ! i) \<and>
    (running (burnin_scripts w' ! i) = 1 \<longleftrightarrow> c = Alive) \<and>
    children (kern w') = (if c = Alive then children (kern w)
      else remove1 (pid (burnin_scripts w ! i), c) (children (kern w)))"
proof -
  let ?s = "burnin_scripts w ! i"
  have len: "i < length (burnin_scripts w)" using table_inv_script [OF w i] by simp
  have own: "waitpid (pid ?s) k' = (if c = Alive then (Wait_Zero, k')
      else (Wait_Pid (pid ?s) c, k'\<lparr>children := remove1 (pid ?s, c) (children k')\<rparr>))"
    if "children k' = children (kern w)" for k'
  proof (rule waitpid_own)
    show "distinct (map fst (children k'))" "(pid ?s, c) \<in> set (children k')" "0 < pid ?s"
      using k c that by (auto simp: kids_ok_def)
  qed
  from w i p show ?thesis
  proof (cases rule: poll_cases)
    case idle
    with r show ?thesis by simp
  next
    case stuck
    with k i r show ?thesis by (auto simp: kids_ok_def)
  next
    case (waiting f s l k1)
    note d = drain_kern [OF waiting(4)] and e = output_lines_keep [OF waiting(3)]
    have a: "c = Alive" using own [of k1] d e(4) waiting(5) by (auto split: if_splits)
    show ?thesis using a r len d e abs_outcome_keep(1) [OF waiting(3)] by (simp add: waiting(6))
  next
    case (unknown f s l k1)
    note d = drain_kern [OF unknown(4)] and e = output_lines_keep [OF unknown(3)]
    then show ?thesis using own [of k1] unknown(5) by (auto split: if_splits)
  next
    case (reaped f s l l2 k1 k2 k3 q c')
    note d = drain_kern [OF reaped(4)] and e = output_lines_keep [OF reaped(3)]
      and fc = fclose_kern [OF reaped(6)]
    have a: "c \<noteq> Alive" "c' = c" "k2 = k1\<lparr>children := remove1 (pid ?s, c) (children k1)\<rparr>"
      using own [of k1] d e(4) reaped(5) by (auto split: if_splits)
    have "pid (outcome c s) = pid s" "fp_stdout (outcome c s) = fp_stdout s"
      by (auto simp: outcome_def split: child.splits)
    then show ?thesis
      using a r len d e fc abs_outcome_keep(2) [OF reaped(3), of c] abs_outcome [OF a(1) r]
        outcome_not_running(1) [of c s]
      by (simp add: reaped(7))
  qed
qed

lemma poll_idle:
  assumes "table_inv w" and "i < MAX_BURNIN_SCRIPTS" and "running (burnin_scripts w ! i) \<noteq> 1"
    and "poll i w = Some w'"
  shows "w' = w"
  using assms(1,2,4) by (cases rule: poll_cases) (use assms(3) in auto)

lemma kids_ok_remove:
  assumes k: "kids_ok w" and x: "\<forall>j < MAX_BURNIN_SCRIPTS. running (burnin_scripts w' ! j) = 1 \<longrightarrow>
      running (burnin_scripts w ! j) = 1 \<and> pid (burnin_scripts w' ! j) = pid (burnin_scripts w ! j) \<and>
      fp_stdout (burnin_scripts w' ! j) = fp_stdout (burnin_scripts w ! j) \<and> pid (burnin_scripts w ! j) \<noteq> fst x"
    and c: "children (kern w') = remove1 x (children (kern w))"
  shows "kids_ok w'"
proof -
  have "pid (burnin_scripts w' ! j) \<in> fst ` set (remove1 x (children (kern w)))"
    if j: "j < MAX_BURNIN_SCRIPTS" "running (burnin_scripts w' ! j) = 1" for j
  proof -
    have "pid (burnin_scripts w ! j) \<in> fst ` set (children (kern w))"
      using k x j by (simp add: kids_ok_def)
    then obtain y where "y \<in> set (children (kern w))" "fst y = pid (burnin_scripts w ! j)" by auto
    moreover then have "y \<noteq> x" using x j by auto
    ultimately have "y \<in> set (remove1 x (children (kern w)))" by simp
    with \<open>fst y = _\<close> x j show ?thesis by (metis image_eqI)
  qed
  moreover have "distinct (map fst (remove1 x (children (kern w))))"
    using k by (simp add: kids_ok_def distinct_map_remove1)
  moreover have "\<forall>p \<in> fst ` set (remove1 x (children (kern w))). 0 < p"
    using k by (auto simp: kids_ok_def dest: set_remove1_subset [THEN subsetD])
  ultimately show ?thesis using k x c by (simp add: kids_ok_def)
qed

lemma kids_ok_poll:
  assumes w: "table_inv w" and k: "kids_ok w" and i: "i < MAX_BURNIN_SCRIPTS" and p: "poll i w = Some w'"
  shows "kids_ok w'"
proof (cases "running (burnin_scripts w ! i) = 1")
  case True
  then obtain c where c: "(pid (burnin_scripts w ! i), c) \<in> set (children (kern w))"
    using k i by (auto simp: kids_ok_def)
  note g = poll_good [OF w k i True p c]
  show ?thesis
  proof (cases "c = Alive")
    case True
    have "burnin_scripts w' ! j = burnin_scripts w ! j" if "j \<noteq> i" for j using g that by blast
    then have "running (burnin_scripts w' ! j) = running (burnin_scripts w ! j)"
      "pid (burnin_scripts w' ! j) = pid (burnin_scripts w ! j)"
      "fp_stdout (burnin_scripts w' ! j) = fp_stdout (burnin_scripts w ! j)" for j
      using g \<open>running (burnin_scripts w ! i) = 1\<close> True by (cases "j = i"; simp)+
    then show ?thesis using k g True by (simp add: kids_ok_def)
  next
    case False
    have o: "burnin_scripts w' ! j = burnin_scripts w ! j" if "j \<noteq> i" for j using g that by blast
    have n: "running (burnin_scripts w' ! i) \<noteq> 1" using g False by blast
    show ?thesis
    proof (rule kids_ok_remove [OF k])
      show "children (kern w') = remove1 (pid (burnin_scripts w ! i), c) (children (kern w))"
        using g False by simp
      show "\<forall>j < MAX_BURNIN_SCRIPTS. running (burnin_scripts w' ! j) = 1 \<longrightarrow>
          running (burnin_scripts w ! j) = 1 \<and> pid (burnin_scripts w' ! j) = pid (burnin_scripts w ! j) \<and>
          fp_stdout (burnin_scripts w' ! j) = fp_stdout (burnin_scripts w ! j) \<and>
          pid (burnin_scripts w ! j) \<noteq> fst (pid (burnin_scripts w ! i), c)"
        using o n k i \<open>running (burnin_scripts w ! i) = 1\<close> by (metis fst_conv kids_ok_def)
    qed
  qed
next
  case False
  with poll_idle [OF w i False p] k show ?thesis by simp
qed

lemma good_step_inv:
  "good_step x y \<Longrightarrow> table_inv (snd x) \<and> kids_ok (snd x) \<Longrightarrow> table_inv (snd y) \<and> kids_ok (snd y)"
proof (intro conjI)
  assume "good_step x y" "table_inv (snd x) \<and> kids_ok (snd x)"
  then show "table_inv (snd y)" using step_inv good_step_step by blast
next
  show "good_step x y \<Longrightarrow> table_inv (snd x) \<and> kids_ok (snd x) \<Longrightarrow> kids_ok (snd y)"
  proof (induction rule: good_step.induct)
    case (launch i w e w')
    then have "i < MAX_BURNIN_SCRIPTS" by (auto simp: table_inv_def)
    with launch kids_ok_launch [of w i e w'] show ?case by simp
  next
    case (poll i w w')
    then have "i < MAX_BURNIN_SCRIPTS" by (auto simp: table_inv_def)
    with poll kids_ok_poll [of w i w'] show ?case by simp
  next
    case (ends p w pc c)
    have "map fst (map (\<lambda>x. if x = (p, Alive) then (p, c) else x) cs) = map fst cs" for cs
      by (induction cs) auto
    with ends show ?case using kids_ok_pids by simp
  next
    case (collect x w pc)
    then have p: "pid (burnin_scripts w ! j) \<noteq> fst x"
      if "j < MAX_BURNIN_SCRIPTS" "running (burnin_scripts w ! j) = 1" for j
      using that nth_mem [of j "burnin_scripts w"] by (simp add: table_inv_def)
    have k: "kids_ok w" using collect by simp
    show ?case unfolding snd_conv by (rule kids_ok_remove [OF k]) (use p in simp_all)
  qed (auto simp: kids_ok_def)
qed

text \<open>In every state that the loop reaches from a table in order, the only undefined operations are
  the poll of a test that wrote a blank line and a start whose \<open>pipe\<close> fails.\<close>

lemma reachable_defined:
  assumes "table_inv w0" and "step\<^sup>*\<^sup>* (Launching 0, w0) (c, w')" and "i < burnin_script_count w'"
  shows "(poll i w' = None \<longleftrightarrow>
      running (burnin_scripts w' ! i) = 1 \<and> (\<exists>l \<in> set (pending w' i). blank_line l)) \<and>
    (launch e i w' = None \<longleftrightarrow> running (burnin_scripts w' ! i) = 0 \<and> \<not> pipe_ok e)"
proof -
  have w: "table_inv w'" using reachable_inv assms(1,2) by (simp add: reachable_def)
  then have i: "i < MAX_BURNIN_SCRIPTS" using assms(3) by (simp add: table_inv_def)
  then have "i < length (burnin_scripts w')" using table_inv_script [OF w] by simp
  then show ?thesis using poll_None [OF w i] launch_None by blast
qed

section \<open>Properties\<close>

text \<open>C2: Whatever the tests write, however the kernel answers and the other threads interfere,
  the main loop started on the discovered tests never uses a closed or shared stream and never
  leaves the table: a poll is undefined exactly when a running test has written a blank line,
  a start exactly when \<open>pipe\<close> fails.\<close>

theorem burnin_safety:
  assumes "find_burnin_tests (Some es) w = Some w0" and "burnin_scripts w = no_scripts"
    and "\<forall>e \<in> set es. length e \<le> 255" and "step\<^sup>*\<^sup>* (Launching 0, w0) (c, w')"
    and "i < burnin_script_count w'"
  shows "(poll i w' = None \<longleftrightarrow>
      running (burnin_scripts w' ! i) = 1 \<and> (\<exists>l \<in> set (pending w' i). blank_line l)) \<and>
    (launch e i w' = None \<longleftrightarrow> running (burnin_scripts w' ! i) = 0 \<and> \<not> pipe_ok e)"
  using reachable_defined [OF find_burnin_tests_inv [OF assms(1-3)] assms(4,5)] .

definition sample_fork :: "int \<Rightarrow> fork_env" where
  "sample_fork p = \<lparr>pipe_ok = True, fork_ret = p, getfl_ok = True, setfl_ok = True, fdopen_ok = True,
     errno = 0, errtext = []\<rparr>"

definition one_test :: machine where
  "one_test = (sample_machine [])\<lparr>burnin_scripts := no_scripts[0 := new_script ''ecc'' no_script],
     burnin_script_count := 1\<rparr>"

lemma one_test_found: "find_burnin_tests (Some [''.'', ''ecc'']) (sample_machine []) = Some one_test"
proof -
  have d: "breakin_disable (sample_machine []) = NUL # replicate 1023 NUL"
    using sample_disable [of "[]"] by simp
  have "find_loop [''.'', ''ecc''] 0 (NUL # replicate 1023 NUL, no_scripts) =
    Some (1, NUL # replicate 1023 NUL, no_scripts[0 := new_script ''ecc'' no_script])"
    by (simp add: disable_loop_none no_scripts_def MAX_BURNIN_SCRIPTS_def rd_def)
  moreover have "burnin_scripts (sample_machine []) = no_scripts" by (simp add: sample_machine_def)
  moreover have "(sample_machine [])\<lparr>breakin_disable := NUL # replicate 1023 NUL\<rparr> = sample_machine []"
    using d by simp
  ultimately show ?thesis unfolding find_burnin_tests_def one_test_def using d
    by (simp only: option.case bind.bind_lunit prod.case)
qed

theorem burnin_safety_witness:
  "poll 0 one_test \<noteq> None \<and> launch (sample_fork 7) 0 one_test \<noteq> None"
proof -
  have s: "burnin_scripts (sample_machine []) = no_scripts" by (simp add: sample_machine_def)
  have "burnin_scripts one_test ! 0 = new_script ''ecc'' no_script"
    by (simp add: one_test_def no_scripts_def MAX_BURNIN_SCRIPTS_def)
  then have r: "running (burnin_scripts one_test ! 0) = 0" by (simp add: new_script_def)
  from burnin_safety [OF one_test_found s _ rtranclp.rtrancl_refl, of 0 "sample_fork 7"] r
  show ?thesis by (simp add: one_test_def sample_fork_def)
qed

text \<open>A test that is disabled, or that runs without a stream, is left as it is by every step.\<close>

lemma fixed_step:
  assumes "step x y" and "table_inv (snd x)" and "i < MAX_BURNIN_SCRIPTS"
    and "let s = burnin_scripts (snd x) ! i in running s \<noteq> 0 \<and> (running s = 1 \<longrightarrow> fp_stdout s = None)"
  shows "burnin_scripts (snd y) ! i = burnin_scripts (snd x) ! i"
  using assms
proof (induction rule: step.induct)
  case (launch j w e w')
  have j: "j < MAX_BURNIN_SCRIPTS" using launch by (auto simp: table_inv_def)
  then have len: "j < length (burnin_scripts w)" using table_inv_script [of w] launch by simp
  show ?case
  proof (cases "running (burnin_scripts w ! j) = 0")
    case True
    then have "j \<noteq> i" using launch by (auto simp: Let_def)
    moreover obtain s l k where "w' = put_script j s l k w" using launch_idle [OF len True launch(2)] by blast
    ultimately show ?thesis by simp
  qed (use launch_busy [OF len] launch in simp)
next
  case (poll j w w')
  have j: "j < MAX_BURNIN_SCRIPTS" using poll by (auto simp: table_inv_def)
  have w: "table_inv w" using poll by simp
  have ne: "running (burnin_scripts w ! j) = 1 \<Longrightarrow> fp_stdout (burnin_scripts w ! j) = Some f \<Longrightarrow> j \<noteq> i" for f
    using poll by (auto simp: Let_def)
  from w j poll(2) show ?case
  proof (cases rule: poll_cases)
    case waiting
    with ne show ?thesis by simp
  next
    case unknown
    with ne show ?thesis by simp
  next
    case reaped
    with ne show ?thesis by simp
  qed simp_all
qed simp_all

lemma fixed_steps:
  assumes "step\<^sup>*\<^sup>* x y" and "table_inv (snd x)" and "i < MAX_BURNIN_SCRIPTS"
    and "let s = burnin_scripts (snd x) ! i in running s \<noteq> 0 \<and> (running s = 1 \<longrightarrow> fp_stdout s = None)"
  shows "burnin_scripts (snd y) ! i = burnin_scripts (snd x) ! i \<and> table_inv (snd y)"
  using assms
proof (induction rule: rtranclp_induct)
  case base
  then show ?case by simp
next
  case (step y z)
  then have "burnin_scripts (snd y) ! i = burnin_scripts (snd x) ! i" "table_inv (snd y)" by simp_all
  with step fixed_step [OF step(2)] step_inv [OF step(2)] show ?case by simp
qed

text \<open>C10: A test that has been disabled stays as it is: no step of the main loop, of the kernel or of
  another thread starts it again or changes its counts.\<close>

theorem disabled_stays_disabled:
  assumes "table_inv w" and "i < burnin_script_count w" and "running (burnin_scripts w ! i) = - 1"
    and "step\<^sup>*\<^sup>* (c, w) (c', w')"
  shows "burnin_scripts w' ! i = burnin_scripts w ! i"
proof -
  have "i < MAX_BURNIN_SCRIPTS" using assms(1,2) by (simp add: table_inv_def)
  then show ?thesis using fixed_steps [OF assms(4)] assms(1,3) by simp
qed

definition with_test :: "burnin_scripts_t \<Rightarrow> machine" where
  "with_test s = (sample_machine [])\<lparr>burnin_scripts := no_scripts[0 := s], burnin_script_count := 1\<rparr>"

lemma with_test_sel [simp]:
  "burnin_scripts (with_test s) ! 0 = s" "burnin_script_count (with_test s) = 1"
  "kern (with_test s) = \<lparr>children = [], streams = []\<rparr>"
  by (simp_all add: with_test_def no_scripts_def MAX_BURNIN_SCRIPTS_def sample_machine_def)

lemma no_scripts_nth: "j < MAX_BURNIN_SCRIPTS \<Longrightarrow> no_scripts ! j = no_script"
  by (simp add: no_scripts_def)

lemma with_test_inv:
  assumes "script_ok \<lparr>children = [], streams = []\<rparr> s"
  shows "table_inv (with_test s)"
proof -
  have l: "length (burnin_scripts (with_test s)) = MAX_BURNIN_SCRIPTS"
    by (simp add: with_test_def no_scripts_def)
  have n: "burnin_scripts (with_test s) ! j = (if j = 0 then s else no_script)"
    if "j < MAX_BURNIN_SCRIPTS" for j
    using that no_scripts_nth [OF that] by (simp add: with_test_def nth_list_update no_scripts_def)
  have z: "running no_script = 0" "script_ok k no_script" for k
    by (simp_all add: no_script_def script_ok_def)
  show ?thesis unfolding table_inv_def
  proof (intro conjI allI impI ballI)
    fix x assume "x \<in> set (burnin_scripts (with_test s))"
    then obtain j where "j < MAX_BURNIN_SCRIPTS" "x = burnin_scripts (with_test s) ! j"
      using l by (auto simp: in_set_conv_nth)
    then show "script_ok (kern (with_test s)) x" using n assms z by simp
  next
    fix a b f
    assume "a < MAX_BURNIN_SCRIPTS" "b < MAX_BURNIN_SCRIPTS" "a \<noteq> b"
      "running (burnin_scripts (with_test s) ! a) = 1" "running (burnin_scripts (with_test s) ! b) = 1"
    then show "fp_stdout (burnin_scripts (with_test s) ! b) \<noteq> Some f"
      using n [of a] n [of b] z by (auto split: if_splits)
  qed (simp_all add: l, simp add: MAX_BURNIN_SCRIPTS_def)
qed

theorem disabled_stays_disabled_witness:
  "\<exists>w'. step\<^sup>*\<^sup>* (Launching 0, with_test (no_script\<lparr>running := - 1, pass_count := 3\<rparr>)) (Launching 1, w') \<and>
    pass_count (burnin_scripts w' ! 0) = 3"
proof -
  let ?s = "no_script\<lparr>running := - 1, pass_count := 3\<rparr>" and ?e = "sample_fork 7"
  have t: "table_inv (with_test ?s)" by (rule with_test_inv) (simp add: script_ok_def no_script_def)
  have "launch ?e 0 (with_test ?s) = Some (with_test ?s)"
    by (rule launch_busy) (simp_all add: with_test_def no_scripts_def MAX_BURNIN_SCRIPTS_def)
  then have "step (Launching 0, with_test ?s) (Launching (0 + 1), with_test ?s)"
    by (intro step.launch) simp_all
  then have r: "step\<^sup>*\<^sup>* (Launching 0, with_test ?s) (Launching 1, with_test ?s)" by simp
  from disabled_stays_disabled [OF t _ _ r] have "burnin_scripts (with_test ?s) ! 0 = ?s" by simp
  then show ?thesis using r by (intro exI [of _ "with_test ?s"]) simp
qed

end
