(* ===== verification/BurninCount.thy ===== *)
theory BurninCount
  imports BurninSpec
begin

text \<open>
  How the main loop counts: which events change the counts of a test, the refinement of the
  specification when every command is started, what a failing \<open>fork\<close> and a missing stream do to
  the counts, what a poll reports, and that a round of the loop always completes.
\<close>

section \<open>Runs without failing forks\<close>

lemma good_steps_inv:
  assumes "good_step\<^sup>*\<^sup>* x y" and "table_inv (snd x)" and "kids_ok (snd x)"
  shows "table_inv (snd y) \<and> kids_ok (snd y)"
  using assms by (induction rule: rtranclp_induct) (use good_step_inv in blast)+

lemma idle_kids_ok:
  assumes "\<forall>s \<in> set (burnin_scripts w). running s \<noteq> 1" and "children (kern w) = []"
    and "length (burnin_scripts w) = MAX_BURNIN_SCRIPTS"
  shows "kids_ok w"
  using assms by (simp add: kids_ok_def)

text \<open>What a step of such a run does to the tests: nothing, or it starts one idle test, or it
  finishes one busy test according to the way its own child ended.\<close>

definition test_of :: "machine \<Rightarrow> nat \<Rightarrow> test_spec" where
  "test_of w i = abs_test (burnin_scripts w ! i)"

definition started :: "machine \<Rightarrow> machine \<Rightarrow> nat \<Rightarrow> bool" where
  "started w w' i \<longleftrightarrow> fst (test_of w i) = Idle \<and> test_of w' i = (Busy, snd (test_of w i)) \<and>
     (\<forall>j < MAX_BURNIN_SCRIPTS. j \<noteq> i \<longrightarrow> test_of w' j = test_of w j)"

definition finished :: "machine \<Rightarrow> machine \<Rightarrow> nat \<Rightarrow> bool" where
  "finished w w' i \<longleftrightarrow> fst (test_of w i) = Busy \<and>
     (\<exists>c. c \<noteq> Alive \<and> (pid (burnin_scripts w ! i), c) \<in> set (children (kern w)) \<and>
        test_of w' i = finish c (test_of w i)) \<and>
     (\<forall>j < MAX_BURNIN_SCRIPTS. j \<noteq> i \<longrightarrow> test_of w' j = test_of w j)"

lemma launch_refines:
  assumes w: "table_inv w" and i: "i < burnin_script_count w" and g: "fork_good e w"
    and l: "launch e i w = Some w'"
  shows "test_of w' = test_of w \<or> started w w' i"
proof -
  have i64: "i < MAX_BURNIN_SCRIPTS" using w i by (simp add: table_inv_def)
  then have len: "i < length (burnin_scripts w)" using table_inv_script [OF w] by simp
  show ?thesis
  proof (cases "running (burnin_scripts w ! i) = 0")
    case True
    obtain lg where "w' = put_script i ((burnin_scripts w ! i)\<lparr>pid := fork_ret e,
        fp_stdout := Some (length (streams (kern w))), running := 1\<rparr>) lg
        ((kern w)\<lparr>children := children (kern w) @ [(fork_ret e, Alive)],
          streams := streams (kern w) @ [\<lparr>content = [], is_open = True\<rparr>]\<rparr>) w"
      using launch_good [OF w i64 g l True] .
    with True len have "started w w' i" by (simp add: started_def test_of_def abs_test_def)
    then show ?thesis ..
  next
    case False
    with launch_busy [OF len False] l show ?thesis by simp
  qed
qed

lemma poll_refines:
  assumes w: "table_inv w" and k: "kids_ok w" and i: "i < burnin_script_count w"
    and p: "poll i w = Some w'"
  shows "(\<forall>j < MAX_BURNIN_SCRIPTS. test_of w' j = test_of w j) \<or> finished w w' i"
proof -
  have i64: "i < MAX_BURNIN_SCRIPTS" using w i by (simp add: table_inv_def)
  show ?thesis
  proof (cases "running (burnin_scripts w ! i) = 1")
    case True
    then obtain c where c: "(pid (burnin_scripts w ! i), c) \<in> set (children (kern w))"
      using k i64 by (auto simp: kids_ok_def)
    note g = poll_good [OF w k i64 True p c]
    have o: "test_of w' j = test_of w j" if "j \<noteq> i" for j
      using g that by (simp add: test_of_def)
    have t: "test_of w' i = finish c (test_of w i)" using g by (simp add: test_of_def)
    show ?thesis
    proof (cases "c = Alive")
      case True
      with t o have "test_of w' j = test_of w j" for j by (cases "j = i") simp_all
      then show ?thesis by blast
    next
      case False
      moreover have "fst (test_of w i) = Busy" using True by (simp add: test_of_def abs_test_def)
      ultimately have "finished w w' i" using t o c unfolding finished_def by blast
      then show ?thesis ..
    qed
  next
    case False
    with poll_idle [OF w i64 False p] show ?thesis by simp
  qed
qed

section \<open>Properties\<close>

text \<open>C3: Simulation. In a run in which every \<open>fork\<close> succeeds, each step either leaves all tests
  as they are, or starts one idle test, or finishes one busy test: its pass count goes up by one
  for the exit status 0 or 255, its fail count for any other status, and it is turned off by the
  status 255 or a signal. The status is the one of the test's own child.\<close>

theorem burnin_refines:
  assumes "table_inv w0" and "kids_ok w0" and "good_step\<^sup>*\<^sup>* (Launching 0, w0) (c, w)"
    and "good_step (c, w) (c', w')"
  shows "(\<forall>j < MAX_BURNIN_SCRIPTS. test_of w' j = test_of w j) \<or>
    (\<exists>i. c = Launching i \<and> started w w' i) \<or> (\<exists>i. c = Polling i \<and> finished w w' i)"
proof -
  have w: "table_inv w" and k: "kids_ok w" using good_steps_inv [OF assms(3)] assms(1,2) by simp_all
  from assms(4) show ?thesis
  proof cases
    case (launch i e)
    then show ?thesis using launch_refines [OF w] by metis
  next
    case (poll i)
    then show ?thesis using poll_refines [OF w k] by metis
  qed (simp_all add: test_of_def)
qed

lemma one_test_inv: "table_inv one_test"
  by (rule find_burnin_tests_inv [OF one_test_found]) (simp_all add: sample_machine_def)

lemma one_test_kids: "kids_ok one_test"
proof (rule idle_kids_ok)
  show "\<forall>s \<in> set (burnin_scripts one_test). running s \<noteq> 1"
  proof
    fix s assume "s \<in> set (burnin_scripts one_test)"
    then have "s \<in> insert (new_script ''ecc'' no_script) (set no_scripts)"
      using set_update_subset_insert by (fastforce simp: one_test_def)
    then show "running s \<noteq> 1" by (auto simp: no_scripts_def no_script_def new_script_def)
  qed
  show "children (kern one_test) = []" by (simp add: one_test_def sample_machine_def)
  show "length (burnin_scripts one_test) = MAX_BURNIN_SCRIPTS"
    by (simp add: one_test_def no_scripts_def)
qed

lemma one_test_good: "fork_good (sample_fork 7) one_test"
  by (simp add: fork_good_def sample_fork_def one_test_def sample_machine_def)

text \<open>The test of \<open>one_test\<close> once it has been started as process 7.\<close>

definition one_busy :: "child \<Rightarrow> machine" where
  "one_busy c = one_test\<lparr>burnin_scripts := (burnin_scripts one_test)[0 :=
       (burnin_scripts one_test ! 0)\<lparr>pid := 7, fp_stdout := Some 0, running := 1\<rparr>],
     kern := \<lparr>children = [(7, c)], streams = [\<lparr>content = [], is_open = True\<rparr>]\<rparr>\<rparr>"

lemma one_test_sel:
  "running (burnin_scripts one_test ! 0) = 0" "0 < length (burnin_scripts one_test)"
  "burnin_script_count one_test = 1" "test_of one_test 0 = (Idle, 0, 0)"
  "kern one_test = \<lparr>children = [], streams = []\<rparr>"
  by (simp_all add: one_test_def no_scripts_def MAX_BURNIN_SCRIPTS_def new_script_def test_of_def
      abs_test_def sample_machine_def)

lemma one_busy_sel:
  "burnin_scripts (one_busy c) ! 0 = (burnin_scripts one_test ! 0)\<lparr>pid := 7, fp_stdout := Some 0, running := 1\<rparr>"
  "burnin_script_count (one_busy c) = 1" "test_of (one_busy c) 0 = (Busy, 0, 0)"
  "kern (one_busy c) = \<lparr>children = [(7, c)], streams = [\<lparr>content = [], is_open = True\<rparr>]\<rparr>"
  using one_test_sel by (simp_all add: one_busy_def test_of_def abs_test_def)

lemma one_launch: "launch (sample_fork 7) 0 one_test = Some (one_busy Alive)"
  using one_test_sel rd_nat [of 0 "burnin_scripts one_test"]
  by (simp add: launch_def fork_cmd_def sample_fork_def one_busy_def)

lemma one_start: "good_step (Launching 0, one_test) (Launching (0 + 1), one_busy Alive)"
  using good_step.launch [OF _ one_test_good one_launch] one_test_sel(3) by simp

lemma one_ends: "good_step\<^sup>*\<^sup>* (Launching 0, one_test) (Polling 0, one_busy c)"
proof -
  have "good_step (Launching 1, one_busy Alive) (Polling 0, one_busy Alive)"
    by (rule good_step.launched) (simp add: one_busy_sel)
  moreover have "good_step (Polling 0, one_busy Alive) (Polling 0, one_busy c)"
    using good_step.ends [of 7 "one_busy Alive" "Polling 0" c] by (simp add: one_busy_def)
  ultimately show ?thesis using one_start
    by (metis One_nat_def add_0 r_into_rtranclp rtranclp.rtrancl_into_rtrancl)
qed

theorem burnin_refines_witness: "started one_test (one_busy Alive) 0"
proof -
  have "test_of (one_busy Alive) 0 \<noteq> test_of one_test 0" by (simp add: one_busy_sel one_test_sel)
  moreover have "0 < MAX_BURNIN_SCRIPTS" by (simp add: MAX_BURNIN_SCRIPTS_def)
  ultimately show ?thesis
    using burnin_refines [OF one_test_inv one_test_kids rtranclp.rtrancl_refl one_start] by auto
qed

text \<open>C4: Every finished run is counted: in such a run, the poll of a busy test whose child has
  ended, with no blank line in its output, makes exactly the step of the specification.\<close>

theorem poll_counts_ended:
  assumes "table_inv w0" and "kids_ok w0" and "good_step\<^sup>*\<^sup>* (Launching 0, w0) (Polling i, w)"
    and "i < burnin_script_count w" and "running (burnin_scripts w ! i) = 1"
    and "(pid (burnin_scripts w ! i), c) \<in> set (children (kern w))"
    and "\<forall>l \<in> set (pending w i). \<not> blank_line l"
  shows "\<exists>w'. poll i w = Some w' \<and> test_of w' i = finish c (test_of w i)"
proof -
  have w: "table_inv w" and k: "kids_ok w" using good_steps_inv [OF assms(3)] assms(1,2) by simp_all
  have i: "i < MAX_BURNIN_SCRIPTS" using w assms(4) by (simp add: table_inv_def)
  have "poll i w \<noteq> None" using poll_None [OF w i] assms(7) by blast
  then obtain w' where "poll i w = Some w'" by blast
  with poll_good [OF w k i assms(5) this assms(6)] show ?thesis by (simp add: test_of_def)
qed

theorem poll_counts_ended_witness:
  "\<exists>w'. poll 0 (one_busy (Exited 1)) = Some w' \<and> test_of w' 0 = (Idle, 0, 1)"
  using poll_counts_ended [OF one_test_inv one_test_kids one_ends [of "Exited 1"], of "Exited 1"]
  by (simp add: one_busy_sel pending_def)

text \<open>What may happen to the counts of the test \<open>i\<close> when its entry \<open>s\<close> becomes \<open>s'\<close>: nothing, or, in its
  own poll, one count goes up for the reason given.\<close>

definition counted :: "machine \<Rightarrow> pc \<Rightarrow> nat \<Rightarrow> burnin_scripts_t \<Rightarrow> burnin_scripts_t \<Rightarrow> bool" where
  "counted w c i s s' \<longleftrightarrow> pass_count s' = pass_count s \<and> fail_count s' = fail_count s \<or>
    c = Polling i \<and> running s = 1 \<and>
      ((\<exists>q st. (q, Exited st) \<in> set (children (kern w)) \<and> st \<noteq> 0 \<and> st \<noteq> 255 \<and>
          pass_count s' = pass_count s \<and> fail_count s' = fail_count s + 1) \<or>
       ((\<exists>q st. (q, Exited st) \<in> set (children (kern w)) \<and> (st = 0 \<or> st = 255)) \<or>
          filter (asked (pid s)) (children (kern w)) = []) \<and>
        pass_count s' = pass_count s + 1 \<and> fail_count s' = fail_count s)"

lemma counted_same: "counted w c i s s"
  by (simp add: counted_def)

lemma counted_launch:
  assumes "table_inv w" and "j < MAX_BURNIN_SCRIPTS" and "launch e j w = Some w'"
  shows "counted w c i (burnin_scripts w ! i) (burnin_scripts w' ! i)"
proof -
  have len: "j < length (burnin_scripts w)" using table_inv_script [OF assms(1,2)] by simp
  show ?thesis
  proof (cases "running (burnin_scripts w ! j) = 0")
    case True
    obtain rp fp l k where "w' = put_script j ((burnin_scripts w ! j)\<lparr>pid := (case rp of
        None \<Rightarrow> pid (burnin_scripts w ! j) | Some p \<Rightarrow> p), fp_stdout := fp, running := 1\<rparr>) l k w"
      using launch_idle [OF len True assms(3)] .
    then show ?thesis using len by (simp add: counted_def nth_list_update)
  next
    case False
    with launch_busy [OF len False] assms(3) show ?thesis by (simp add: counted_same)
  qed
qed

lemma counted_poll:
  assumes "table_inv w" and "j < MAX_BURNIN_SCRIPTS" and "poll j w = Some w'"
  shows "counted w (Polling j) i (burnin_scripts w ! i) (burnin_scripts w' ! i)"
proof -
  have len: "j < length (burnin_scripts w)" using table_inv_script [OF assms(1,2)] by simp
  show ?thesis
  proof (cases "j = i")
    case False
    with assms have "burnin_scripts w' ! i = burnin_scripts w ! i" by (cases rule: poll_cases) simp_all
    then show ?thesis by (simp add: counted_same)
  next
    case j: True
    from assms show ?thesis
    proof (cases rule: poll_cases)
      case (waiting f x l k)
      then show ?thesis using output_lines_keep [OF waiting(3)] len j by (simp add: counted_def)
    next
      case (unknown f x l k)
      note e = output_lines_keep [OF unknown(3)] and d = drain_kern [OF unknown(4)]
      have "filter (asked (pid x)) (children k) = []"
        using unknown(5) by (auto simp: waitpid_def Let_def split: if_splits option.splits)
      then show ?thesis using unknown(1,6) e d len j by (simp add: counted_def)
    next
      case (reaped f x l l2 k k2 k3 q ch)
      note e = output_lines_keep [OF reaped(3)] and d = drain_kern [OF reaped(4)]
      have m: "(q, ch) \<in> set (children (kern w))" "ch \<noteq> Alive" using waitpid_pid [OF reaped(5)] d by auto
      have s': "burnin_scripts w' ! i = outcome ch x" using reaped(7) len j by simp
      show ?thesis using m reaped(1) e j unfolding s'
        by (cases ch) (auto simp: counted_def outcome_def)
    qed (simp_all add: counted_same)
  qed
qed

text \<open>C5: In every run, the counts of a test change only when it is polled while it runs. The fail
  count goes up by one when an ended child with a status other than 0 and 255 is reported; the
  pass count goes up by one when a child with the status 0 or 255 is, or when the test has no
  child to wait for.\<close>

theorem count_sound:
  assumes "table_inv w" and "step (c, w) (c', w')" and "i < MAX_BURNIN_SCRIPTS"
  defines "s \<equiv> burnin_scripts w ! i" and "s' \<equiv> burnin_scripts w' ! i"
  shows "pass_count s' = pass_count s \<and> fail_count s' = fail_count s \<or>
    c = Polling i \<and> running s = 1 \<and>
      ((\<exists>q st. (q, Exited st) \<in> set (children (kern w)) \<and> st \<noteq> 0 \<and> st \<noteq> 255 \<and>
          pass_count s' = pass_count s \<and> fail_count s' = fail_count s + 1) \<or>
       ((\<exists>q st. (q, Exited st) \<in> set (children (kern w)) \<and> (st = 0 \<or> st = 255)) \<or>
          filter (asked (pid s)) (children (kern w)) = []) \<and>
        pass_count s' = pass_count s + 1 \<and> fail_count s' = fail_count s)"
  unfolding counted_def [symmetric] s_def s'_def using assms(2)
proof cases
  case (launch j e)
  then have "j < MAX_BURNIN_SCRIPTS" using assms(1) by (simp add: table_inv_def)
  then show "counted w c i (burnin_scripts w ! i) (burnin_scripts w' ! i)" by (rule counted_launch [OF assms(1) _ launch(4)])
next
  case (poll j)
  then have "j < MAX_BURNIN_SCRIPTS" using assms(1) by (simp add: table_inv_def)
  then show "counted w c i (burnin_scripts w ! i) (burnin_scripts w' ! i)"
    unfolding poll(1) by (rule counted_poll [OF assms(1) _ poll(4)])
qed (simp_all add: counted_same)

text \<open>The poll of a test whose child has ended with status 1: the fail count goes up, and so such a child
  must have been there.\<close>

theorem count_sound_witness:
  "\<exists>w'. step (Polling 0, one_busy (Exited 1)) (Polling 1, w') \<and> fail_count (burnin_scripts w' ! 0) = 1 \<and>
    (\<exists>q st. (q, Exited st) \<in> set (children (kern (one_busy (Exited 1)))) \<and> st \<noteq> 0 \<and> st \<noteq> 255)"
proof -
  let ?w = "one_busy (Exited 1)"
  have w: "table_inv ?w" "kids_ok ?w" using good_steps_inv [OF one_ends] one_test_inv one_test_kids by simp_all
  have z: "0 < MAX_BURNIN_SCRIPTS" by (simp add: MAX_BURNIN_SCRIPTS_def)
  have r: "running (burnin_scripts ?w ! 0) = 1" "(pid (burnin_scripts ?w ! 0), Exited 1) \<in> set (children (kern ?w))"
    "test_of ?w 0 = (Busy, 0, 0)" "0 < burnin_script_count ?w"
    by (simp_all add: one_busy_sel)
  have "poll 0 ?w \<noteq> None" using poll_None [OF w(1) z] by (simp add: one_busy_sel pending_def)
  then obtain w' where p: "poll 0 ?w = Some w'" by blast
  have t: "test_of w' 0 = (Idle, 0, 1)" using poll_good [OF w z r(1) p r(2)] r(3) by (simp add: test_of_def)
  have st: "step (Polling 0, ?w) (Polling 1, w')" using step.poll [OF r(4) p] by simp
  have f: "fail_count (burnin_scripts w' ! 0) = 1" "fail_count (burnin_scripts ?w ! 0) = 0"
    using t r(3) by (simp_all add: test_of_def abs_test_def)
  then show ?thesis using count_sound [OF w(1) st z] st by auto
qed

text \<open>The two polls that the failures of \<open>fork\<close> lead to: of a running test that no child answers for, and
  of one whose \<open>waitpid\<close> finds the only child, which has ended.\<close>

lemma poll_no_child:
  assumes "table_inv w" and "i < MAX_BURNIN_SCRIPTS" and "running (burnin_scripts w ! i) = 1"
    and "fp_stdout (burnin_scripts w ! i) = Some f" and "filter (asked (pid (burnin_scripts w ! i))) (children (kern w)) = []"
    and "poll i w = Some w'"
  obtains s l k where "w' = put_script i (s\<lparr>running := 0, last_result := 0, pass_count := pass_count s + 1\<rparr>) l k w"
    "pass_count s = pass_count (burnin_scripts w ! i)" "fail_count s = fail_count (burnin_scripts w ! i)"
    "streams k = (streams (kern w))[f := (streams (kern w) ! f)\<lparr>content := []\<rparr>]"
  using assms(1,2,6)
proof (cases rule: poll_cases)
  case (waiting g s l k)
  then show ?thesis using output_lines_keep(4) [OF waiting(3)] drain_kern [OF waiting(4)] assms(5)
    by (simp add: waitpid_def)
next
  case (unknown g s l k)
  then show ?thesis using output_lines_keep [OF unknown(3)] drain_kern [OF unknown(4)] assms(4)
    by (intro that [of s l k]) simp_all
next
  case (reaped g s l l2 k k2 k3 q c)
  then show ?thesis using output_lines_keep(4) [OF reaped(3)] drain_kern [OF reaped(4)] assms(5)
    by (simp add: waitpid_def)
qed (use assms in simp_all)

lemma poll_only_child:
  assumes "table_inv w" and "i < MAX_BURNIN_SCRIPTS" and "running (burnin_scripts w ! i) = 1"
    and "fp_stdout (burnin_scripts w ! i) = Some f" and "children (kern w) = [(q, Exited st)]"
    and "asked (pid (burnin_scripts w ! i)) (q, Exited st)" and "poll i w = Some w'"
  obtains s l k where "w' = put_script i (outcome (Exited st) s) l k w" "children k = []"
    "pass_count s = pass_count (burnin_scripts w ! i)" "fail_count s = fail_count (burnin_scripts w ! i)"
  using assms(1,2,7)
proof (cases rule: poll_cases)
  case (waiting g s l k)
  then show ?thesis using output_lines_keep(4) [OF waiting(3)] drain_kern [OF waiting(4)] assms(5,6)
    by (simp add: waitpid_def ended_def)
next
  case (unknown g s l k)
  then show ?thesis using output_lines_keep(4) [OF unknown(3)] drain_kern [OF unknown(4)] assms(5,6)
    by (simp add: waitpid_def ended_def)
next
  case (reaped g s l l2 k k2 k3 q' c)
  note e = output_lines_keep [OF reaped(3)] and d = drain_kern [OF reaped(4)]
  have "c = Exited st \<and> children k2 = []" using reaped(5) e(4) d assms(5,6) by (auto simp: waitpid_def ended_def)
  then show ?thesis using reaped(7) fclose_kern [OF reaped(6)] e by (intro that [of s l2 k3]) simp_all
qed (use assms in simp_all)

text \<open>C26: A test whose command could not be started because \<open>fork\<close> failed is counted as passed,
  when no other child is there, and its stream is never closed.\<close>

theorem fork_failure_counts_pass:
  assumes "table_inv w" and "i < burnin_script_count w" and "running (burnin_scripts w ! i) = 0"
    and "children (kern w) = []" and "pipe_ok e" and "setfl_ok e" and "fdopen_ok e" and "fork_ret e = - 1"
  shows "\<exists>w1 w2. launch e i w = Some w1 \<and> poll i w1 = Some w2 \<and> running (burnin_scripts w2 ! i) = 0 \<and>
    last_result (burnin_scripts w2 ! i) = 0 \<and>
    pass_count (burnin_scripts w2 ! i) = pass_count (burnin_scripts w ! i) + 1 \<and>
    length (streams (kern w2)) = length (streams (kern w)) + 1 \<and> is_open (last (streams (kern w2)))"
proof -
  let ?s = "burnin_scripts w ! i" and ?n = "length (streams (kern w))"
  have i64: "i < MAX_BURNIN_SCRIPTS" using assms(1,2) by (simp add: table_inv_def)
  then have len: "i < length (burnin_scripts w)" using table_inv_script [OF assms(1)] by simp
  obtain w1 where l: "launch e i w = Some w1" using launch_None [OF len, of e] assms(5) by blast
  obtain rp fp lg k where f: "fork_cmd e None (path ?s) (logs w, kern w) = Some (rp, fp, lg, k)"
    "w1 = put_script i (?s\<lparr>pid := (case rp of None \<Rightarrow> pid ?s | Some p \<Rightarrow> p), fp_stdout := fp, running := 1\<rparr>) lg k w"
    using launch_idle [OF len assms(3) l] .
  have k: "rp = Some (- 1)" "fp = Some ?n" "children k = []" "streams k = streams (kern w) @ [\<lparr>content = [], is_open = True\<rparr>]"
    using f(1) assms(4-8) by (auto simp: fork_cmd_def Let_def split: if_splits)
  have w1: "table_inv w1" using launch_inv [OF assms(1,2) l] .
  have s1: "burnin_scripts w1 ! i = ?s\<lparr>pid := - 1, fp_stdout := Some ?n, running := 1\<rparr>" "kern w1 = k"
    using f(2) k len by simp_all
  have "pending w1 i = []" using s1 k by (simp add: pending_def)
  then obtain w2 where p: "poll i w1 = Some w2" using poll_None [OF w1 i64] by fastforce
  have len1: "i < length (burnin_scripts w1)" using table_inv_script [OF w1 i64] by simp
  obtain s l' k' where u: "w2 = put_script i (s\<lparr>running := 0, last_result := 0, pass_count := pass_count s + 1\<rparr>) l' k' w1"
    "pass_count s = pass_count (burnin_scripts w1 ! i)" "fail_count s = fail_count (burnin_scripts w1 ! i)"
    "streams k' = (streams (kern w1))[?n := (streams (kern w1) ! ?n)\<lparr>content := []\<rparr>]"
    by (rule poll_no_child [OF w1 i64 _ _ _ p, of ?n]) (use s1 k in simp_all)
  show ?thesis using l p u len1 s1 k(4)
    by (intro exI [of _ w1] exI [of _ w2]) (simp add: nth_append)
qed

theorem fork_failure_counts_pass_witness:
  "\<exists>w1 w2. launch (sample_fork (- 1)) 0 one_test = Some w1 \<and> poll 0 w1 = Some w2 \<and>
    pass_count (burnin_scripts w2 ! 0) = 1"
proof -
  have "pass_count (burnin_scripts one_test ! 0) = 0" using one_test_sel(4) by (simp add: test_of_def abs_test_def)
  then show ?thesis
    using fork_failure_counts_pass [OF one_test_inv, of 0 "sample_fork (- 1)"] one_test_sel
    by (auto simp: sample_fork_def)
qed

text \<open>C27: A test that was started without a stream (\<open>fcntl\<close> or \<open>fdopen\<close> failed) hangs: no later
  step ever waits for it, counts it or starts it again.\<close>

theorem no_stream_hangs:
  assumes "table_inv w" and "i < burnin_script_count w" and "running (burnin_scripts w ! i) = 1"
    and "fp_stdout (burnin_scripts w ! i) = None" and "step\<^sup>*\<^sup>* (c, w) (c', w')"
  shows "burnin_scripts w' ! i = burnin_scripts w ! i"
proof -
  have "i < MAX_BURNIN_SCRIPTS" using assms(1,2) by (simp add: table_inv_def)
  then show ?thesis using fixed_steps [OF assms(5)] assms(1,3,4) by simp
qed

theorem no_stream_hangs_witness:
  "\<exists>w'. poll 0 (with_test (no_script\<lparr>running := 1\<rparr>)) = Some w' \<and> running (burnin_scripts w' ! 0) = 1"
proof -
  let ?w = "with_test (no_script\<lparr>running := 1\<rparr>)"
  have t: "table_inv ?w" by (rule with_test_inv) (simp add: script_ok_def no_script_def)
  have "poll 0 ?w \<noteq> None"
    using poll_None [OF t, of 0] by (simp add: pending_def no_script_def MAX_BURNIN_SCRIPTS_def)
  then obtain w' where p: "poll 0 ?w = Some w'" by blast
  have "step (Polling 0, ?w) (Polling (0 + 1), w')" by (rule step.poll [OF _ p]) simp
  then have "step\<^sup>*\<^sup>* (Polling 0, ?w) (Polling (0 + 1), w')" by simp
  from no_stream_hangs [OF t _ _ _ this, of 0] p show ?thesis by (simp add: no_script_def)
qed

section \<open>Rounds of the main loop\<close>

text \<open>No running test has written a blank line.\<close>

definition clean :: "machine \<Rightarrow> bool" where
  "clean w \<longleftrightarrow> (\<forall>i < MAX_BURNIN_SCRIPTS. running (burnin_scripts w ! i) = 1 \<longrightarrow>
     (\<forall>l \<in> set (pending w i). \<not> blank_line l))"

lemma launch_clean:
  assumes w: "table_inv w" and c: "clean w" and i: "i < burnin_script_count w" and l: "launch e i w = Some w'"
  shows "clean w'"
proof -
  have i64: "i < MAX_BURNIN_SCRIPTS" using w i by (simp add: table_inv_def)
  then have len: "i < length (burnin_scripts w)" using table_inv_script [OF w] by simp
  show ?thesis
  proof (cases "running (burnin_scripts w ! i) = 0")
    case False
    with l launch_busy [OF len] c show ?thesis by simp
  next
    case True
    let ?s = "burnin_scripts w ! i"
    obtain rp fp lg k where f: "fork_cmd e None (path ?s) (logs w, kern w) = Some (rp, fp, lg, k)"
      "w' = put_script i (?s\<lparr>pid := (case rp of None \<Rightarrow> pid ?s | Some p \<Rightarrow> p), fp_stdout := fp, running := 1\<rparr>) lg k w"
      using launch_idle [OF len True l] .
    have st: "fp = Some (length (streams (kern w))) \<and> streams k = streams (kern w) @ [\<lparr>content = [], is_open = True\<rparr>] \<or>
      fp = None \<and> streams k = streams (kern w)"
      using f(1) by (auto simp: fork_cmd_def Let_def split: if_splits)
    have "\<forall>l \<in> set (pending w' j). \<not> blank_line l"
      if j: "j < MAX_BURNIN_SCRIPTS" "running (burnin_scripts w' ! j) = 1" for j
    proof (cases "j = i")
      case True
      then have "pending w' j = []" using st len f(2) by (auto simp: pending_def)
      then show ?thesis by simp
    next
      case False
      then have r: "running (burnin_scripts w ! j) = 1" using j(2) f(2) by simp
      then have "g < length (streams (kern w))" if "fp_stdout (burnin_scripts w ! j) = Some g" for g
        using table_inv_script [OF w j(1)] that by (simp add: script_ok_def)
      then have "pending w' j = pending w j"
        using False f(2) st by (auto simp: pending_def nth_append split: option.splits)
      with c j(1) r show ?thesis by (simp add: clean_def)
    qed
    then show ?thesis by (simp add: clean_def)
  qed
qed

lemma poll_clean:
  assumes w: "table_inv w" and c: "clean w" and i: "i < MAX_BURNIN_SCRIPTS" and p: "poll i w = Some w'"
  shows "clean w'"
proof -
  have len: "i < length (burnin_scripts w)" using table_inv_script [OF w i] by simp
  have main: "clean w'" if r: "running (burnin_scripts w ! i) = 1" "fp_stdout (burnin_scripts w ! i) = Some f"
    and w': "w' = put_script i s l k w" and s: "fp_stdout s = Some f"
    and k: "\<And>g. content (streams k ! g) = (if g = f then [] else content (streams (kern w) ! g))" for f s l k
    unfolding clean_def
  proof (intro allI impI)
    fix j assume j: "j < MAX_BURNIN_SCRIPTS" "running (burnin_scripts w' ! j) = 1"
    show "\<forall>l \<in> set (pending w' j). \<not> blank_line l"
    proof (cases "j = i")
      case True
      then have "pending w' j = []" using w' s k len by (simp add: pending_def)
      then show ?thesis by simp
    next
      case False
      then have r': "running (burnin_scripts w ! j) = 1" using j(2) w' by simp
      have "fp_stdout (burnin_scripts w ! j) \<noteq> Some f"
        using w r i j(1) False r' by (auto simp: table_inv_def)
      then have "pending w' j = pending w j"
        using False w' k by (auto simp: pending_def split: option.splits)
      with c j(1) r' show ?thesis by (simp add: clean_def)
    qed
  qed
  from w i p show ?thesis
  proof (cases rule: poll_cases)
    case idle
    with c show ?thesis by simp
  next
    case stuck
    with c show ?thesis by (simp add: clean_def pending_def)
  next
    case (waiting f s l k)
    note d = drain_kern [OF waiting(4)]
    have "content (streams k ! g) = (if g = f then [] else content (streams (kern w) ! g))" for g
      using d by (cases "g = f") auto
    then show ?thesis using main [OF waiting(1,2,6)] output_lines_keep(5) [OF waiting(3)] waiting(2) by simp
  next
    case (unknown f s l k)
    note d = drain_kern [OF unknown(4)]
    have "content (streams k ! g) = (if g = f then [] else content (streams (kern w) ! g))" for g
      using d by (cases "g = f") auto
    then show ?thesis using main [OF unknown(1,2,6)] output_lines_keep(5) [OF unknown(3)] unknown(2) by simp
  next
    case (reaped f s l l2 k k2 k3 q ch)
    note d = drain_kern [OF reaped(4)] and fc = fclose_kern [OF reaped(6)]
    have st: "streams k2 = streams k" using waitpid_streams [of "pid s" k] reaped(5) by simp
    have "content (streams k3 ! g) = (if g = f then [] else content (streams (kern w) ! g))" for g
      using d fc st by (cases "g = f") auto
    moreover have "fp_stdout (outcome ch s) = fp_stdout s" by (auto simp: outcome_def split: child.splits)
    ultimately show ?thesis using main [OF reaped(1,2,7)] output_lines_keep(5) [OF reaped(3)] reaped(2) by simp
  qed
qed

lemma run_from_total:
  assumes "\<forall>j. pipe_ok (es j)"
  shows "table_inv w \<Longrightarrow> clean w \<Longrightarrow>
    \<exists>w' j. run_from es i w = Some w' \<and> table_inv w' \<and> clean w' \<and>
      step\<^sup>*\<^sup>* (Launching i, w) (Launching j, w') \<and> burnin_script_count w' \<le> j \<and>
      burnin_script_count w' = burnin_script_count w"
proof (induction "burnin_script_count w - i" arbitrary: i w)
  case 0
  then show ?case by (subst run_from.simps) auto
next
  case (Suc n)
  then have i: "i < burnin_script_count w" by simp
  then have "i < length (burnin_scripts w)" using Suc.prems by (simp add: table_inv_def)
  then have "launch (es i) i w \<noteq> None" using launch_None assms by blast
  then obtain w1 where l: "launch (es i) i w = Some w1" by blast
  have c1: "burnin_script_count w1 = burnin_script_count w"
    using l by (auto simp: launch_def Let_def split: bind_splits if_splits)
  have inv1: "table_inv w1" "clean w1"
    using launch_inv [OF Suc.prems(1) i l] launch_clean [OF Suc.prems i l] by simp_all
  have m: "n = burnin_script_count w1 - (i + 1)" using Suc.hyps(2) c1 by simp
  obtain w' j where w': "run_from es (i + 1) w1 = Some w'" "table_inv w'" "clean w'"
    "step\<^sup>*\<^sup>* (Launching (i + 1), w1) (Launching j, w')" "burnin_script_count w' \<le> j"
    "burnin_script_count w' = burnin_script_count w1"
    using Suc.hyps(1) [OF m inv1] by blast
  have "run_from es i w = Some w'" using i l w'(1) by (subst run_from.simps) simp
  moreover have "step\<^sup>*\<^sup>* (Launching i, w) (Launching j, w')"
    using step.launch [OF i l] w'(4) by (rule converse_rtranclp_into_rtranclp)
  ultimately show ?case using w' c1 by metis
qed

lemma poll_from_total:
  "table_inv w \<Longrightarrow> clean w \<Longrightarrow>
    \<exists>w' j. poll_from i w = Some w' \<and> table_inv w' \<and> clean w' \<and>
      step\<^sup>*\<^sup>* (Polling i, w) (Polling j, w') \<and> burnin_script_count w' \<le> j"
proof (induction "burnin_script_count w - i" arbitrary: i w)
  case 0
  then show ?case by (subst poll_from.simps) auto
next
  case (Suc n)
  then have i: "i < burnin_script_count w" by simp
  then have i64: "i < MAX_BURNIN_SCRIPTS" using Suc.prems by (simp add: table_inv_def)
  have "poll i w \<noteq> None" using poll_None [OF Suc.prems(1) i64] Suc.prems(2) i64 by (auto simp: clean_def)
  then obtain w1 where p: "poll i w = Some w1" by blast
  have inv1: "table_inv w1" "clean w1"
    using poll_inv [OF Suc.prems(1) i64 p] poll_clean [OF Suc.prems i64 p] by simp_all
  have m: "n = burnin_script_count w1 - (i + 1)" using Suc.hyps(2) poll_count [OF p] by simp
  obtain w' j where w': "poll_from (i + 1) w1 = Some w'" "table_inv w'" "clean w'"
    "step\<^sup>*\<^sup>* (Polling (i + 1), w1) (Polling j, w')" "burnin_script_count w' \<le> j"
    using Suc.hyps(1) [OF m inv1] by blast
  have "poll_from i w = Some w'" using i p w'(1) by (subst poll_from.simps) simp
  moreover have "step\<^sup>*\<^sup>* (Polling i, w) (Polling j, w')"
    using step.poll [OF i p] w'(4) by (rule converse_rtranclp_into_rtranclp)
  ultimately show ?case using w' by metis
qed

text \<open>C7: As long as \<open>pipe\<close> succeeds and no test writes a blank line, a round of the main loop
  completes, as a run of its steps back to the start of the loop, and leaves a table from which
  the next round can run.\<close>

theorem main_round_total:
  assumes "table_inv w" and "clean w" and "\<forall>j. pipe_ok (es j)"
  shows "\<exists>w'. main_round es w = Some w' \<and> step\<^sup>*\<^sup>* (Launching 0, w) (Launching 0, w') \<and>
    table_inv w' \<and> clean w'"
proof -
  obtain w1 j where l: "run_from es 0 w = Some w1" "table_inv w1" "clean w1"
    "step\<^sup>*\<^sup>* (Launching 0, w) (Launching j, w1)" "burnin_script_count w1 \<le> j"
    using run_from_total [OF assms(3,1,2)] by blast
  obtain w2 k where p: "poll_from 0 w1 = Some w2" "table_inv w2" "clean w2"
    "step\<^sup>*\<^sup>* (Polling 0, w1) (Polling k, w2)" "burnin_script_count w2 \<le> k"
    using poll_from_total [OF l(2,3)] by blast
  have "step\<^sup>*\<^sup>* (Launching 0, w) (Polling 0, w1)"
    using l(4) step.launched [OF l(5)] by (rule rtranclp.rtrancl_into_rtrancl)
  then have "step\<^sup>*\<^sup>* (Launching 0, w) (Polling k, w2)" using p(4) by (rule rtranclp_trans)
  then have "step\<^sup>*\<^sup>* (Launching 0, w) (Launching 0, w2)"
    using step.polled [OF p(5)] by (rule rtranclp.rtrancl_into_rtrancl)
  then show ?thesis using l(1) p(1-3) by (simp add: main_round_def run_burnin_tests_def)
qed

theorem main_round_total_witness: "\<exists>w'. main_round (\<lambda>_. sample_fork 7) one_test = Some w' \<and> clean w'"
proof -
  have "running s \<noteq> 1" if "s \<in> set (burnin_scripts one_test)" for s
  proof -
    have "s \<in> insert (new_script ''ecc'' no_script) (set no_scripts)"
      using that set_update_subset_insert by (fastforce simp: one_test_def)
    then show ?thesis by (auto simp: no_scripts_def no_script_def new_script_def)
  qed
  then have "clean one_test" using one_test_inv by (simp add: clean_def table_inv_def)
  then show ?thesis
    using main_round_total [OF one_test_inv, of "\<lambda>_. sample_fork 7"] by (auto simp: sample_fork_def)
qed

section \<open>What a poll reports\<close>

definition msg_line :: "string \<Rightarrow> bool" where
  "msg_line s \<longleftrightarrow> starts ''MSG: '' s \<and> 5 < length s"

definition shown :: "string \<Rightarrow> string" where
  "shown s = (if msg_line s then drop 5 s else s)"

lemma trimmed_length: "length (trimmed l) \<le> length l"
  unfolding trimmed_def by (metis length_takeWhile_le le_trans strip_length)

lemma output_fold:
  "\<forall>b \<in> set bs. length b \<le> BUFSIZ \<Longrightarrow>
   fold output_line bs (s, l) = (s', l') \<Longrightarrow>
   last_msg s' = (if bs = [] then last_msg s else shown (last bs)) \<and> name s' = name s \<and>
   errors_shown l' = errors_shown l @
     map (\<lambda>b. snprintf_s BUFSIZ (name s @ '' - '' @ b)) (filter (\<lambda>b. \<not> msg_line b) bs)"
proof (induction bs arbitrary: s l)
  case Nil
  then show ?case by simp
next
  case (Cons b bs)
  obtain s1 l1 where o: "output_line b (s, l) = (s1, l1)" by fastforce
  have s1: "last_msg s1 = shown b \<and> name s1 = name s \<and> errors_shown l1 = errors_shown l @
      (if msg_line b then [] else [snprintf_s BUFSIZ (name s @ '' - '' @ b)])"
    using o Cons.prems(1) by (auto simp: output_line_def shown_def msg_line_def errors_log_error)
  have "fold output_line bs (s1, l1) = (s', l')" using Cons.prems(2) o by simp
  from Cons.IH [OF _ this] Cons.prems(1) s1 show ?case by auto
qed

text \<open>C6: When a poll has read the output of a test, the last message is the last line, without its
  \<open>MSG: \<close> mark; and every line without the mark, and no other, has been reported as an error
  under the name of the test, in order.\<close>

theorem poll_reports:
  assumes "table_inv w" and "i < burnin_script_count w" and "poll i w = Some w'"
    and "running (burnin_scripts w ! i) = 1" and "fp_stdout (burnin_scripts w ! i) = Some f"
  defines "ls \<equiv> map trimmed (pending w i)"
  shows "last_msg (burnin_scripts w' ! i) =
      (if ls = [] then last_msg (burnin_scripts w ! i) else shown (last ls)) \<and>
    errors_shown (logs w') = errors_shown (logs w) @
      map (\<lambda>b. snprintf_s BUFSIZ (name (burnin_scripts w ! i) @ '' - '' @ b))
        (filter (\<lambda>b. \<not> msg_line b) ls)"
proof -
  let ?s = "burnin_scripts w ! i"
  have i64: "i < MAX_BURNIN_SCRIPTS" using assms(1,2) by (simp add: table_inv_def)
  then have len: "i < length (burnin_scripts w)" using table_inv_script [OF assms(1)] by simp
  have nb: "\<forall>l \<in> set (pending w i). \<not> blank_line l"
    using poll_None [OF assms(1) i64] assms(3,4) by auto
  have short: "\<forall>b \<in> set ls. length b \<le> BUFSIZ"
  proof
    fix b assume "b \<in> set ls"
    then obtain x where x: "x \<in> set (pending w i)" "b = trimmed x" by (auto simp: ls_def)
    have "length x < BUFSIZ" using x(1) assms(5) fgets_all_length [OF BUFSIZ_gt] by (auto simp: pending_def)
    then show "length b \<le> BUFSIZ" using trimmed_length [of x] x(2) by simp
  qed
  have key: "last_msg s = (if ls = [] then last_msg ?s else shown (last ls)) \<and>
      errors_shown l = errors_shown (logs w) @
        map (\<lambda>b. snprintf_s BUFSIZ (name ?s @ '' - '' @ b)) (filter (\<lambda>b. \<not> msg_line b) ls)"
    if "each_line output_line (pending w i) (?s, logs w) = Some (s, l)" for s l
    using that each_line_fold [OF nb, of output_line "(?s, logs w)"]
      output_fold [OF short, of ?s "logs w" s l] by (simp add: ls_def)
  from assms(1) i64 assms(3) show ?thesis
  proof (cases rule: poll_cases)
    case (waiting f s l k)
    then show ?thesis using key len by simp
  next
    case (unknown f s l k)
    then show ?thesis using key [of s l] len by simp
  next
    case (reaped f s l l2 k k2 k3 q c)
    have "last_msg (outcome c s) = last_msg s" by (auto simp: outcome_def split: child.splits)
    then show ?thesis using key [of s l] reaped reap_errors [OF reaped(8)] len by simp
  qed (use assms(4,5) in simp_all)
qed

lemma one_busy_inv: "table_inv (one_busy Alive)"
  using good_step_inv [OF one_start] one_test_inv one_test_kids by simp

text \<open>The started test after it has written a message.\<close>

definition one_talks :: machine where
  "one_talks = set_streams [\<lparr>content = ''MSG: ok'' @ [NL], is_open = True\<rparr>] (one_busy Alive)"

lemma one_talks_inv: "table_inv one_talks"
proof -
  have "step (Polling 0, one_busy Alive) (Polling 0, set_streams ((streams (kern (one_busy Alive)))[0 :=
      (streams (kern (one_busy Alive)) ! 0)\<lparr>content := content (streams (kern (one_busy Alive)) ! 0) @ (''MSG: ok'' @ [NL])\<rparr>]) (one_busy Alive))"
    by (rule step.writes) (simp_all add: one_busy_sel)
  moreover have "set_streams ((streams (kern (one_busy Alive)))[0 :=
      (streams (kern (one_busy Alive)) ! 0)\<lparr>content := content (streams (kern (one_busy Alive)) ! 0) @ (''MSG: ok'' @ [NL])\<rparr>]) (one_busy Alive) = one_talks"
    by (simp add: one_busy_sel one_talks_def)
  ultimately show ?thesis using step_inv one_busy_inv by (metis snd_conv)
qed

theorem poll_reports_witness:
  "\<exists>w'. poll 0 one_talks = Some w' \<and> last_msg (burnin_scripts w' ! 0) = ''ok'' \<and>
    errors_shown (logs w') = errors_shown (logs one_talks)"
proof -
  have "fgets_all BUFSIZ (concat (map (\<lambda>l. l @ [NL]) [''MSG: ok''])) = map (\<lambda>l. l @ [NL]) [''MSG: ok'']"
    by (intro fgets_all_lines) (simp_all add: BUFSIZ_def)
  then have p: "pending one_talks 0 = [''MSG: ok'' @ [NL]]"
    by (simp add: pending_def one_talks_def one_busy_sel)
  have b: "\<not> blank_line (''MSG: ok'' @ [NL])" by (simp add: blank_line_def strip_eval)
  have t: "trimmed (''MSG: ok'' @ [NL]) = ''MSG: ok''" by (simp add: trimmed_def strip_eval)
  have r: "running (burnin_scripts one_talks ! 0) = 1" "fp_stdout (burnin_scripts one_talks ! 0) = Some 0"
    "0 < burnin_script_count one_talks"
    by (simp_all add: one_talks_def one_busy_sel)
  have "poll 0 one_talks \<noteq> None"
    using poll_None [OF one_talks_inv, of 0] p b by (simp add: MAX_BURNIN_SCRIPTS_def)
  then obtain w' where w': "poll 0 one_talks = Some w'" by blast
  from poll_reports [OF one_talks_inv r(3) w' r(1,2)] w' show ?thesis
    unfolding p list.map t by (simp add: shown_def msg_line_def starts_def)
qed

section \<open>A failing fork and another test\<close>

text \<open>C25: A test whose \<open>fork\<close> failed waits for any child: it takes the failure of another test as its
  own, and the test that failed is then counted as passed.\<close>

theorem failed_fork_steals_status:
  assumes w: "table_inv w" "clean w" and ij: "i < burnin_script_count w" "j < burnin_script_count w" "i \<noteq> j"
    and r: "running (burnin_scripts w ! i) = 1" "running (burnin_scripts w ! j) = 1"
    and fp: "fp_stdout (burnin_scripts w ! i) = Some f" "fp_stdout (burnin_scripts w ! j) = Some g"
    and pids: "pid (burnin_scripts w ! i) = - 1" "pid (burnin_scripts w ! j) = q"
    and ch: "children (kern w) = [(q, Exited st)]" "st \<noteq> 0" "st \<noteq> 255"
  shows "\<exists>w1 w2. poll i w = Some w1 \<and> poll j w1 = Some w2 \<and>
    fail_count (burnin_scripts w2 ! i) = fail_count (burnin_scripts w ! i) + 1 \<and>
    fail_count (burnin_scripts w2 ! j) = fail_count (burnin_scripts w ! j) \<and>
    pass_count (burnin_scripts w2 ! j) = pass_count (burnin_scripts w ! j) + 1"
proof -
  have i64: "i < MAX_BURNIN_SCRIPTS" "j < MAX_BURNIN_SCRIPTS" using w ij by (auto simp: table_inv_def)
  have len: "i < length (burnin_scripts w)" "j < length (burnin_scripts w)"
    using table_inv_script [OF w(1)] i64 by simp_all
  have "poll i w \<noteq> None" using poll_None [OF w(1) i64(1)] w(2) i64(1) by (auto simp: clean_def)
  then obtain w1 where p1: "poll i w = Some w1" by blast
  have w1: "table_inv w1" "clean w1"
    using poll_inv [OF w(1) i64(1) p1] poll_clean [OF w i64(1) p1] by simp_all
  obtain s l k where u: "w1 = put_script i (outcome (Exited st) s) l k w" "children k = []"
    "pass_count s = pass_count (burnin_scripts w ! i)" "fail_count s = fail_count (burnin_scripts w ! i)"
    by (rule poll_only_child [OF w(1) i64(1) r(1) fp(1) ch(1) _ p1]) (use pids in \<open>simp add: asked_def\<close>)
  have a: "fail_count (burnin_scripts w1 ! i) = fail_count (burnin_scripts w ! i) + 1"
    "burnin_scripts w1 ! j = burnin_scripts w ! j" "children (kern w1) = []"
    using u ch(2,3) len ij(3) by (simp_all add: outcome_def)
  have "poll j w1 \<noteq> None" using poll_None [OF w1(1) i64(2)] w1(2) i64(2) by (auto simp: clean_def)
  then obtain w2 where p2: "poll j w1 = Some w2" by blast
  have len1: "j < length (burnin_scripts w1)" using table_inv_script [OF w1(1) i64(2)] by simp
  obtain s' l' k' where v: "w2 = put_script j (s'\<lparr>running := 0, last_result := 0, pass_count := pass_count s' + 1\<rparr>) l' k' w1"
    "pass_count s' = pass_count (burnin_scripts w1 ! j)" "fail_count s' = fail_count (burnin_scripts w1 ! j)"
    by (rule poll_no_child [OF w1(1) i64(2) _ _ _ p2, of g]) (use a r fp in simp_all)
  then have "pass_count (burnin_scripts w2 ! j) = pass_count (burnin_scripts w1 ! j) + 1"
    "fail_count (burnin_scripts w2 ! j) = fail_count (burnin_scripts w1 ! j)"
    "burnin_scripts w2 ! i = burnin_scripts w1 ! i"
    using len1 ij(3) by simp_all
  with p1 p2 a show ?thesis by simp
qed

text \<open>Two running tests, the first without a child of its own.\<close>

definition two_tests :: machine where
  "two_tests = (sample_machine [])\<lparr>burnin_scripts := no_scripts[
       0 := no_script\<lparr>running := 1, pid := - 1, fp_stdout := Some 0\<rparr>,
       1 := no_script\<lparr>running := 1, pid := 7, fp_stdout := Some 1\<rparr>],
     burnin_script_count := 2,
     kern := \<lparr>children = [(7, Exited 1)],
       streams = [\<lparr>content = [], is_open = True\<rparr>, \<lparr>content = [], is_open = True\<rparr>]\<rparr>\<rparr>"

lemma two_tests_nth:
  "k < MAX_BURNIN_SCRIPTS \<Longrightarrow> burnin_scripts two_tests ! k =
    (if k = 0 then no_script\<lparr>running := 1, pid := - 1, fp_stdout := Some 0\<rparr>
     else if k = 1 then no_script\<lparr>running := 1, pid := 7, fp_stdout := Some 1\<rparr> else no_script)"
  by (auto simp: two_tests_def nth_list_update no_scripts_def)

lemma two_tests_inv: "table_inv two_tests \<and> clean two_tests"
proof -
  have l: "length (burnin_scripts two_tests) = MAX_BURNIN_SCRIPTS" by (simp add: two_tests_def no_scripts_def)
  have k: "streams (kern two_tests) = [\<lparr>content = [], is_open = True\<rparr>, \<lparr>content = [], is_open = True\<rparr>]"
    "burnin_script_count two_tests = 2" by (simp_all add: two_tests_def)
  have ok: "script_ok (kern two_tests) s" if "s \<in> set (burnin_scripts two_tests)" for s
  proof -
    from that obtain i where "i < MAX_BURNIN_SCRIPTS" "s = burnin_scripts two_tests ! i"
      using l by (auto simp: in_set_conv_nth)
    then show ?thesis using two_tests_nth [of i] k by (auto simp: script_ok_def no_script_def)
  qed
  have d: "fp_stdout (burnin_scripts two_tests ! b) \<noteq> Some f"
    if "a < MAX_BURNIN_SCRIPTS" "b < MAX_BURNIN_SCRIPTS" "a \<noteq> b"
      "running (burnin_scripts two_tests ! a) = 1" "running (burnin_scripts two_tests ! b) = 1"
      "fp_stdout (burnin_scripts two_tests ! a) = Some f" for a b f
    using that two_tests_nth [of a] two_tests_nth [of b] by (auto simp: no_script_def split: if_splits)
  have "table_inv two_tests" unfolding table_inv_def
    using l ok d k(2) by (auto simp: MAX_BURNIN_SCRIPTS_def)
  moreover have "pending two_tests i = []" if "i < MAX_BURNIN_SCRIPTS" for i
    using two_tests_nth [OF that] k by (simp add: pending_def no_script_def)
  ultimately show ?thesis by (simp add: clean_def)
qed

theorem failed_fork_steals_status_witness:
  "\<exists>w1 w2. poll 0 two_tests = Some w1 \<and> poll 1 w1 = Some w2 \<and>
    fail_count (burnin_scripts w2 ! 0) = 1 \<and> pass_count (burnin_scripts w2 ! 1) = 1"
proof -
  have n: "burnin_scripts two_tests ! 0 = no_script\<lparr>running := 1, pid := - 1, fp_stdout := Some 0\<rparr>"
    "burnin_scripts two_tests ! 1 = no_script\<lparr>running := 1, pid := 7, fp_stdout := Some 1\<rparr>"
    using two_tests_nth [of 0] two_tests_nth [of 1] by (simp_all add: MAX_BURNIN_SCRIPTS_def)
  have k: "children (kern two_tests) = [(7, Exited 1)]" "burnin_script_count two_tests = 2"
    by (simp_all add: two_tests_def)
  show ?thesis
    using failed_fork_steals_status [of two_tests 0 1 0 1 7 1] two_tests_inv
    unfolding n k by (auto simp: no_script_def)
qed

end
