(* ===== verification/Boot.thy ===== *)
theory Boot
  imports StartupSpec BurninCount
begin

text \<open>
  The composition of the phases of \<open>main\<close>: from the command line, through the discovery of the
  tests, the hardware setup, the log device and the benchmarks, to the burn-in loop. No phase after
  the discovery touches the table of tests, so that the loop starts with what was found.
\<close>

section \<open>The phases leave the table alone\<close>

definition tests_of :: "breakin \<Rightarrow> burnin_scripts_t list \<times> nat" where
  "tests_of w = (burnin_scripts (mach w), burnin_script_count (mach w))"

named_theorems tests \<open>what leaves the table of tests alone\<close>

lemma tests_set [tests]:
  "tests_of (set_log l w) = tests_of w" "tests_of (set_kern l k w) = tests_of w"
  "tests_of (w\<lparr>opts := o1\<rparr>) = tests_of w" "tests_of (w\<lparr>hardware_finished := b\<rparr>) = tests_of w"
  "tests_of (w\<lparr>serial_speed := n\<rparr>) = tests_of w" "tests_of (w\<lparr>benchmarks := bm\<rparr>) = tests_of w"
  "tests_of (w\<lparr>sens := s\<rparr>) = tests_of w" "tests_of (w\<lparr>stat_file := t\<rparr>) = tests_of w"
  "tests_of (w\<lparr>mach := (mach w)\<lparr>kern := k\<rparr>\<rparr>) = tests_of w"
  by (simp_all add: tests_of_def set_log_def set_kern_def)

lemma tests_hardware_round: "hardware_round f p ev w = Some w' \<Longrightarrow> tests_of w' = tests_of w"
  by (auto simp: hardware_round_def Let_def tests split: bind_splits wait_result.splits prod.splits)

lemma tests_hardware_loop: "hardware_loop evs f p w = Some w' \<Longrightarrow> tests_of w' = tests_of w"
  by (induction evs arbitrary: w) (auto simp: tests dest!: tests_hardware_round split: if_splits bind_splits)

lemma tests_hardware_setup: "hardware_setup fe evs w = Some w' \<Longrightarrow> tests_of w' = tests_of w"
  by (auto simp: hardware_setup_def Let_def tests dest!: tests_hardware_loop split: bind_splits option.splits)

lemma tests_announce_disabled: "announce_disabled w = Some w' \<Longrightarrow> tests_of w' = tests_of w"
  by (auto simp: announce_disabled_def tests split: if_splits bind_splits)

lemma tests_start_serial: "start_serial opened attached w = Some w' \<Longrightarrow> tests_of w' = tests_of w"
  by (auto simp: start_serial_def tests split: if_splits bind_splits)

lemma tests_start_logdev: "start_logdev ok opened attached w = Some w' \<Longrightarrow> tests_of w' = tests_of w"
  by (auto simp: start_logdev_def Let_def tests dest!: tests_start_serial split: if_splits bind_splits)

lemma tests_disk_benchmarks: "disk_benchmarks env i k w = Some w' \<Longrightarrow> tests_of w' = tests_of w"
  by (induction k arbitrary: i w) (auto simp: tests Let_def split: bind_splits)

lemma tests_run_benchmarks: "run_benchmarks e w = Some w' \<Longrightarrow> tests_of w' = tests_of w"
  by (auto simp: run_benchmarks_def Let_def tests dest!: tests_disk_benchmarks split: bind_splits)

lemma tests_announce: "announce w = Some w' \<Longrightarrow> tests_of w' = tests_of w"
  by (auto simp: announce_def Let_def tests split: if_splits bind_splits)

lemma tests_setup_phases: "setup_phases e w = Some w' \<Longrightarrow> tests_of w' = tests_of w"
  by (auto simp: setup_phases_def tests_run_benchmarks tests_announce
      dest!: tests_hardware_setup tests_announce_disabled tests_start_logdev split: if_splits bind_splits)

section \<open>The option for disabled tests\<close>

text \<open>The argument of the last \<open>-t\<close>, cut to the size of the array.\<close>

definition disabled_by :: "(char \<times> string) list \<Rightarrow> string \<Rightarrow> string" where
  "disabled_by xs d = fold (\<lambda>(c, a) d. if c = CHR ''t'' then snprintf_s 1024 a else d) xs d"

lemma set_option_disable:
  assumes "set_option x w = Some w'" and "breakin_disable (mach w) = d @ NUL # post"
  shows "\<exists>post'. breakin_disable (mach w') = disabled_by [x] d @ NUL # post'"
  using assms
  by (cases x) (auto simp: set_option_def put_disable_def disabled_by_def Let_def set_log_def split: if_splits)

lemma set_options_disable:
  "set_options xs w = Some w' \<Longrightarrow> breakin_disable (mach w) = d @ NUL # post \<Longrightarrow>
   \<exists>post'. breakin_disable (mach w') = disabled_by xs d @ NUL # post'"
proof (induction xs arbitrary: w d post)
  case Nil
  then show ?case by (simp add: set_options_def disabled_by_def)
next
  case (Cons x xs)
  then obtain w1 where w1: "set_option x w = Some w1" "set_options xs w1 = Some w'"
    by (auto simp: set_options_def split: bind_splits)
  then obtain post1 where "breakin_disable (mach w1) = disabled_by [x] d @ NUL # post1"
    using set_option_disable Cons.prems(2) by blast
  from Cons.IH [OF w1(2) this] show ?case by (simp add: disabled_by_def)
qed

lemma set_option_tests: "set_option x w = Some w' \<Longrightarrow> tests_of w' = tests_of w"
  by (auto simp: set_option_def put_disable_def Let_def tests tests_of_def set_log_def split: if_splits prod.splits)

lemma set_options_tests: "set_options xs w = Some w' \<Longrightarrow> tests_of w' = tests_of w"
  unfolding set_options_def by (rule fold_opt_keeps [where I = "\<lambda>v. tests_of v = tests_of w"]) (auto dest: set_option_tests)

lemma prepare_finds:
  assumes "prepare e w = Some (Returns w')"
  obtains w1 m where "set_options (option_list e) (w\<lparr>benchmarks := (benchmarks w)\<lparr>completed := False\<rparr>\<rparr>) = Some w1"
    "find_burnin_tests (test_dir e) (mach w1) = Some m" "tests_of w' = (burnin_scripts m, burnin_script_count m)"
  using assms
  by (auto simp: prepare_def Let_def tests_of_def intro!: that split: if_splits option.splits bind_splits exits.splits prod.splits)

section \<open>Properties\<close>

lemma found_fits:
  assumes "find_burnin_tests (Some es) m = Some m'" and "\<forall>t \<in> set ts. token t"
    and "breakin_disable m = join ts @ NUL # post" and "length (burnin_scripts m) = MAX_BURNIN_SCRIPTS"
  shows "length (found ts es) \<le> MAX_BURNIN_SCRIPTS"
proof (rule ccontr)
  assume "\<not> length (found ts es) \<le> MAX_BURNIN_SCRIPTS"
  then have "find_loop es 0 (join ts @ NUL # post, burnin_scripts m) = None"
    using find_loop_found [OF assms(2), of es post "burnin_scripts m"] assms(4) by auto
  then show False using assms(1,3) by (simp add: find_burnin_tests_def)
qed

text \<open>C1: Whatever the options, the hardware script, the log device and the benchmarks do, the
  burn-in loop starts with exactly the tests that the directory has and the last \<open>-t\<close> leaves, all
  idle and with both counts 0; and from there on, however the tests, the kernel and the other threads
  behave, a poll is undefined only for a blank line of output and a start only for a failing
  \<open>pipe\<close>.\<close>

theorem boot_to_burnin:
  assumes "prepare se w = Some (Returns w1)" and "setup_phases pe w1 = Some w2"
    and "burnin_scripts (mach w) = no_scripts" and "breakin_disable (mach w) = NUL # post"
    and "test_dir se = Some es" and "\<forall>e \<in> set es. length e \<le> 255"
    and "\<forall>t \<in> set ts. token t" and "disabled_by (option_list se) [] = join ts"
  shows "burnin_script_count (mach w2) = length (found ts es) \<and>
    (\<forall>i < length (found ts es). let s = burnin_scripts (mach w2) ! i in
       name s = found ts es ! i \<and> running s = 0 \<and> pass_count s = 0 \<and> fail_count s = 0) \<and>
    (\<forall>c m i e. step\<^sup>*\<^sup>* (Launching 0, mach w2) (c, m) \<longrightarrow> i < burnin_script_count m \<longrightarrow>
       (poll i m = None \<longleftrightarrow> running (burnin_scripts m ! i) = 1 \<and> (\<exists>l \<in> set (pending m i). blank_line l)) \<and>
       (launch e i m = None \<longleftrightarrow> running (burnin_scripts m ! i) = 0 \<and> \<not> pipe_ok e))"
proof -
  obtain v m where v: "set_options (option_list se) (w\<lparr>benchmarks := (benchmarks w)\<lparr>completed := False\<rparr>\<rparr>) = Some v"
    "find_burnin_tests (Some es) (mach v) = Some m" "tests_of w1 = (burnin_scripts m, burnin_script_count m)"
    using prepare_finds [OF assms(1)] assms(5) by metis
  have n: "burnin_scripts (mach v) = no_scripts"
    using set_options_tests [OF v(1)] assms(3) by (simp add: tests_of_def)
  then have l: "length (burnin_scripts (mach v)) = MAX_BURNIN_SCRIPTS" by (simp add: no_scripts_def)
  obtain post' where d: "breakin_disable (mach v) = join ts @ NUL # post'"
    using set_options_disable [OF v(1), of "[]" post] assms(4,8) by auto
  have t: "tests_of w2 = (burnin_scripts m, burnin_script_count m)"
    using tests_setup_phases [OF assms(2)] v(3) by simp
  obtain m' where "find_burnin_tests (Some es) (mach v) = Some m'" "burnin_script_count m' = length (found ts es)"
    "\<forall>i < burnin_script_count m'. let s = burnin_scripts m' ! i in
       name s = found ts es ! i \<and> running s = 0 \<and> pass_count s = 0 \<and> fail_count s = 0"
    using find_table [OF assms(7) d l assms(6) found_fits [OF v(2) assms(7) d l]] by (auto simp: Let_def)
  moreover have "table_inv (mach w2)"
    using find_burnin_tests_idle [OF v(2) n assms(6)] t by (intro idle_table_inv) (simp add: tests_of_def)
  ultimately show ?thesis using v(2) t reachable_defined by (auto simp: tests_of_def)
qed

text \<open>A start without sensors, with an empty BIOS area and a hardware script that cannot be followed.\<close>

definition blank_os :: os where
  "blank_os = \<lparr>phys = (\<lambda>_. 0), answers = [\<lparr>open_ok = True, malloc_ok = True, mmap_ok = True, munmap_ok = True,
     close_ok = True\<rparr>], fds = 3, pages = 0, heap = 0, stderr = []\<rparr>"

lemma blank_os_decodes: "\<exists>d os. do_dmi_decode mem_chunk release (dmi_zero, blank_os) = Some (Returns (d, os))"
proof -
  have f: "fst (mem_chunk 0xF0000 0x10000 blank_os) = Some (map (\<lambda>_. 0) [0xF0000..<0x100000])"
    using mem_chunk_returns [where w = blank_os and base = "0xF0000" and len = "0x10000"]
    by (simp add: blank_os_def del: upt_rec_numeral)
  then obtain w1 where w1: "mem_chunk 0xF0000 0x10000 blank_os = (Some (map (\<lambda>_. 0) [0xF0000..<0x100000]), w1)"
    by (metis prod.collapse)
  have "set (map (\<lambda>_. 0 :: 8 word) [0xF0000..<0x100000]) \<subseteq> {0}" by (rule set_map_const)
  then show ?thesis using bios.decode_safe [OF dmi_inv_zero w1] mem_eq_zeros by metis
qed

definition plain_start :: start_env where
  "plain_start = \<lparr>uid = 0, option_list = [(CHR ''b'', [])], test_dir = Some [''.'', ''ecc''], start_temps = None,
     start_fans = None, dmi_os = blank_os, cpuinfo_text = None, now = 0, log_ok = True\<rparr>"

definition plain_phases :: phase_env where
  "plain_phases = \<lparr>hw_fork = (sample_fork 5)\<lparr>fdopen_ok := False\<rparr>, hw_events = [], logdev_ok = False,
     serial_opened = False, serial_attached = False, bench_answers = undefined\<rparr>"

lemma plain_boot:
  "\<exists>w1 w2. prepare plain_start (no_breakin\<lparr>mach := sample_machine []\<rparr>) = Some (Returns w1) \<and>
    setup_phases plain_phases w1 = Some w2"
proof -
  let ?w = "no_breakin\<lparr>mach := sample_machine []\<rparr>"
  obtain d os where d: "do_dmi_decode mem_chunk release (dmi_zero, blank_os) = Some (Returns (d, os))"
    using blank_os_decodes by blast
  obtain s where s: "get_ipmi_sensors None None no_sensors = Some s"
    by (simp add: get_ipmi_sensors_def sensor_file_def)
  define v where "v = ?w\<lparr>benchmarks := (benchmarks ?w)\<lparr>completed := False\<rparr>, opts := (opts ?w)\<lparr>enable_benchmarks := False\<rparr>\<rparr>"
  have o: "set_options [(CHR ''b'', [])] (?w\<lparr>benchmarks := (benchmarks ?w)\<lparr>completed := False\<rparr>\<rparr>) = Some v"
    by (simp add: set_options_def set_option_def v_def)
  have v: "mach v = sample_machine []" "sens v = no_sensors" "dmi_data v = dmi_zero" "opts v = (opts no_breakin)\<lparr>enable_benchmarks := False\<rparr>"
    by (simp_all add: v_def no_breakin_def)
  obtain w1 where w1: "prepare plain_start ?w = Some (Returns w1)" "opts w1 = opts v"
    "breakin_disable (mach w1) = breakin_disable one_test" "serial_enabled (blog w1) = serial_enabled (logs one_test)"
    using o v d s one_test_found by (simp add: prepare_def plain_start_def get_cpu_info_def)
  have "cstr (breakin_disable (mach w1)) 0 = Some []"
    by (simp add: w1(3) one_test_def sample_machine_def cstr_def)
  then show ?thesis using w1
    by (simp add: setup_phases_def plain_phases_def hardware_setup_def fork_cmd_def sample_fork_def announce_disabled_def
        start_logdev_def announce_def Let_def set_log_def set_kern_def log_frame v no_breakin_def one_test_def sample_machine_def)
qed

lemma boot_to_burnin_witness:
  "\<exists>w1 w2. prepare plain_start (no_breakin\<lparr>mach := sample_machine []\<rparr>) = Some (Returns w1) \<and>
    setup_phases plain_phases w1 = Some w2 \<and> burnin_script_count (mach w2) = 1 \<and>
    name (burnin_scripts (mach w2) ! 0) = ''ecc'' \<and> poll 0 (mach w2) \<noteq> None"
proof -
  obtain w1 w2 where w: "prepare plain_start (no_breakin\<lparr>mach := sample_machine []\<rparr>) = Some (Returns w1)"
    "setup_phases plain_phases w1 = Some w2" using plain_boot by blast
  let ?m = "mach (no_breakin\<lparr>mach := sample_machine []\<rparr>)"
  have m: "burnin_scripts ?m = no_scripts" "breakin_disable ?m = NUL # replicate 1023 NUL"
    "test_dir plain_start = Some [''.'', ''ecc'']" "disabled_by (option_list plain_start) [] = join []"
    using sample_disable [of "[]"] by (simp_all add: sample_machine_def plain_start_def disabled_by_def)
  have f: "found [] [''.'', ''ecc''] = [''ecc'']" by (simp add: visible_def)
  have e: "\<forall>e \<in> set [''.'', ''ecc'']. length e \<le> 255" "\<forall>t \<in> set []. token t" by simp_all
  note b = boot_to_burnin [OF w m(1-3) e m(4), unfolded f Let_def]
  then have c: "burnin_script_count (mach w2) = 1" "name (burnin_scripts (mach w2) ! 0) = ''ecc''"
    "running (burnin_scripts (mach w2) ! 0) = 0" by simp_all
  then have "poll 0 (mach w2) \<noteq> None"
    using b [THEN conjunct2, THEN conjunct2, rule_format, OF rtranclp.rtrancl_refl, of 0] by simp
  with w c show ?thesis by blast
qed

end
