(* ===== verification/LateOutput.thy ===== *)
theory LateOutput
  imports Boot
begin

text \<open>
  The output of the commands that are followed: what the hardware script and the tests write is
  read before they are waited for, so that everything written before a round is shown, and what
  they write between the two steps of their last round is lost.
\<close>

section \<open>What a command does\<close>

text \<open>The command with the stream \<open>f\<close> writes; the child \<open>p\<close> ends.\<close>

definition writes_text :: "nat \<Rightarrow> string \<Rightarrow> kernel \<Rightarrow> kernel" where
  "writes_text f t k = k\<lparr>streams := (streams k)[f := (streams k ! f)\<lparr>content := content (streams k ! f) @ t\<rparr>]\<rparr>"

definition ends_with :: "int \<Rightarrow> child \<Rightarrow> kernel \<Rightarrow> kernel" where
  "ends_with p c k = k\<lparr>children := map (\<lambda>x. if x = (p, Alive) then (p, c) else x) (children k)\<rparr>"

text \<open>The command runs as the child \<open>p\<close> with the stream \<open>f\<close>, of which all has been read.\<close>

definition followed :: "nat \<Rightarrow> int \<Rightarrow> kernel \<Rightarrow> bool" where
  "followed f p k \<longleftrightarrow> f < length (streams k) \<and> is_open (streams k ! f) \<and> content (streams k ! f) = [] \<and>
     distinct (map fst (children k)) \<and> (p, Alive) \<in> set (children k) \<and> 0 < p"

lemma drain_written:
  assumes "followed f p k"
  shows "drain f (writes_text f t k) = Some (fgets_all BUFSIZ t, k)"
proof -
  have "(streams k ! f)\<lparr>content := []\<rparr> = streams k ! f"
    using assms by (cases "streams k ! f") (simp add: followed_def)
  then have "k\<lparr>streams := (streams k)[f := (streams k ! f)\<lparr>content := []\<rparr>]\<rparr> = k"
    by (cases k) (simp only: list_update_id kernel.update_convs kernel.select_convs)
  then show ?thesis using assms drain_open [of f "writes_text f t k"]
    by (simp add: writes_text_def followed_def)
qed

lemma wait_running: "followed f p k \<Longrightarrow> waitpid p k = (Wait_Zero, k)"
  using waitpid_own [of k p Alive] by (simp add: followed_def)

lemma wait_ended:
  assumes "followed f p k" and "c \<noteq> Alive"
  shows "\<exists>k'. waitpid p (ends_with p c (writes_text f t k)) = (Wait_Pid p c, k') \<and>
    streams k' = streams (writes_text f t k)"
proof -
  let ?k = "ends_with p c (writes_text f t k)"
  have "map fst (children ?k) = map fst (children k)"
    by (auto simp: ends_with_def writes_text_def)
  moreover have "(p, c) \<in> set (children ?k)"
    using assms(1) by (force simp: followed_def ends_with_def writes_text_def)
  ultimately show ?thesis using waitpid_own [of ?k p c] assms
    by (simp add: followed_def) (simp add: ends_with_def)
qed

section \<open>The hardware script\<close>

lemma printed_lines: "fold (wprintw 0) ls l = l\<lparr>log_win := log_win l @ map (Pair 0) ls\<rparr>"
  by (induction ls arbitrary: l) (simp_all add: wprintw_def)

lemma shown_text:
  assumes "nul_free t"
  shows "concat (map as_text (fgets_all BUFSIZ t)) = t"
proof -
  have c: "concat (fgets_all BUFSIZ t) = t" by (rule fgets_all_concat [OF BUFSIZ_gt])
  then have "\<forall>l \<in> set (fgets_all BUFSIZ t). NUL \<notin> set l" using assms unfolding nul_free_def by (metis UN_I set_concat)
  then have "map as_text (fgets_all BUFSIZ t) = fgets_all BUFSIZ t"
    by (intro map_idI) (auto simp: as_text_def takeWhile_eq_all_conv)
  then show ?thesis using c by simp
qed

text \<open>A round in which the script goes on, and the last round.\<close>

lemma round_running:
  assumes "followed f p (kern (mach w))"
  shows "hardware_round f p id (w\<lparr>mach := (mach w)\<lparr>kern := writes_text f t (kern (mach w))\<rparr>\<rparr>) =
    Some (set_log ((blog w)\<lparr>log_win := log_win (blog w) @ map (Pair 0 \<circ> as_text) (fgets_all BUFSIZ t)\<rparr>) w)"
  using drain_written [OF assms, of t] wait_running [OF assms]
  by (simp add: hardware_round_def printed_lines set_log_def set_kern_def)

lemma round_ended:
  assumes "followed f p (kern (mach w))" and "c \<noteq> Alive"
  shows "\<exists>w'. hardware_round f p (ends_with p c \<circ> writes_text f late)
      (w\<lparr>mach := (mach w)\<lparr>kern := writes_text f t (kern (mach w))\<rparr>\<rparr>) = Some w' \<and> hardware_finished w' \<and>
    \<not> is_open (streams (kern (mach w')) ! f) \<and>
    log_win (blog w') = log_win (blog w) @ map (Pair 0 \<circ> as_text) (fgets_all BUFSIZ t) @
      [(2, running_time (blog w) @ '': Finished hardware setup'' @ [NL])]"
proof -
  obtain k where k: "waitpid p (ends_with p c (writes_text f late (kern (mach w)))) = (Wait_Pid p c, k)"
    "streams k = streams (writes_text f late (kern (mach w)))"
    using wait_ended [OF assms] by blast
  have "f < length (streams k)" "is_open (streams k ! f)"
    using assms(1) by (simp_all add: k(2) writes_text_def followed_def)
  then show ?thesis using drain_written [OF assms(1), of t] k(1)
    by (simp add: hardware_round_def printed_lines set_kern_def fclose_open log_message_def Let_def wprintw_def
        running_time_def run_secs_def)
qed

text \<open>What the system does while the script writes the texts \<open>ts\<close> before as many rounds, \<open>t\<close> before
  the next one, and \<open>late\<close> when that round has already read, and then ends.\<close>

definition script_run :: "nat \<Rightarrow> int \<Rightarrow> child \<Rightarrow> string list \<Rightarrow> string \<Rightarrow> string \<Rightarrow> round_events list" where
  "script_run f p c ts t late =
     map (\<lambda>t. (writes_text f t, id)) ts @ [(writes_text f t, ends_with p c \<circ> writes_text f late)]"

lemma hardware_loop_run:
  "followed f p (kern (mach w)) \<Longrightarrow> \<not> hardware_finished w \<Longrightarrow> c \<noteq> Alive \<Longrightarrow> \<forall>x \<in> set (t # ts). nul_free x \<Longrightarrow>
   \<exists>w' out. hardware_loop (script_run f p c ts t late @ evs) f p w = Some w' \<and> hardware_finished w' \<and>
     \<not> is_open (streams (kern (mach w')) ! f) \<and> concat out = concat ts @ t \<and>
     log_win (blog w') = log_win (blog w) @ map (Pair 0) out @
       [(2, running_time (blog w) @ '': Finished hardware setup'' @ [NL])]"
proof (induction ts arbitrary: w)
  case Nil
  then obtain w' where w': "hardware_round f p (ends_with p c \<circ> writes_text f late)
      (w\<lparr>mach := (mach w)\<lparr>kern := writes_text f t (kern (mach w))\<rparr>\<rparr>) = Some w'" "hardware_finished w'"
    "\<not> is_open (streams (kern (mach w')) ! f)"
    "log_win (blog w') = log_win (blog w) @ map (Pair 0 \<circ> as_text) (fgets_all BUFSIZ t) @
      [(2, running_time (blog w) @ '': Finished hardware setup'' @ [NL])]"
    using round_ended by blast
  have "hardware_loop evs f p w' = Some w'" using w'(2) by (cases evs) simp_all
  then show ?case using w' Nil.prems shown_text [of t]
    by (intro exI [of _ w'] exI [of _ "map as_text (fgets_all BUFSIZ t)"]) (simp add: script_run_def)
next
  case (Cons x ts)
  let ?w = "set_log ((blog w)\<lparr>log_win := log_win (blog w) @ map (Pair 0 \<circ> as_text) (fgets_all BUFSIZ x)\<rparr>) w"
  have "followed f p (kern (mach ?w))" "\<not> hardware_finished ?w" using Cons.prems by (simp_all add: set_log_def)
  then obtain w' out where w': "hardware_loop (script_run f p c ts t late @ evs) f p ?w = Some w'"
    "hardware_finished w'" "\<not> is_open (streams (kern (mach w')) ! f)" "concat out = concat ts @ t"
    "log_win (blog w') = log_win (blog ?w) @ map (Pair 0) out @
       [(2, running_time (blog ?w) @ '': Finished hardware setup'' @ [NL])]"
    using Cons.IH [of ?w] Cons.prems by auto
  have "hardware_loop (script_run f p c (x # ts) t late @ evs) f p w = Some w'"
    using round_running [OF Cons.prems(1), of x] w'(1) Cons.prems(2) by (simp add: script_run_def)
  then show ?case using w' Cons.prems shown_text [of x]
    by (intro exI [of _ w'] exI [of _ "map as_text (fgets_all BUFSIZ x) @ out"])
      (simp add: set_log_def running_time_def run_secs_def)
qed

section \<open>The tests\<close>

text \<open>The poll of a test, with what the system does between reading the output and \<open>waitpid\<close>.\<close>

definition poll_with :: "(kernel \<Rightarrow> kernel) \<Rightarrow> nat \<Rightarrow> machine \<Rightarrow> machine option" where
  "poll_with ev i w = do {
     s \<leftarrow> rd (burnin_scripts w) (int i);
     if running s > 0 then
       (case fp_stdout s of
          None \<Rightarrow> do {
            msg \<leftarrow> sprintf_s BUFSIZ (''Error reading stdout from: '' @ name s @ [NL]);
            Some (w\<lparr>logs := log_message msg (logs w)\<rparr>)
          }
        | Some f \<Rightarrow> do {
            (ls, k) \<leftarrow> drain f (kern w);
            (s, l) \<leftarrow> each_line output_line ls (s, logs w);
            settle i f s l (ev k) w
          })
     else Some w
   }"

lemma poll_with_id: "poll_with id i w = poll i w"
  unfolding poll_with_def poll_def id_apply by (rule refl)

lemma settle_ended:
  assumes k: "distinct (map fst (children k))" "(pid s, Alive) \<in> set (children k)" "0 < pid s"
    and o: "f < length (streams k)" "is_open (streams k ! f)" and c: "c \<noteq> Alive" and n: "length (name s) \<le> 255"
  shows "\<exists>l' k'. reap c s l = Some (outcome c s, l') \<and>
    settle i f s l (ends_with (pid s) c (writes_text f late k)) w = Some (put_script i (outcome c s) l' k' w) \<and>
    \<not> is_open (streams k' ! f) \<and> content (streams k' ! f) = content (streams k ! f) @ late"
proof -
  let ?k = "ends_with (pid s) c (writes_text f late k)"
  have "map fst (children ?k) = map fst (children k)" "(pid s, c) \<in> set (children ?k)"
    using k(2) by (auto simp: ends_with_def writes_text_def)
  then obtain k2 where k2: "waitpid (pid s) ?k = (Wait_Pid (pid s) c, k2)" "streams k2 = streams (writes_text f late k)"
    using waitpid_own [of ?k "pid s" c] k c by (simp add: ends_with_def)
  then have k3: "fclose f k2 = Some (k2\<lparr>streams := (streams k2)[f := (streams k2 ! f)\<lparr>is_open := False\<rparr>]\<rparr>)" (is "_ = Some ?k3")
    using o by (intro fclose_open) (simp_all add: writes_text_def)
  have "\<not> is_open (streams ?k3 ! f) \<and> content (streams ?k3 ! f) = content (streams k ! f) @ late"
    using o by (simp add: k2(2) writes_text_def)
  moreover obtain l' where "reap c s l = Some (outcome c s, l')"
    using reap_defined [OF n, of c l] reap_outcome by metis
  ultimately show ?thesis using k2(1) k3 by (intro exI [of _ l'] exI [of _ ?k3]) (simp add: settle_def)
qed

section \<open>Properties\<close>

text \<open>C8: The hardware setup of a script that \<open>fork_cmd\<close> could start ends in the round in which the
  script has ended, with the stream closed; the log window then shows, between the messages of the
  start and of the end, exactly the text that the script had written before each round, in order
  and however it was split. What the script writes after the last read is in none of them.\<close>

theorem hardware_setup_follows:
  assumes "fork_good fe (mach w)" and "getfl_ok fe" and "distinct (map fst (children (kern (mach w))))"
    and "c \<noteq> Alive" and "\<forall>x \<in> set (t # ts). nul_free x"
  defines "f \<equiv> length (streams (kern (mach w)))"
  shows "\<exists>w' out. hardware_setup fe (script_run f (fork_ret fe) c ts t late @ evs) w = Some w' \<and>
    hardware_finished w' \<and> \<not> is_open (streams (kern (mach w')) ! f) \<and> concat out = concat ts @ t \<and>
    log_win (blog w') = log_win (blog w) @ [(2, running_time (blog w) @ '': Starting hardware setup'' @ [NL])] @
      map (Pair 0) out @ [(2, running_time (blog w) @ '': Finished hardware setup'' @ [NL])]"
proof -
  let ?k = "(kern (mach w))\<lparr>children := children (kern (mach w)) @ [(fork_ret fe, Alive)],
       streams := streams (kern (mach w)) @ [\<lparr>content = [], is_open = True\<rparr>]\<rparr>"
  let ?w = "(set_kern (log_message ''Starting hardware setup'' (blog w)) ?k w)\<lparr>hardware_finished := False\<rparr>"
  note g = assms(1) [unfolded fork_good_def]
  have "followed f (fork_ret fe) (kern (mach ?w))"
    using g assms(3) by (simp add: followed_def set_kern_def f_def)
  then obtain w' out where w': "hardware_loop (script_run f (fork_ret fe) c ts t late @ evs) f (fork_ret fe) ?w = Some w'"
    "hardware_finished w'" "\<not> is_open (streams (kern (mach w')) ! f)" "concat out = concat ts @ t"
    "log_win (blog w') = log_win (blog ?w) @ map (Pair 0) out @
       [(2, running_time (blog ?w) @ '': Finished hardware setup'' @ [NL])]"
    using hardware_loop_run [of f "fork_ret fe" ?w c t ts late evs] assms(4,5) by auto
  moreover have "hardware_setup fe evs' w = hardware_loop evs' f (fork_ret fe) ?w" for evs'
    using g assms(2) by (simp add: hardware_setup_def fork_cmd_def Let_def f_def)
  moreover have "log_win (blog ?w) = log_win (blog w) @ [(2, running_time (blog w) @ '': Starting hardware setup'' @ [NL])]"
    "running_time (blog ?w) = running_time (blog w)"
    by (simp_all add: set_kern_def log_frame) (simp add: log_message_def Let_def wprintw_def)
  ultimately show ?thesis by (intro exI [of _ w'] exI [of _ out]) simp
qed

text \<open>C9: A test that writes between the two steps of its poll and ends is counted as it ended, but
  what it wrote there, an error or its last message, is lost: neither the entry of the test nor the
  log depends on it, and the stream is closed with the text unread.\<close>

theorem late_output_lost:
  assumes "table_inv w" and "kids_ok w" and "i < MAX_BURNIN_SCRIPTS" and "running (burnin_scripts w ! i) = 1"
    and "fp_stdout (burnin_scripts w ! i) = Some f" and "(pid (burnin_scripts w ! i), Alive) \<in> set (children (kern w))"
    and "\<forall>l \<in> set (pending w i). \<not> blank_line l" and "c \<noteq> Alive"
  shows "\<exists>s l. abs_test s = finish c (abs_test (burnin_scripts w ! i)) \<and>
    (\<forall>late. \<exists>k. poll_with (ends_with (pid (burnin_scripts w ! i)) c \<circ> writes_text f late) i w =
       Some (put_script i s l k w) \<and> \<not> is_open (streams k ! f) \<and> content (streams k ! f) = late)"
proof -
  let ?s = "burnin_scripts w ! i"
  have len: "i < length (burnin_scripts w)" and n: "length (name ?s) \<le> 255"
    using table_inv_script [OF assms(1,3)] by (simp_all add: script_ok_def)
  obtain s l k where e: "each_line output_line (pending w i) (?s, logs w) = Some (s, l)"
    and d: "drain f (kern w) = Some (pending w i, k)"
  proof (rule poll_running [OF assms(1,3,4,5)])
    show thesis if "\<exists>l \<in> set (pending w i). blank_line l" using that assms(7) by blast
  qed (rule that)
  note dk = drain_kern [OF d] and ek = output_lines_keep [OF e]
  have "distinct (map fst (children k))" "(pid s, Alive) \<in> set (children k)" "0 < pid s"
    using assms(2,6) dk ek by (auto simp: kids_ok_def)
  then have st: "\<exists>l' k'. reap c s l = Some (outcome c s, l') \<and>
      settle i f s l (ends_with (pid s) c (writes_text f late k)) w = Some (put_script i (outcome c s) l' k' w) \<and>
      \<not> is_open (streams k' ! f) \<and> content (streams k' ! f) = late" for late
    using settle_ended [of k s f c l i late w] dk ek n assms(8) by simp
  obtain l' where l': "reap c s l = Some (outcome c s, l')" using st by blast
  have "poll_with ev i w = settle i f s l (ev k) w" for ev
    using len assms(4,5) d e by (simp add: poll_with_def cmem)
  then have "\<exists>k'. poll_with (ends_with (pid ?s) c \<circ> writes_text f late) i w = Some (put_script i (outcome c s) l' k' w) \<and>
      \<not> is_open (streams k' ! f) \<and> content (streams k' ! f) = late" for late
    using st [of late] l' ek by auto
  moreover have "abs_test (outcome c s) = finish c (abs_test ?s)"
    using abs_outcome_keep(2) [OF e] abs_outcome [OF assms(8,4)] by simp
  ultimately show ?thesis by blast
qed

lemma hardware_setup_follows_witness:
  "\<exists>w' out. hardware_setup (sample_fork 7) (script_run 0 7 (Exited 0) [''Loading'', '' drivers'' @ [NL]] (''done'' @ [NL])
      (''failed'' @ [NL]) @ []) no_breakin = Some w' \<and>
    hardware_finished w' \<and> concat out = ''Loading drivers'' @ [NL] @ ''done'' @ [NL]"
proof -
  have g: "fork_good (sample_fork 7) (mach no_breakin)" "getfl_ok (sample_fork 7)"
    "distinct (map fst (children (kern (mach no_breakin))))" "fork_ret (sample_fork 7) = 7"
    "length (streams (kern (mach no_breakin))) = 0"
    by (simp_all add: fork_good_def sample_fork_def no_breakin_def)
  have "Exited 0 \<noteq> Alive" "\<forall>x \<in> set [''done'' @ [NL], ''Loading'', '' drivers'' @ [NL]]. nul_free x"
    by (simp_all add: nul_free_def)
  from hardware_setup_follows [OF g(1-3) this, of "''failed'' @ [NL]" "[]"]
  show ?thesis unfolding g(4,5) by auto
qed

lemma late_output_lost_witness:
  "\<exists>w'. poll_with (ends_with 7 (Exited 1) \<circ> writes_text 0 (''memory error'' @ [NL])) 0 (one_busy Alive) = Some w' \<and>
    content (streams (kern w') ! 0) = ''memory error'' @ [NL] \<and> \<not> is_open (streams (kern w') ! 0)"
proof -
  have k: "kids_ok (one_busy Alive)" using good_step_inv [OF one_start] one_test_inv one_test_kids by simp
  have s: "running (burnin_scripts (one_busy Alive) ! 0) = 1" "fp_stdout (burnin_scripts (one_busy Alive) ! 0) = Some 0"
    "pid (burnin_scripts (one_busy Alive) ! 0) = 7"
    "(pid (burnin_scripts (one_busy Alive) ! 0), Alive) \<in> set (children (kern (one_busy Alive)))"
    "\<forall>l \<in> set (pending (one_busy Alive) 0). \<not> blank_line l" "0 < MAX_BURNIN_SCRIPTS"
    by (simp_all add: one_busy_sel pending_def MAX_BURNIN_SCRIPTS_def)
  have "Exited 1 \<noteq> Alive" by simp
  from late_output_lost [OF one_busy_inv k s(6,1,2,4,5) this] show ?thesis
    unfolding s(3) by (elim exE conjE) (erule_tac x = "''memory error'' @ [NL]" in allE, auto simp: put_script_def)
qed

end
