(* ===== verification/Spec2Isabelle.thy ===== *)
theory Spec2Isabelle
  imports Util HplCalc LateOutput
begin

text \<open>
  Breakin is a stress test for new machines. It runs as root on a console: it sets the hardware up with
  a script, measures memory and disks, and then starts every program of a directory of tests over and
  over, counting how often each passes and fails, while other threads collect what the machine's
  sensors say, draw the screen, write a statistics file and send it to a server.

  \<^bold>\<open>The parts of the program.\<close> Everything but the helpers is in \<open>breakin.c\<close>, on global variables
  (\<open>breakin.h\<close>). \<open>main\<close> reads the options, finds the tests, decodes the DMI tables, follows
  \<open>hardware.sh\<close> to its end, opens the log device, runs the benchmarks (\<open>bench_stream.c\<close>,
  \<open>bench_disk.c\<close>) and stays in the burn-in loop. The thread \<open>update_stats\<close> fills the tables from
  \<open>/proc\<close>, \<open>/sys\<close> and the files of the IPMI script, draws, and writes
  \<open>/var/run/breakin.dat\<close>; \<open>do_update\<close> posts that file, \<open>update_logdev\<close> writes a line every 30 seconds to
  the log device and the serial port, \<open>handle_keypress\<close> reacts to the function keys and can start
  \<open>dump_log\<close>. The tests are programs of their own; the HPL test reads the statistics file with
  the shell's \<open>.\<close> command and configures itself with the programs \<open>hpl_calc_pq\<close> and
  \<open>hpl_calc_n\<close>. \<open>cryptpasswd\<close> stands alone.

  \<^bold>\<open>Conventions.\<close> A value of type \<open>'a option\<close> is a run of C code: \<open>None\<close> is undefined behaviour (an
  access outside an array object, a stream that is null or closed, a division by zero, a value that was
  never set), \<open>Some\<close> a defined run; \<open>exits\<close> adds the exit status of the program. Arrays are lists with
  checked access \<open>rd\<close> and \<open>wr\<close>; texts that the code handles through pointers inside an array
  (\<open>trim\<close>, \<open>strtok_r\<close>, the DMI chunk) are such lists with an offset, all others are strings without
  their terminator. Counters are words of their width; \<open>int\<close> values are integers, with the conversions
  written out where they can overflow; \<open>double\<close> is \<open>f64\<close>, a binary64 with rounding to even, signed zeros,
  infinities and NaN, and \<open>long double\<close> is rounded to 64 bits. What the program reads from outside is an
  argument: the contents of files and directories, the options, the clock, the answers of system calls,
  the order in which a parallel loop runs its iterations, the functions of \<open>libcrypt\<close> and \<open>curl\<close>.

  \<^bold>\<open>The theories.\<close>
  \<^item> \<open>Prelude\<close>, \<open>CLib\<close>: checked arrays, C's division and conversions; the functions of the C library
    that are called, with the laws of \<open>snprintf\<close>, \<open>strtok_r\<close>, \<open>fgets\<close>, \<open>atoi\<close> and \<open>%d\<close>.
  \<^item> \<open>Shell\<close>: how the shell of the tests (dash) reads a file of assignments with its \<open>.\<close> command: quotes,
    backslashes, continuation lines, comments. \<open>sh_source\<close> is \<open>None\<close> where it would expand something or run a
    command. \<open>sh_literal\<close> says which texts mean themselves between double quotes: exactly those are read back.
  \<^item> \<open>Util\<close> (\<open>util.c\<close>): \<open>trim\<close> on its array, its result \<open>strip\<close>, its frame, and when it leaves the array.
  \<^item> \<open>Float64\<close>, \<open>FloatInt\<close>: binary64, and integers that it represents exactly.
  \<^item> \<open>HplCalc\<close> (\<open>hpl_calc_pq.c\<close>, \<open>hpl_calc_n.c\<close>): the process grid that is closest to a square, and the
    matrix that fits the memory, through all the roundings.
  \<^item> \<open>DmiMem\<close>, \<open>Dmi\<close>, \<open>DmiSpec\<close> (\<open>dmidecode.c\<close>): \<open>mem_chunk\<close> and \<open>myread\<close> with the pages, blocks and descriptors
    they hold; the scan for the entry point and the walk over the structures; a reference parser that the
    walk refines, and its safety on arbitrary bytes. The locale \<open>devmem\<close> is what the decoder asks of
    \<open>mem_chunk\<close>.
  \<^item> \<open>Log\<close>: \<open>log_message\<close>, \<open>log_error\<close>, \<open>running_time\<close> and the followers \<open>monitor_syslog\<close> and \<open>show_log\<close>;
    what a growing file gains between two polls is read once, and so every line that is there whole is
    reported once (the locale \<open>line_sink\<close>, for both followers).
  \<^item> \<open>Kernel\<close>: child processes, \<open>waitpid\<close>, streams over pipes, and \<open>fork_cmd\<close>.
  \<^item> \<open>Burnin\<close>, \<open>BurninFind\<close>, \<open>BurninRun\<close>, \<open>BurninSpec\<close>, \<open>BurninCount\<close>: \<open>find_burnin_tests\<close>, \<open>run_burnin_tests\<close> and the
    poll of a test in \<open>main\<close>; the table after the discovery; the loop as the step relation \<open>step\<close>, with its
    invariant \<open>table_inv\<close>; the specification of a test (idle, busy or off, with two counts) that the loop
    refines when \<open>fork\<close> works; what is counted, and what goes wrong when it does not.
  \<^item> \<open>Sensors\<close>, \<open>Devices\<close>, \<open>SensorSpec\<close>: the collectors \<open>get_cpu_usage\<close>, \<open>get_cpu_info\<close>, \<open>get_mem_usage\<close>,
    \<open>get_ipmi_sensors\<close>, \<open>get_hd_info\<close>, \<open>get_nic_info\<close>; \<open>sensors_ok\<close> is the shape of the tables that they keep,
    and the tables are given for well-formed input.
  \<^item> \<open>Report\<close>, \<open>ReportSpec\<close>: the record \<open>breakin\<close> of all the state; \<open>dump_stats\<close>, the device log, the serial port,
    the upload; \<open>sh_source\<close>, the shell's reading, undoes \<open>dump_stats\<close> exactly when all values are literal. The locale
    \<open>value_test\<close> carries a property of the texts to the values that are written.
  \<^item> \<open>Screen\<close>, \<open>ScreenSpec\<close>: the drawing functions as lists of curses calls; the buffer they overrun.
  \<^item> \<open>Bench\<close>, \<open>BenchSpec\<close> (\<open>bench_stream.c\<close>, \<open>bench_disk.c\<close>, \<open>cryptpasswd.c\<close>): the benchmarks; the locale \<open>elem_loop\<close> proves
    once that a loop over the elements gives the same array in every order, for the five loops; a \<open>schedule\<close>
    rearranges the iterations \<open>[0..<n]\<close> of a loop. (The
    Makefile does not turn OpenMP on; the order of the sequential program is one of them.)
  \<^item> \<open>Startup\<close>, \<open>StartupSpec\<close>: the options, the phases of \<open>main\<close>, one round of \<open>update_stats\<close> and of \<open>dump_log\<close>; what
    the phases and rounds keep, so that no message overflows and the report can always be written.
  \<^item> \<open>Boot\<close>: the phases composed with the burn-in loop. \<open>LateOutput\<close>: the hardware script is followed to its end,
    and what a command writes between the last read and \<open>waitpid\<close> is lost.
  \<^item> This theory: how the size of the machine reaches the HPL test through the statistics file.

  \<^bold>\<open>Loops.\<close> Loops over a table, a directory, the lines of a file or the bytes of a chunk are functions with a
  structural recursion or a measure, so they end. The clock can stand still: \<open>await_tick\<close> is a partial
  function, \<open>None\<close> when it waits for ever. The disk benchmark stops after 1024 iterations, as in the code, and
  \<open>disk_loop\<close> counts down from there. The endless loops of \<open>main\<close> and of the threads are step relations or their
  single rounds; the hardware loop takes the list of what happens in its rounds, and is shown to end with the
  script.

  \<^bold>\<open>Interleaving.\<close> The steps of the burn-in loop are one start or one poll; the tests, the kernel and the other
  threads act between them, and so does another copy of the program on the same pipes: a child whose
  \<open>execve\<close> fails returns from \<open>fork_cmd\<close> and goes on as one, and takes output away (the step \<open>shared\<close>). \<open>poll_with\<close> and \<open>hardware_round\<close> have a second point, between reading and waiting.
  The threads are taken not to interrupt each other inside a collector or a message.

  \<^bold>\<open>Not modelled.\<close> The scripts, which only drive other programs, except for how they read the statistics file;
  the transfer of the upload, which is curl's; what curses does with the calls, its refreshes and panels; the
  text of the usage message and messages on the standard error; \<open>flush_buffer_cache\<close>, which only calls the
  kernel; the averages and maxima of the memory benchmark, which nothing uses; interference of threads inside
  a round beyond the points above. The program is the one of the Makefile: Linux on x86-64, with
  \<open>THREADING\<close>.
\<close>

section \<open>From \<open>/proc\<close> to the configuration of the HPL test\<close>

lemma hpl_grid_line:
  assumes "0 < n" and "n < 2 ^ 31"
  shows "\<exists>P Q. hpl_calc_pq_main (Some (fmt_d n)) =
      Some (fmt_d P @ ''            Ps'' @ [NL] @ fmt_d Q @ ''            Qs'' @ [NL]) \<and>
    P * Q = n \<and> 1 \<le> P \<and> P \<le> Q \<and> (\<forall>a b. 1 \<le> a \<and> a \<le> b \<and> a * b = n \<longrightarrow> a \<le> P \<and> Q \<le> b)"
proof -
  have "atoi (fmt_d n) = n" using assms by (intro atoi_fmt_d) simp_all
  then show ?thesis using calc_pq_grid [OF assms(1)] by (fastforce simp: hpl_calc_pq_main_def)
qed

lemma hpl_size_line:
  assumes "786432 < m" and "m \<le> 2 ^ 36"
  shows "\<exists>N. hpl_calc_n_main (Some (fmt_d m)) = Some (show_nat N @ [NL]) \<and> 192 dvd N \<and>
    100 * (8 * (N * N)) \<le> 94 * ((nat m - 786432) * 1024) \<and>
    94 * ((nat m - 786432) * 1024) < 100 * (8 * ((N + 192) * (N + 192)) + 2)"
proof -
  have "fmt_d m = show_nat (nat m)" using assms by (simp add: fmt_d_def)
  moreover have "786432 < nat m" "nat m \<le> 2 ^ 36" using assms by simp_all
  ultimately show ?thesis using hpl_calc_n_size [of "nat m"] by simp
qed

text \<open>C11: The statistics carry the machine's size to the HPL test. When the CPU information comes
  from a \<open>/proc/cpuinfo\<close> with \<open>n\<close> processor lines and the texts of the report are literal, sourcing
  the written file and passing \<open>CPU_QTY\<close> and \<open>MEM_TOTAL\<close> on, as the test does, makes the grid
  program print the factors of \<open>n\<close> that are closest to a square, and the size program a matrix that
  fits the memory.\<close>

theorem hpl_test_configuration:
  assumes "get_cpu_info (Some ci) s0 = Some s" and "cpu_info (sens w) = cpu_info s"
    and "0 < processors ci" and "processors ci < 2 ^ 31"
    and "786432 < mem_total (mem_info (sens w))" and "mem_total (mem_info (sens w)) \<le> 2 ^ 36"
    and "report_ok w" and "texts_ok one_line w" and "texts_ok plain w"
  shows "\<exists>t kvs. dump_stats True w = Some (w\<lparr>stat_file := Some t\<rparr>) \<and> sh_source t = Some kvs \<and>
    (\<exists>P Q. hpl_calc_pq_main (sh_value kvs ''CPU_QTY'') =
        Some (fmt_d P @ ''            Ps'' @ [NL] @ fmt_d Q @ ''            Qs'' @ [NL]) \<and>
      P * Q = int (processors ci) \<and> 1 \<le> P \<and> P \<le> Q \<and>
      (\<forall>a b. 1 \<le> a \<and> a \<le> b \<and> a * b = int (processors ci) \<longrightarrow> a \<le> P \<and> Q \<le> b)) \<and>
    (\<exists>N. hpl_calc_n_main (sh_value kvs ''MEM_TOTAL'') = Some (show_nat N @ [NL]) \<and> 192 dvd N \<and>
      100 * (8 * (N * N)) \<le> 94 * ((nat (mem_total (mem_info (sens w))) - 786432) * 1024) \<and>
      94 * ((nat (mem_total (mem_info (sens w))) - 786432) * 1024) < 100 * (8 * ((N + 192) * (N + 192)) + 2))"
proof -
  obtain kvs t where k: "stat_vars w = Some kvs" "dump_stats True w = Some (w\<lparr>stat_file := Some t\<rparr>)"
    "sh_source t = Some kvs \<longleftrightarrow> (\<forall>kv \<in> set kvs. sh_literal (snd kv))"
    using dump_stats_sourced [OF assms(7,8)] by blast
  then have src: "sh_source t = Some kvs" using stat_vars_plain [OF k(1) assms(9)] by simp
  have q: "qty (cpu_info (sens w)) = int (processors ci)" using get_cpu_info_qty [OF assms(1)] assms(2) by simp
  note u = stat_vars_used [OF k(1), unfolded q]
  show ?thesis
    using k(2) src u hpl_grid_line [of "int (processors ci)"] hpl_size_line [OF assms(5,6)] assms(3,4)
    by (intro exI [of _ t] exI [of _ kvs] conjI) simp_all
qed

text \<open>A \<open>/proc/cpuinfo\<close> of twelve processors.\<close>

definition twelve :: string where
  "twelve = concat (map (\<lambda>l. l @ [NL]) (replicate 12 ''processor : 0''))"

lemma twelve_lines: "fgets_all BUFSIZ twelve = replicate 12 (''processor : 0'' @ [NL])"
proof -
  have "fgets_all BUFSIZ twelve = map (\<lambda>l. l @ [NL]) (replicate 12 ''processor : 0'')"
    unfolding twelve_def by (rule fgets_all_lines [OF BUFSIZ_gt]) (simp add: BUFSIZ_def)
  then show ?thesis by simp
qed

lemma twelve_processors: "processors twelve = 12"
  by (simp add: processors_def twelve_lines starts_def)

lemma hpl_test_configuration_witness:
  "\<exists>w t kvs P Q N. dump_stats True w = Some (w\<lparr>stat_file := Some t\<rparr>) \<and> sh_source t = Some kvs \<and>
    hpl_calc_pq_main (sh_value kvs ''CPU_QTY'') =
      Some (fmt_d P @ ''            Ps'' @ [NL] @ fmt_d Q @ ''            Qs'' @ [NL]) \<and> P * Q = 12 \<and>
    hpl_calc_n_main (sh_value kvs ''MEM_TOTAL'') = Some (show_nat N @ [NL]) \<and> 192 dvd N"
proof -
  let ?s0 = "no_sensors\<lparr>mem_info := (mem_info no_sensors)\<lparr>mem_total := 16000000\<rparr>\<rparr>"
  have "cpu_info_line (''processor : 0'' @ [NL]) (n, ci) = Some (n + 1, ci)" for n ci
    by (simp add: cpu_info_line_def starts_def)
  then have "fold_opt cpu_info_line (replicate k (''processor : 0'' @ [NL])) (n, ci) = Some (n + k, ci)" for k n ci
    by (induction k arbitrary: n) simp_all
  then have s: "get_cpu_info (Some twelve) ?s0 = Some (?s0\<lparr>cpu_info := (cpu_info ?s0)\<lparr>qty := 12\<rparr>\<rparr>)"
    by (simp add: get_cpu_info_def twelve_lines)
  let ?w = "no_breakin\<lparr>sens := ?s0\<lparr>cpu_info := (cpu_info ?s0)\<lparr>qty := 12\<rparr>\<rparr>\<rparr>"
  have r: "report_ok ?w"
    using no_sensors_ok dmi_inv_zero
    by (simp add: report_ok_def no_breakin_def sensors_ok_def) (simp add: no_sensors_def)
  have t: "texts_ok P ?w" if "P []" for P
    using that by (auto simp: texts_ok_def no_breakin_def no_sensors_def get_field_zero no_scripts_def no_script_def cstr_def)
  have p: "texts_ok one_line ?w" "texts_ok plain ?w" by (rule t, simp add: one_line_def plain_def)+
  have "cpu_info (sens ?w) = cpu_info (?s0\<lparr>cpu_info := (cpu_info ?s0)\<lparr>qty := 12\<rparr>\<rparr>)" "mem_total (mem_info (sens ?w)) = 16000000"
    by (simp_all add: no_breakin_def)
  then obtain w where w: "cpu_info (sens w) = cpu_info (?s0\<lparr>cpu_info := (cpu_info ?s0)\<lparr>qty := 12\<rparr>\<rparr>)"
    "mem_total (mem_info (sens w)) = 16000000" "report_ok w" "texts_ok one_line w" "texts_ok plain w"
    using r p by blast
  have "0 < processors twelve" "processors twelve < 2 ^ 31" "786432 < mem_total (mem_info (sens w))"
    "mem_total (mem_info (sens w)) \<le> 2 ^ 36" using twelve_processors w(2) by simp_all
  from hpl_test_configuration [OF s w(1) this w(3-5)] show ?thesis
    unfolding twelve_processors of_nat_numeral by (elim exE conjE) (intro exI conjI, assumption+)
qed

end
